(* ===== verification/Prelude.thy ===== *)
theory Prelude
  imports Main "HOL-Library.Word"
begin

text \<open>
  What every component of the tcp-monitor model shares: the machine integer types of the
  Rust sources, the I/O error kinds, the outcome of an awaited future, big-endian byte
  encodings of words, and the generic runner of a step function over a list of events with
  the locale that lifts one-step invariants to whole runs.
\<close>

section \<open>Machine integers and I/O results\<close>

type_synonym u8 = "8 word"
type_synonym u16 = "16 word"
type_synonym u32 = "32 word"
type_synonym u64 = "64 word"
type_synonym i64 = "64 word"

text \<open>
  The kinds of \<open>std::io::Error\<close> that the sources name; every other kind is
  \<open>OtherKind\<close> with a number, so that "anything else" stays a branch.
\<close>

datatype io_kind =
    ConnectionReset
  | BrokenPipe
  | UnexpectedEof
  | TimedOut
  | InvalidData
  | InvalidInput
  | OtherKind nat

type_synonym 'a io_result = "io_kind + 'a"

text \<open>
  Polling a future: it is ready with a value, or it still waits for the environment. A
  \<open>tokio::select!\<close> or \<open>tokio::time::timeout\<close> around a waiting future may drop it.
\<close>

datatype 'a poll = Ready 'a | Pending

section \<open>Proof support\<close>

named_theorems byte_simps "lengths and values of encoded byte sequences"
named_theorems step_simps "one step of a component on a given event"

lemma take_append_eq [byte_simps]: "length xs = n \<Longrightarrow> take n (xs @ ys) = xs"
  by simp

lemma drop_append_eq [byte_simps]: "length xs = n \<Longrightarrow> drop n (xs @ ys) = ys"
  by simp

lemma unat_of_nat_small:
  "n < 2 ^ LENGTH('a::len) \<Longrightarrow> unat (of_nat n :: 'a word) = n"
  by (simp add: unat_of_nat take_bit_nat_eq_self)

text \<open>Replacing an element by one that passes no more than it did.\<close>

lemma find_append_None: "find P xs = None \<Longrightarrow> find P (xs @ ys) = find P ys"
  by (induction xs) (simp_all split: if_splits)

lemma length_filter_update:
  assumes "k < length xs" and "P y \<Longrightarrow> P (xs ! k)"
  shows "length (filter P (xs[k := y])) \<le> length (filter P xs)"
  using assms
proof (induction xs arbitrary: k)
  case (Cons x xs)
  then show ?case by (cases k) (auto split: nat.splits simp: le_SucI)
qed simp

lemma length_filter_release:
  assumes "k < length xs" and "P (xs ! k)" and "\<not> P y"
  shows "Suc (length (filter P (xs[k := y]))) = length (filter P xs)"
  using assms
proof (induction xs arbitrary: k)
  case (Cons x xs)
  then show ?case by (cases k) auto
qed simp

section \<open>Big-endian bytes\<close>

text \<open>\<open>to_be_bytes n w\<close> is the Rust \<open>w.to_be_bytes()\<close> of an integer of \<open>n\<close> bytes.\<close>

fun to_be_bytes :: "nat \<Rightarrow> 'a::len word \<Rightarrow> u8 list" where
  "to_be_bytes 0 w = []"
| "to_be_bytes (Suc n) w = to_be_bytes n (drop_bit 8 w) @ [ucast w]"

definition from_be_bytes :: "u8 list \<Rightarrow> 'a::len word" where
  "from_be_bytes bs = foldl (\<lambda>acc b. or (push_bit 8 acc) (ucast b)) 0 bs"

lemma length_to_be_bytes [simp, byte_simps]: "length (to_be_bytes n w) = n"
  by (induction n arbitrary: w) auto

lemma from_be_bytes_Nil [simp]: "from_be_bytes [] = 0"
  by (simp add: from_be_bytes_def)

lemma from_be_bytes_snoc [simp]:
  "from_be_bytes (bs @ [b]) = or (push_bit 8 (from_be_bytes bs)) (ucast b)"
  by (simp add: from_be_bytes_def)

lemma from_to_be_bytes:
  fixes w :: "'a::len word"
  shows "from_be_bytes (to_be_bytes n w) = take_bit (8 * n) w"
proof (induction n arbitrary: w)
  case 0
  then show ?case by simp
next
  case (Suc n)
  show ?case
    by (rule bit_word_eqI) (auto simp: Suc bit_simps not_le)
qed

lemma from_to_be_bytes_exact [simp]:
  fixes w :: "'a::len word"
  assumes "LENGTH('a) = 8 * n"
  shows "from_be_bytes (to_be_bytes n w) = w"
  using assms by (simp add: from_to_be_bytes take_bit_word_eq_self)

lemma bit_from_be_bytes_bound:
  "bit (from_be_bytes bs :: 'a::len word) i \<Longrightarrow> i < 8 * length bs"
proof (induction bs arbitrary: i rule: rev_induct)
  case Nil
  then show ?case by simp
next
  case (snoc b bs)
  from snoc.prems consider "8 \<le> i" "bit (from_be_bytes bs :: 'a word) (i - 8)" | "bit b i"
    by (auto simp: bit_simps)
  then show ?case
  proof cases
    case 1
    with snoc.IH [of "i - 8"] show ?thesis by simp
  next
    case 2
    then show ?thesis using bit_imp_le_length [of b i] by simp
  qed
qed

lemma to_from_be_bytes:
  assumes "8 * length bs \<le> LENGTH('a::len)"
  shows "to_be_bytes (length bs) (from_be_bytes bs :: 'a word) = bs"
  using assms
proof (induction bs rule: rev_induct)
  case Nil
  then show ?case by simp
next
  case (snoc b bs)
  have "drop_bit 8 (from_be_bytes (bs @ [b]) :: 'a word) = from_be_bytes bs"
    using snoc.prems by (intro bit_word_eqI) (auto simp: bit_simps dest: bit_from_be_bytes_bound bit_imp_le_length)
  moreover have "ucast (from_be_bytes (bs @ [b]) :: 'a word) = b"
    using snoc.prems by (intro bit_word_eqI) (auto simp: bit_simps)
  ultimately show ?case
    using snoc by simp
qed

section \<open>Running a step function\<close>

text \<open>
  A component is a step function that takes a state and one event of its environment and
  returns the next state, or \<open>None\<close> where the code is not waiting for such an event.
\<close>

primrec run_steps :: "('s \<Rightarrow> 'e \<Rightarrow> 's option) \<Rightarrow> 's \<Rightarrow> 'e list \<Rightarrow> 's option" where
  "run_steps f s [] = Some s"
| "run_steps f s (e # es) = (case f s e of None \<Rightarrow> None | Some s' \<Rightarrow> run_steps f s' es)"

lemma run_steps_append:
  "run_steps f s (es @ fs) = (case run_steps f s es of None \<Rightarrow> None | Some s' \<Rightarrow> run_steps f s' fs)"
  by (induction es arbitrary: s) (auto split: option.splits)

lemma run_steps_appendI:
  "run_steps f s es = Some s' \<Longrightarrow> run_steps f s (es @ fs) = run_steps f s' fs"
  by (simp add: run_steps_append)

text \<open>
  A step function paired with a ghost value that each event updates, such as the history of
  what the events carried. Properties that relate a state to everything that happened so far
  are invariants of the pair.
\<close>

definition with_ghost ::
    "('s \<Rightarrow> 'e \<Rightarrow> 's option) \<Rightarrow> ('g \<Rightarrow> 'e \<Rightarrow> 'g) \<Rightarrow> 'g \<times> 's \<Rightarrow> 'e \<Rightarrow> ('g \<times> 's) option" where
  "with_ghost f g gs e = map_option (Pair (g (fst gs) e)) (f (snd gs) e)"

definition with_history ::
    "('s \<Rightarrow> 'e \<Rightarrow> 's option) \<Rightarrow> ('e \<Rightarrow> 'h list) \<Rightarrow> 'h list \<times> 's \<Rightarrow> 'e \<Rightarrow> ('h list \<times> 's) option" where
  "with_history f g = with_ghost f (\<lambda>h e. h @ g e)"

lemma run_with_ghost:
  "run_steps (with_ghost f g) (h, s) es = map_option (Pair (foldl g h es)) (run_steps f s es)"
  by (induction es arbitrary: h s) (auto simp: with_ghost_def split: option.splits)

lemma foldl_history: "foldl (\<lambda>h e. h @ g e) h es = h @ concat (map g es)"
  by (induction es arbitrary: h) auto

lemma run_with_history:
  "run_steps (with_history f g) (h, s) es
     = map_option (Pair (h @ concat (map g es))) (run_steps f s es)"
  by (simp add: with_history_def run_with_ghost foldl_history)

text \<open>The contract of a step function with an invariant: each step keeps it.\<close>

locale stepper =
  fixes step :: "'s \<Rightarrow> 'e \<Rightarrow> 's option"
    and inv :: "'s \<Rightarrow> bool"
  assumes inv_step: "step s e = Some s' \<Longrightarrow> inv s \<Longrightarrow> inv s'"
begin

lemma inv_run: "run_steps step s es = Some s' \<Longrightarrow> inv s \<Longrightarrow> inv s'"
  by (induction es arbitrary: s) (auto split: option.splits dest: inv_step)

text \<open>Every prefix of a run stays within the invariant too.\<close>

lemma inv_prefix:
  assumes "run_steps step s (es @ fs) = Some s'" and "inv s"
  shows "\<exists>t. run_steps step s es = Some t \<and> inv t"
  using assms by (auto simp: run_steps_append split: option.splits dest: inv_run)

end

section \<open>Machines that pay for their steps\<close>

text \<open>
  \<open>own\<close> are the steps that are paid for, \<open>free\<close> those that cost nothing; the others may bring in
  new work.
\<close>

locale paying = stepper step inv
  for step :: "'s \<Rightarrow> 'e \<Rightarrow> 's option" and inv :: "'s \<Rightarrow> bool" +
  fixes own :: "'e \<Rightarrow> bool" and free :: "'e \<Rightarrow> bool" and work :: "'s \<Rightarrow> nat"
  assumes pays: "step s e = Some s' \<Longrightarrow> inv s \<Longrightarrow> own e \<Longrightarrow> work s' < work s"
    and free: "step s e = Some s' \<Longrightarrow> inv s \<Longrightarrow> free e \<Longrightarrow> work s' \<le> work s"
begin

lemma bounded:
  assumes "run_steps step s es = Some s'" and "inv s" and "list_all (\<lambda>e. own e \<or> free e) es"
  shows "length (filter own es) + work s' \<le> work s"
  using assms
proof (induction es arbitrary: s)
  case (Cons e es)
  then obtain t where t: "step s e = Some t" "run_steps step t es = Some s'" by (auto split: option.splits)
  from Cons.IH [OF t(2) inv_step [OF t(1) Cons.prems(2)]] Cons.prems(3)
  have "length (filter own es) + work s' \<le> work t" by simp
  with pays [OF t(1) Cons.prems(2)] free [OF t(1) Cons.prems(2)] Cons.prems(3) show ?case
    by (cases "own e") auto
qed simp

end

end
