(* ===== verification/Utf8.thy ===== *)
theory Utf8
  imports Prelude
begin

text \<open>
  Rust strings: a \<open>String\<close> is a sequence of Unicode scalar values, \<open>as_bytes\<close> its UTF-8
  encoding and \<open>String::from_utf8\<close> the strict decoder (no overlong form, no surrogate, no
  value above \<open>0x10FFFF\<close>). \<open>char::is_alphanumeric\<close> is exact on ASCII; beyond ASCII it is
  the Unicode table of the standard library, which is a parameter of the model.
\<close>

section \<open>Characters and strings\<close>

type_synonym rchar = nat
type_synonym rstr = "rchar list"

definition scalar_value :: "rchar \<Rightarrow> bool" where
  "scalar_value c \<longleftrightarrow> c < 0x110000 \<and> \<not> (0xD800 \<le> c \<and> c < 0xE000)"

definition valid_str :: "rstr \<Rightarrow> bool" where
  "valid_str s \<longleftrightarrow> list_all scalar_value s"

text \<open>An ASCII literal of the sources.\<close>

definition lit :: "string \<Rightarrow> rstr" where
  "lit s = map of_char s"

definition is_ascii_alphanumeric :: "rchar \<Rightarrow> bool" where
  "is_ascii_alphanumeric c \<longleftrightarrow>
     (0x30 \<le> c \<and> c \<le> 0x39) \<or> (0x41 \<le> c \<and> c \<le> 0x5A) \<or> (0x61 \<le> c \<and> c \<le> 0x7A)"

definition is_alphanumeric :: "(rchar \<Rightarrow> bool) \<Rightarrow> rchar \<Rightarrow> bool" where
  "is_alphanumeric uni c = (if c < 128 then is_ascii_alphanumeric c else uni c)"

section \<open>Encoding\<close>

text \<open>\<open>n as u8\<close> for a value below 256.\<close>

definition byte_of :: "nat \<Rightarrow> u8" where
  "byte_of n = of_nat n"

definition utf8_char :: "rchar \<Rightarrow> u8 list" where
  "utf8_char c =
     (if c < 0x80 then [byte_of c]
      else if c < 0x800 then [byte_of (0xC0 + c div 64), byte_of (0x80 + c mod 64)]
      else if c < 0x10000 then
        [byte_of (0xE0 + c div 4096), byte_of (0x80 + c div 64 mod 64), byte_of (0x80 + c mod 64)]
      else
        [byte_of (0xF0 + c div 262144), byte_of (0x80 + c div 4096 mod 64),
         byte_of (0x80 + c div 64 mod 64), byte_of (0x80 + c mod 64)])"

definition as_bytes :: "rstr \<Rightarrow> u8 list" where
  "as_bytes s = concat (map utf8_char s)"

section \<open>Decoding\<close>

definition continuation :: "u8 \<Rightarrow> bool" where
  "continuation b \<longleftrightarrow> 0x80 \<le> unat b \<and> unat b < 0xC0"

definition low6 :: "u8 \<Rightarrow> nat" where
  "low6 b = unat b - 0x80"

text \<open>
  One character off the front: the value and the bytes left, or \<open>None\<close> for a malformed
  sequence.
\<close>

definition decode_char :: "u8 list \<Rightarrow> (rchar \<times> u8 list) option" where
  "decode_char bs =
     (case bs of
        [] \<Rightarrow> None
      | b0 # r0 \<Rightarrow>
          (let n = unat b0
           in if n < 0x80 then Some (n, r0)
              else if 0xC0 \<le> n \<and> n < 0xE0 then
                (case r0 of
                   b1 # r1 \<Rightarrow>
                     (let c = (n - 0xC0) * 64 + low6 b1
                      in if continuation b1 \<and> 0x80 \<le> c then Some (c, r1) else None)
                 | _ \<Rightarrow> None)
              else if 0xE0 \<le> n \<and> n < 0xF0 then
                (case r0 of
                   b1 # b2 # r2 \<Rightarrow>
                     (let c = (n - 0xE0) * 4096 + low6 b1 * 64 + low6 b2
                      in if continuation b1 \<and> continuation b2 \<and> 0x800 \<le> c \<and> scalar_value c
                         then Some (c, r2) else None)
                 | _ \<Rightarrow> None)
              else if 0xF0 \<le> n \<and> n < 0xF8 then
                (case r0 of
                   b1 # b2 # b3 # r3 \<Rightarrow>
                     (let c = (n - 0xF0) * 262144 + low6 b1 * 4096 + low6 b2 * 64 + low6 b3
                      in if continuation b1 \<and> continuation b2 \<and> continuation b3
                            \<and> 0x10000 \<le> c \<and> scalar_value c
                         then Some (c, r3) else None)
                 | _ \<Rightarrow> None)
              else None))"

lemma decode_char_shorter: "decode_char bs = Some (c, r) \<Longrightarrow> length r < length bs"
  by (auto simp: decode_char_def Let_def split: list.splits if_splits)

function from_utf8 :: "u8 list \<Rightarrow> rstr option" where
  "from_utf8 bs =
     (if bs = [] then Some []
      else case decode_char bs of
             None \<Rightarrow> None
           | Some (c, r) \<Rightarrow> map_option (Cons c) (from_utf8 r))"
  by pat_completeness auto
termination
  by (relation "measure length") (auto simp: decode_char_shorter)

declare from_utf8.simps [simp del]

lemma from_utf8_Nil [simp]: "from_utf8 [] = Some []"
  by (simp add: from_utf8.simps)

lemma from_utf8_step:
  "bs \<noteq> [] \<Longrightarrow> from_utf8 bs = (case decode_char bs of None \<Rightarrow> None
     | Some (c, r) \<Rightarrow> map_option (Cons c) (from_utf8 r))"
  by (simp add: from_utf8.simps)

section \<open>Round trips\<close>

lemma unat_byte_of [simp]: "n < 256 \<Longrightarrow> unat (byte_of n) = n"
  unfolding byte_of_def by (rule unat_of_nat_small) simp

lemma byte_of_unat [simp]: "byte_of (unat b) = b"
  by (simp add: byte_of_def)

lemma utf8_char_nonempty [simp]: "utf8_char c \<noteq> []"
  by (simp add: utf8_char_def)

lemma decode_utf8_char:
  assumes "scalar_value c"
  shows "decode_char (utf8_char c @ r) = Some (c, r)"
proof -
  have c: "c < 0x110000" using assms by (simp add: scalar_value_def)
  have split2: "c div 64 * 64 + c mod 64 = c" by simp
  have d: "c div 4096 = c div 64 div 64" "c div 262144 = c div 64 div 64 div 64"
    by (simp_all add: div_mult2_eq [symmetric])
  have split3: "c div 4096 * 4096 + c div 64 mod 64 * 64 + c mod 64 = c"
    unfolding d using div_mult_mod_eq [of c 64] div_mult_mod_eq [of "c div 64" 64] by linarith
  have split4: "c div 262144 * 262144 + c div 4096 mod 64 * 4096 + c div 64 mod 64 * 64 + c mod 64 = c"
    unfolding d using div_mult_mod_eq [of c 64] div_mult_mod_eq [of "c div 64" 64]
      div_mult_mod_eq [of "c div 64 div 64" 64] by linarith
  consider "c < 0x80" | "0x80 \<le> c" "c < 0x800" | "0x800 \<le> c" "c < 0x10000" | "0x10000 \<le> c"
    by linarith
  then show ?thesis
  proof cases
    case 1
    then show ?thesis by (simp add: decode_char_def utf8_char_def)
  next
    case 2
    then have "c div 64 < 32" by simp
    with 2 split2 show ?thesis
      by (simp add: decode_char_def utf8_char_def continuation_def low6_def Let_def)
  next
    case 3
    then have "c div 4096 < 16" by simp
    with 3 split3 assms show ?thesis
      by (simp add: decode_char_def utf8_char_def continuation_def low6_def Let_def)
  next
    case 4
    with c have "c div 262144 < 5" by simp
    with 4 split4 assms show ?thesis
      by (simp add: decode_char_def utf8_char_def continuation_def low6_def Let_def)
  qed
qed

lemma from_utf8_as_bytes [simp]:
  "valid_str s \<Longrightarrow> from_utf8 (as_bytes s) = Some s"
proof (induction s)
  case Nil
  then show ?case by (simp add: as_bytes_def)
next
  case (Cons c s)
  then have "decode_char (utf8_char c @ as_bytes s) = Some (c, as_bytes s)"
    by (simp add: decode_utf8_char valid_str_def)
  with Cons show ?case
    by (simp add: from_utf8_step as_bytes_def valid_str_def)
qed

text \<open>Conversely a decoded string is valid and encodes to the bytes it came from.\<close>

text \<open>Reading off the six-bit digits of an assembled value.\<close>

lemma six_bits:
  fixes q l :: nat
  assumes "l < 64"
  shows "(q * 64 + l) div 64 = q" "(q * 64 + l) mod 64 = l"
  using assms by simp_all

lemma digits3:
  fixes a b l :: nat
  assumes "b < 64" "l < 64" and c: "c = a * 4096 + b * 64 + l"
  shows "c div 4096 = a" "c div 64 mod 64 = b" "c mod 64 = l"
proof -
  have c': "c = (a * 64 + b) * 64 + l" using c by (simp add: algebra_simps)
  then have d: "c div 64 = a * 64 + b" and "c mod 64 = l"
    unfolding c' using six_bits [OF assms(2), of "a * 64 + b"] by simp_all
  then show "c div 64 mod 64 = b" "c mod 64 = l" using assms(1) by (simp_all add: six_bits)
  have "c div 4096 = c div 64 div 64" by (simp add: div_mult2_eq [symmetric])
  then show "c div 4096 = a" using d assms(1) by (simp add: six_bits)
qed

lemma digits4:
  fixes a b1 b2 l :: nat
  assumes "b1 < 64" "b2 < 64" "l < 64" and c: "c = a * 262144 + b1 * 4096 + b2 * 64 + l"
  shows "c div 262144 = a" "c div 4096 mod 64 = b1" "c div 64 mod 64 = b2" "c mod 64 = l"
proof -
  have c': "c = (a * 64 + b1) * 4096 + b2 * 64 + l" using c by (simp add: algebra_simps)
  note d = digits3 [OF assms(2,3) c']
  then show "c div 64 mod 64 = b2" "c mod 64 = l" "c div 4096 mod 64 = b1"
    using assms(1) by (simp_all add: six_bits)
  have "c div 262144 = c div 4096 div 64" by (simp add: div_mult2_eq [symmetric])
  then show "c div 262144 = a" using d(1) assms(1) by (simp add: six_bits)
qed

lemma continuation_digit: "continuation b \<Longrightarrow> low6 b < 64" "continuation b \<Longrightarrow> 0x80 + low6 b = unat b"
  by (auto simp: continuation_def low6_def)

lemma utf8_char_read:
  assumes "continuation b1"
  shows "0x80 \<le> c \<Longrightarrow> 0xC0 \<le> n \<Longrightarrow> n < 0xE0 \<Longrightarrow> c = (n - 0xC0) * 64 + low6 b1
           \<Longrightarrow> n = unat b0 \<Longrightarrow> utf8_char c = [b0, b1]"
    and "continuation b2 \<Longrightarrow> 0x800 \<le> c \<Longrightarrow> 0xE0 \<le> n \<Longrightarrow> n < 0xF0
           \<Longrightarrow> c = (n - 0xE0) * 4096 + low6 b1 * 64 + low6 b2
           \<Longrightarrow> n = unat b0 \<Longrightarrow> utf8_char c = [b0, b1, b2]"
    and "continuation b2 \<Longrightarrow> continuation b3 \<Longrightarrow> 0x10000 \<le> c \<Longrightarrow> 0xF0 \<le> n \<Longrightarrow> n < 0xF8
           \<Longrightarrow> c = (n - 0xF0) * 262144 + low6 b1 * 4096 + low6 b2 * 64 + low6 b3
           \<Longrightarrow> n = unat b0 \<Longrightarrow> utf8_char c = [b0, b1, b2, b3]"
proof -
  note l1 = continuation_digit [OF assms]
  show "utf8_char c = [b0, b1]"
    if "0x80 \<le> c" "0xC0 \<le> n" "n < 0xE0" and c: "c = (n - 0xC0) * 64 + low6 b1" and "n = unat b0"
  proof -
    have "c div 64 = n - 0xC0" "c mod 64 = low6 b1" unfolding c using l1 by simp_all
    moreover from this that l1 have "c < 0x800" by simp
    ultimately show ?thesis using that l1 by (simp add: utf8_char_def)
  qed
  show "utf8_char c = [b0, b1, b2]"
    if "continuation b2" "0x800 \<le> c" "0xE0 \<le> n" "n < 0xF0"
      and c: "c = (n - 0xE0) * 4096 + low6 b1 * 64 + low6 b2" and "n = unat b0"
  proof -
    note l2 = continuation_digit [OF that(1)]
    from that l1 l2 have "c < 0x10000" by simp
    then show ?thesis using that l1 l2 digits3 [OF l1(1) l2(1) c] by (simp add: utf8_char_def)
  qed
  show "utf8_char c = [b0, b1, b2, b3]"
    if "continuation b2" "continuation b3" "0x10000 \<le> c" "0xF0 \<le> n" "n < 0xF8"
      and c: "c = (n - 0xF0) * 262144 + low6 b1 * 4096 + low6 b2 * 64 + low6 b3" and "n = unat b0"
    using that l1 continuation_digit [OF that(1)] continuation_digit [OF that(2)]
      digits4 [OF l1(1) continuation_digit(1) [OF that(1)] continuation_digit(1) [OF that(2)] c]
    by (simp add: utf8_char_def)
qed

lemma decode_char_sound:
  assumes "decode_char bs = Some (c, r)"
  shows "scalar_value c \<and> bs = utf8_char c @ r"
proof -
  from assms obtain b0 r0 where bs: "bs = b0 # r0"
    by (auto simp: decode_char_def split: list.splits)
  let ?n = "unat b0"
  consider "?n < 0x80" | "0xC0 \<le> ?n" "?n < 0xE0" | "0xE0 \<le> ?n" "?n < 0xF0"
    | "0xF0 \<le> ?n" "?n < 0xF8"
    using assms bs by (fastforce simp: decode_char_def Let_def split: if_splits)
  then show ?thesis
  proof cases
    case 1
    with assms bs show ?thesis
      by (auto simp: decode_char_def utf8_char_def scalar_value_def)
  next
    case 2
    with assms bs obtain b1 where r0: "r0 = b1 # r" and c: "c = (?n - 0xC0) * 64 + low6 b1"
      and k: "continuation b1" "0x80 \<le> c"
      by (auto simp: decode_char_def Let_def split: list.splits if_splits)
    from 2 continuation_digit(1) [OF k(1)] have "c < 0x800" by (simp add: c)
    then have "scalar_value c" by (simp add: scalar_value_def)
    with utf8_char_read(1) [OF k 2 c refl] show ?thesis by (simp add: bs r0)
  next
    case 3
    with assms bs obtain b1 b2 where r0: "r0 = b1 # b2 # r"
      and c: "c = (?n - 0xE0) * 4096 + low6 b1 * 64 + low6 b2"
      and k: "continuation b1" "continuation b2" "0x800 \<le> c" "scalar_value c"
      by (auto simp: decode_char_def Let_def split: list.splits if_splits)
    from utf8_char_read(2) [OF k(1,2,3) 3 c refl] k(4) show ?thesis by (simp add: bs r0)
  next
    case 4
    with assms bs obtain b1 b2 b3 where r0: "r0 = b1 # b2 # b3 # r"
      and c: "c = (?n - 0xF0) * 262144 + low6 b1 * 4096 + low6 b2 * 64 + low6 b3"
      and k: "continuation b1" "continuation b2" "continuation b3" "0x10000 \<le> c" "scalar_value c"
      by (auto simp: decode_char_def Let_def split: list.splits if_splits)
    from utf8_char_read(3) [OF k(1,2,3,4) 4 c refl] k(5) show ?thesis by (simp add: bs r0)
  qed
qed

lemma from_utf8_sound:
  "from_utf8 bs = Some s \<Longrightarrow> valid_str s \<and> as_bytes s = bs"
proof (induction bs arbitrary: s rule: from_utf8.induct)
  case (1 bs)
  show ?case
  proof (cases "bs = []")
    case True
    with "1.prems" show ?thesis by (simp add: valid_str_def as_bytes_def)
  next
    case False
    with "1.prems" obtain c r s' where d: "decode_char bs = Some (c, r)"
      and s': "from_utf8 r = Some s'" and s: "s = c # s'"
      by (auto simp: from_utf8_step split: option.splits)
    from "1.IH" [OF False d refl s'] decode_char_sound [OF d] show ?thesis
      by (simp add: s valid_str_def as_bytes_def)
  qed
qed

lemma length_utf8_char: "1 \<le> length (utf8_char c)" "length (utf8_char c) \<le> 4"
  by (simp_all add: utf8_char_def)

lemma length_as_bytes_ge: "length s \<le> length (as_bytes s)"
proof (induction s)
  case (Cons c s)
  then show ?case using length_utf8_char(1) [of c] by (simp add: as_bytes_def)
qed (simp add: as_bytes_def)

lemma length_as_bytes_le: "length (as_bytes s) \<le> 4 * length s"
proof (induction s)
  case (Cons c s)
  then show ?case using length_utf8_char(2) [of c] by (simp add: as_bytes_def)
qed (simp add: as_bytes_def)

lemma as_bytes_empty_iff [simp]: "as_bytes s = [] \<longleftrightarrow> s = []"
  by (cases s) (simp_all add: as_bytes_def)

text \<open>ASCII text is one byte per character, so every cut of it is again text.\<close>

lemma as_bytes_ascii:
  "list_all (\<lambda>c. c < 128) s \<Longrightarrow> as_bytes s = map byte_of s"
  by (induction s) (auto simp: as_bytes_def utf8_char_def)

lemma ascii_valid: "list_all (\<lambda>c. c < 128) s \<Longrightarrow> valid_str s"
  by (auto simp: valid_str_def scalar_value_def list_all_iff)

lemma take_as_bytes_ascii:
  assumes "list_all (\<lambda>c. c < 128) s"
  shows "take n (as_bytes s) = as_bytes (take n s)"
proof -
  from assms have "list_all (\<lambda>c. c < 128) (take n s)"
    by (auto simp: list_all_iff dest: in_set_takeD)
  with assms show ?thesis by (simp add: as_bytes_ascii take_map)
qed

text \<open>A malformed remainder spoils the whole text.\<close>

lemma from_utf8_append:
  "valid_str s \<Longrightarrow> from_utf8 (as_bytes s @ r) = map_option (append s) (from_utf8 r)"
proof (induction s)
  case Nil
  then show ?case by (simp add: as_bytes_def option.map_ident)
next
  case (Cons c s)
  then have "decode_char (utf8_char c @ as_bytes s @ r) = Some (c, as_bytes s @ r)"
    by (simp add: decode_utf8_char valid_str_def)
  with Cons show ?case
    by (cases "from_utf8 r") (simp_all add: from_utf8_step as_bytes_def valid_str_def)
qed

lemma decode_char_cut:
  assumes "scalar_value c" and "0 < k" and "k < length (utf8_char c)"
  shows "decode_char (take k (utf8_char c)) = None"
proof -
  from assms consider "0x80 \<le> c" "c < 0x800" "k = 1" | "0x800 \<le> c" "c < 0x10000" "k = 1"
    | "0x800 \<le> c" "c < 0x10000" "k = 2" | "0x10000 \<le> c" "k = 1" | "0x10000 \<le> c" "k = 2" | "0x10000 \<le> c" "k = 3"
    by (auto simp: utf8_char_def split: if_splits) linarith+
  then show ?thesis
    using assms(1) by cases (auto simp: utf8_char_def decode_char_def Let_def scalar_value_def)
qed

text \<open>
  Encoding a string to UTF-8 and decoding the bytes gives the string back, and a byte
  sequence that decodes is exactly the encoding of what it decodes to: \<open>String::from_utf8\<close>
  accepts nothing else.
\<close>

theorem utf8_roundtrip:
  assumes "valid_str s"
  shows "from_utf8 (as_bytes s) = Some s \<and> (from_utf8 bs = Some s \<longleftrightarrow> bs = as_bytes s)"
  using assms from_utf8_sound by auto

theorem utf8_roundtrip_witness:
  "from_utf8 (as_bytes [0x61, 0xE9, 0x20AC, 0x1F600]) = Some [0x61, 0xE9, 0x20AC, 0x1F600]"
  using utf8_roundtrip [of "[0x61, 0xE9, 0x20AC, 0x1F600]"] by (simp add: valid_str_def scalar_value_def)

end
