(* ===== verification/Float64.thy ===== *)
theory Float64
  imports Prelude
begin

text \<open>
  The \<open>f64\<close> arithmetic that the sources use for timestamps, durations and round-trip times,
  and \<open>now_f64\<close> of \<open>src/lib.rs\<close>. An \<open>f64\<close> is its IEEE 754 bit pattern, as
  \<open>f64::to_bits\<close> and \<open>f64::from_bits\<close> of the Rust standard library see it. Finite values
  are read as integers in units of \<open>2 ^ -1074\<close>, the smallest positive \<open>f64\<close>; every operation
  rounds its exact result to the nearest \<open>f64\<close>, ties to even.
\<close>

section \<open>Bit patterns and values\<close>

datatype f64 = from_bits (to_bits: u64)

text \<open>Exponent and fraction bits, without the sign.\<close>

definition f64_mag :: "f64 \<Rightarrow> nat" where
  "f64_mag x = unat (to_bits x) mod 2 ^ 63"

definition f64_neg_sign :: "f64 \<Rightarrow> bool" where
  "f64_neg_sign x \<longleftrightarrow> 2 ^ 63 \<le> unat (to_bits x)"

definition inf_mag :: nat where
  "inf_mag = 2047 * 2 ^ 52"

definition f64_finite :: "f64 \<Rightarrow> bool" where
  "f64_finite x \<longleftrightarrow> f64_mag x < inf_mag"

definition f64_nan :: "f64 \<Rightarrow> bool" where
  "f64_nan x \<longleftrightarrow> inf_mag < f64_mag x"

text \<open>The value of a finite magnitude, in units of \<open>2 ^ -1074\<close>.\<close>

definition mag_value :: "nat \<Rightarrow> nat" where
  "mag_value b =
     (let e = b div 2 ^ 52; f = b mod 2 ^ 52
      in if e = 0 then f else (2 ^ 52 + f) * 2 ^ (e - 1))"

definition f64_value :: "f64 \<Rightarrow> int" where
  "f64_value x = (if f64_neg_sign x then - int (mag_value (f64_mag x)) else int (mag_value (f64_mag x)))"

definition mk_f64 :: "bool \<Rightarrow> nat \<Rightarrow> f64" where
  "mk_f64 neg m = from_bits (of_nat ((if neg then 2 ^ 63 else 0) + m))"

section \<open>Rounding\<close>

fun bit_len :: "nat \<Rightarrow> nat" where
  "bit_len n = (if n = 0 then 0 else Suc (bit_len (n div 2)))"

declare bit_len.simps [simp del]

text \<open>Round the fraction \<open>n / d\<close> to an integer, ties to even.\<close>

definition round_half_even :: "nat \<Rightarrow> nat \<Rightarrow> nat" where
  "round_half_even n d =
     (let m = n div d; r = n mod d
      in if 2 * r > d \<or> (2 * r = d \<and> odd m) then Suc m else m)"

text \<open>
  The magnitude bits of the \<open>f64\<close> nearest to \<open>n / d\<close> units: the integer part keeps 53
  significant bits, so \<open>e\<close> low bits are rounded away, and the bits of the result are
  \<open>e * 2 ^ 52\<close> plus the rounded significand (a carry out of it lands in the exponent).
\<close>

definition round_mag :: "nat \<Rightarrow> nat \<Rightarrow> nat" where
  "round_mag n d =
     (let e = bit_len (n div d) - 53
      in min (e * 2 ^ 52 + round_half_even n (d * 2 ^ e)) inf_mag)"

section \<open>The operations of the sources\<close>

definition unit_scale :: nat where
  "unit_scale = 2 ^ 1074"

text \<open>\<open>n as f64\<close> for an unsigned integer.\<close>

definition f64_of_uint :: "nat \<Rightarrow> f64" where
  "f64_of_uint n = mk_f64 False (round_mag (n * unit_scale) 1)"

definition f64_negate :: "f64 \<Rightarrow> f64" where
  "f64_negate x = mk_f64 (\<not> f64_neg_sign x) (f64_mag x)"

definition quiet_nan :: f64 where
  "quiet_nan = mk_f64 False (inf_mag + 2 ^ 51)"

definition f64_add :: "f64 \<Rightarrow> f64 \<Rightarrow> f64" where
  "f64_add x y =
     (if f64_nan x \<or> f64_nan y then quiet_nan
      else if \<not> f64_finite x \<and> \<not> f64_finite y
        then (if f64_neg_sign x = f64_neg_sign y then x else quiet_nan)
      else if \<not> f64_finite x then x
      else if \<not> f64_finite y then y
      else (let v = f64_value x + f64_value y
            in if v = 0 then mk_f64 (f64_neg_sign x \<and> f64_neg_sign y) 0
               else mk_f64 (v < 0) (round_mag (nat \<bar>v\<bar>) 1)))"

definition f64_sub :: "f64 \<Rightarrow> f64 \<Rightarrow> f64" where
  "f64_sub x y = f64_add x (f64_negate y)"

text \<open>Division of finite operands by a finite non-zero one, the only division the sources do.\<close>

definition f64_div_finite :: "f64 \<Rightarrow> f64 \<Rightarrow> f64" where
  "f64_div_finite x y =
     mk_f64 (f64_neg_sign x \<noteq> f64_neg_sign y)
       (round_mag (mag_value (f64_mag x) * unit_scale) (mag_value (f64_mag y)))"

section \<open>The wall clock\<close>

text \<open>
  \<open>SystemTime\<close> is the signed distance to the Unix epoch in nanoseconds;
  \<open>duration_since(UNIX_EPOCH)\<close> fails before the epoch, where \<open>unwrap_or_default\<close> gives the
  zero duration. A \<open>Duration\<close> is a number of nanoseconds.
\<close>

type_synonym sys_time = int
type_synonym duration = nat

definition nanos_per_sec :: nat where
  "nanos_per_sec = 1000000000"

definition from_secs :: "u64 \<Rightarrow> duration" where
  "from_secs s = unat s * nanos_per_sec"

definition as_secs_f64 :: "duration \<Rightarrow> f64" where
  "as_secs_f64 d =
     f64_add (f64_of_uint (d div nanos_per_sec))
       (f64_div_finite (f64_of_uint (d mod nanos_per_sec)) (f64_of_uint nanos_per_sec))"

definition duration_since_epoch :: "sys_time \<Rightarrow> duration option" where
  "duration_since_epoch t = (if 0 \<le> t then Some (nat t) else None)"

definition now_f64 :: "sys_time \<Rightarrow> f64" where
  "now_f64 t = as_secs_f64 (case duration_since_epoch t of Some d \<Rightarrow> d | None \<Rightarrow> 0)"

section \<open>Rounding is monotone\<close>

lemma bit_len_0 [simp]: "bit_len 0 = 0"
  by (simp add: bit_len.simps)

lemma bit_len_mono: "a \<le> b \<Longrightarrow> bit_len a \<le> bit_len b"
proof (induction a arbitrary: b rule: bit_len.induct)
  case (1 a)
  show ?case
  proof (cases "a = 0")
    case True
    then show ?thesis by simp
  next
    case False
    with 1 have "bit_len (a div 2) \<le> bit_len (b div 2)" by (simp add: div_le_mono)
    with False "1.prems" show ?thesis
      by (simp add: bit_len.simps [of a] bit_len.simps [of b])
  qed
qed

lemma bit_len_upper: "n < 2 ^ bit_len n"
proof (induction n rule: bit_len.induct)
  case (1 n)
  show ?case
  proof (cases "n = 0")
    case False
    with 1 have "n div 2 < 2 ^ bit_len (n div 2)" by simp
    then have "n < 2 * 2 ^ bit_len (n div 2)" by linarith
    with False show ?thesis by (simp add: bit_len.simps [of n])
  qed simp
qed

lemma bit_len_lower: "0 < n \<Longrightarrow> 2 ^ (bit_len n - 1) \<le> n"
proof (induction n rule: bit_len.induct)
  case (1 n)
  show ?case
  proof (cases "n div 2 = 0")
    case True
    with "1.prems" have "n = 1" by presburger
    then show ?thesis by (simp add: bit_len.simps)
  next
    case False
    with 1 have ih: "2 ^ (bit_len (n div 2) - 1) \<le> n div 2" by simp
    from False have "0 < bit_len (n div 2)" by (simp add: bit_len.simps)
    then have "2 ^ bit_len (n div 2) = 2 * (2::nat) ^ (bit_len (n div 2) - 1)"
      by (cases "bit_len (n div 2)") auto
    also have "\<dots> \<le> n" using ih by linarith
    finally show ?thesis using "1.prems" by (simp add: bit_len.simps [of n])
  qed
qed

lemma bit_len_le: "n < 2 ^ k \<Longrightarrow> bit_len n \<le> k"
proof (rule ccontr)
  assume n: "n < 2 ^ k" and "\<not> bit_len n \<le> k"
  then have "k \<le> bit_len n - 1" and "0 < n" by (simp, cases "n = 0") auto
  then have "(2::nat) ^ k \<le> n"
    by (meson bit_len_lower le_trans one_le_numeral power_increasing)
  with n show False by simp
qed

lemma frac_div_mono:
  fixes n n' d d' :: nat
  assumes le: "n * d' \<le> n' * d" and "0 < d" and "0 < d'"
  shows "n div d \<le> n' div d'"
proof -
  have "n div d = (n * d') div (d * d')" using assms(3) by simp
  also have "\<dots> \<le> (n' * d) div (d * d')" using le by (rule div_le_mono)
  also have "\<dots> = n' div d'" using assms(2) by (simp add: mult.commute)
  finally show ?thesis .
qed

lemma round_half_even_bounds:
  "n div d \<le> round_half_even n d" "round_half_even n d \<le> Suc (n div d)"
  by (auto simp: round_half_even_def Let_def)

lemma round_half_even_mono:
  assumes le: "n * d' \<le> n' * d" and d: "0 < d" "0 < d'"
  shows "round_half_even n d \<le> round_half_even n' d'"
proof (cases "n div d = n' div d'")
  case False
  with frac_div_mono [OF le d] have "Suc (n div d) \<le> n' div d'" by simp
  then show ?thesis
    using round_half_even_bounds(2) [of n d] round_half_even_bounds(1) [of n' d'] by linarith
next
  case True
  define m r r' where "m = n div d" and "r = n mod d" and "r' = n' mod d'"
  let ?r = r and ?r' = r'
  have "n = m * d + r" and "n' = m * d' + r'"
    unfolding m_def r_def r'_def by (simp, simp only: True div_mult_mod_eq)
  then have "(m * d + r) * d' \<le> (m * d' + r') * d" using le by simp
  then have rr: "?r * d' \<le> ?r' * d" by (simp add: algebra_simps)
  have strict: "2 * ?r > d \<Longrightarrow> 2 * ?r' > d'"
  proof (rule ccontr)
    assume up: "2 * ?r > d" and "\<not> 2 * ?r' > d'"
    then have "2 * ?r' * d \<le> d' * d" by (intro mult_le_mono1) simp
    moreover have "d' * d < d' * (2 * ?r)" using up d(2) by (rule mult_strict_left_mono)
    moreover have "d' * (2 * ?r) = 2 * (?r * d')" by simp
    ultimately show False using rr by linarith
  qed
  have weak: "2 * ?r = d \<Longrightarrow> 2 * ?r' \<ge> d'"
  proof (rule ccontr)
    assume half: "2 * ?r = d" and "\<not> 2 * ?r' \<ge> d'"
    then have "2 * ?r' * d < d' * d" using d(1) by (intro mult_strict_right_mono) simp_all
    moreover have "d' * d = 2 * (?r * d')" using half by simp
    ultimately show False using rr by linarith
  qed
  show ?thesis
    using strict weak True unfolding round_half_even_def Let_def r_def [symmetric] r'_def [symmetric]
    by auto
qed

lemma round_half_even_exact:
  "0 < d \<Longrightarrow> round_half_even (m * d) d = m"
  by (simp add: round_half_even_def)

text \<open>The significand of a rounded value stays within its 53 bits, up to the carry.\<close>

lemma round_significand_upper:
  assumes "0 < d"
  shows "round_half_even n (d * 2 ^ (bit_len (n div d) - 53)) \<le> 2 ^ 53"
proof -
  let ?e = "bit_len (n div d) - 53"
  have "n div d < 2 ^ bit_len (n div d)" by (rule bit_len_upper)
  also have "\<dots> \<le> 2 ^ (53 + ?e)"
    by (rule power_increasing) linarith+
  also have "\<dots> = 2 ^ 53 * 2 ^ ?e" by (rule power_add)
  finally have "n div d div 2 ^ ?e < 2 ^ 53" by (rule less_mult_imp_div_less)
  then have "n div (d * 2 ^ ?e) < 2 ^ 53" by (simp add: div_mult2_eq)
  then show ?thesis
    using round_half_even_bounds(2) [of n "d * 2 ^ ?e"] by linarith
qed

lemma round_significand_lower:
  assumes "0 < bit_len (n div d) - 53"
  shows "2 ^ 52 \<le> round_half_even n (d * 2 ^ (bit_len (n div d) - 53))"
proof -
  let ?e = "bit_len (n div d) - 53"
  have "0 < n div d" using assms by (cases "n div d = 0") auto
  then have "2 ^ (bit_len (n div d) - 1) \<le> n div d" by (rule bit_len_lower)
  moreover have "bit_len (n div d) - 1 = 52 + ?e" using assms by simp
  ultimately have "2 ^ 52 * 2 ^ ?e \<le> n div d" by (simp only: power_add)
  then have "(2 ^ 52 * 2 ^ ?e) div 2 ^ ?e \<le> n div d div 2 ^ ?e" by (rule div_le_mono)
  then have "2 ^ 52 \<le> n div d div 2 ^ ?e" by simp
  then have "2 ^ 52 \<le> n div (d * 2 ^ ?e)" by (simp add: div_mult2_eq)
  then show ?thesis using round_half_even_bounds(1) by (rule le_trans)
qed

lemma round_mag_mono:
  assumes le: "n * d' \<le> n' * d" and d: "0 < d" "0 < d'"
  shows "round_mag n d \<le> round_mag n' d'"
proof -
  define e where "e = bit_len (n div d) - 53"
  define e' where "e' = bit_len (n' div d') - 53"
  let ?m = "round_half_even n (d * 2 ^ e)" and ?m' = "round_half_even n' (d' * 2 ^ e')"
  have "e \<le> e'"
    unfolding e_def e'_def by (intro diff_le_mono bit_len_mono frac_div_mono le d)
  then have "e * 2 ^ 52 + ?m \<le> e' * 2 ^ 52 + ?m'"
  proof (cases "e = e'")
    case True
    have "n * (d' * 2 ^ e) \<le> n' * (d * 2 ^ e)" using le by (simp add: mult.assoc [symmetric])
    with d True have "?m \<le> ?m'" by (intro round_half_even_mono) simp_all
    with True show ?thesis by simp
  next
    case False
    with \<open>e \<le> e'\<close> have lt: "Suc e \<le> e'" by simp
    have "?m \<le> 2 ^ 53" unfolding e_def by (rule round_significand_upper [OF d(1)])
    moreover have "2 ^ 52 \<le> ?m'"
      unfolding e'_def using lt by (intro round_significand_lower) (simp add: e'_def)
    moreover have "Suc e * 2 ^ 52 \<le> e' * 2 ^ 52" using lt by (rule mult_le_mono1)
    ultimately show ?thesis by simp
  qed
  then show ?thesis by (simp add: round_mag_def Let_def e_def e'_def)
qed

lemma round_mag_bound: "round_mag n d \<le> inf_mag"
  by (simp add: round_mag_def Let_def)

lemma round_mag_finite:
  assumes "0 < d" and "n div d < 2 ^ 2000"
  shows "round_mag n d < inf_mag"
proof -
  let ?e = "bit_len (n div d) - 53"
  have "bit_len (n div d) \<le> 2000" using assms(2) by (rule bit_len_le)
  then have "?e * 2 ^ 52 \<le> 1947 * 2 ^ 52" by simp
  moreover have "round_half_even n (d * 2 ^ ?e) \<le> 2 ^ 53"
    using assms(1) by (rule round_significand_upper)
  ultimately show ?thesis by (simp add: round_mag_def Let_def inf_mag_def)
qed

section \<open>Values of representable results\<close>

lemma mag_value_0 [simp]: "mag_value 0 = 0"
  by (simp add: mag_value_def)

lemma mag_value_mono:
  assumes "b \<le> b'"
  shows "mag_value b \<le> mag_value b'"
proof -
  let ?k = "2 ^ 52 :: nat"
  let ?e = "b div ?k" and ?e' = "b' div ?k"
  have e: "?e \<le> ?e'" using assms by (rule div_le_mono)
  show ?thesis
  proof (cases "?e = ?e'")
    case True
    have "b mod ?k \<le> b' mod ?k"
      using assms True by (metis add_le_cancel_left mult_div_mod_eq)
    with True show ?thesis by (auto simp: mag_value_def Let_def)
  next
    case False
    with e have lt: "?e < ?e'" by simp
    have f: "b mod ?k < ?k" by simp
    have "mag_value b \<le> ?k * 2 ^ ?e"
      using f by (cases ?e) (auto simp: mag_value_def Let_def)
    also have "\<dots> \<le> ?k * 2 ^ (?e' - 1)" using lt by simp
    also have "\<dots> \<le> mag_value b'" using lt by (simp add: mag_value_def Let_def)
    finally show ?thesis .
  qed
qed

lemma split_off:
  fixes f k :: nat
  assumes "f < k"
  shows "(f + c * k) div k = c" "(f + c * k) mod k = f"
  using assms by simp_all

text \<open>A value with at most 53 significant bits is not rounded.\<close>

text \<open>Exponent and significand read back from the bit pattern, subnormal or not.\<close>

lemma mag_value_bits:
  assumes s: "s < 2 ^ 53" and e: "e = 0 \<or> 2 ^ 52 \<le> s"
  shows "mag_value (e * 2 ^ 52 + s) = s * 2 ^ e"
proof (cases "2 ^ 52 \<le> s")
  case False
  with e show ?thesis by (simp add: mag_value_def Let_def)
next
  case True
  define f where "f = s - 2 ^ 52"
  have f: "s = 2 ^ 52 + f" "f < 2 ^ 52" using s True by (simp_all add: f_def)
  then have "e * 2 ^ 52 + s = f + Suc e * 2 ^ 52" by simp
  then have "(e * 2 ^ 52 + s) div 2 ^ 52 = Suc e" "(e * 2 ^ 52 + s) mod 2 ^ 52 = f"
    using split_off [OF f(2), of "Suc e"] by (simp_all only:)
  then show ?thesis by (simp add: mag_value_def Let_def f(1))
qed

lemma round_mag_exact:
  assumes m: "m < 2 ^ 53" and n: "n = m * 2 ^ k" and k: "k \<le> 1900"
  shows "mag_value (round_mag n 1) = n"
proof -
  define e where "e = bit_len n - 53"
  have "n < 2 ^ (53 + k)" using m n by (simp add: power_add)
  then have "bit_len n \<le> 53 + k" by (rule bit_len_le)
  then have "e \<le> k" by (simp add: e_def)
  define s where "s = m * 2 ^ (k - e)"
  have ns: "n = s * 2 ^ e"
    using \<open>e \<le> k\<close> by (simp add: s_def n power_add [symmetric] mult.assoc)
  have sig: "round_half_even n (2 ^ e) = s" using ns by (simp add: round_half_even_exact)
  have "(2::nat) ^ (53 + k) \<le> 2 ^ 2000" by (rule power_increasing) (use k in simp_all)
  with \<open>n < 2 ^ (53 + k)\<close> have "n div 1 < 2 ^ 2000" unfolding div_by_1 by (rule less_le_trans)
  then have "round_mag n 1 < inf_mag" by (rule round_mag_finite [OF zero_less_one])
  then have bits: "round_mag n 1 = e * 2 ^ 52 + s"
    using sig by (auto simp: round_mag_def Let_def e_def min_def split: if_splits)
  have "bit_len n \<le> 53 + e" by (simp add: e_def)
  then have "(2::nat) ^ bit_len n \<le> 2 ^ (53 + e)" by (rule power_increasing) simp
  with bit_len_upper [of n] have "n < 2 ^ (53 + e)" by (rule less_le_trans)
  with ns have "s * 2 ^ e < 2 ^ 53 * 2 ^ e" by (simp only: power_add)
  then have "s < 2 ^ 53" by simp
  moreover have "e = 0 \<or> 2 ^ 52 \<le> s"
    using round_significand_lower [of n 1] sig by (cases "e = 0") (simp_all add: e_def)
  ultimately have "mag_value (e * 2 ^ 52 + s) = n" unfolding ns by (rule mag_value_bits)
  then show ?thesis by (simp only: bits)
qed

section \<open>Non-negative results\<close>

text \<open>Patterns with a clear sign bit below infinity: the results the clock produces.\<close>

lemma mk_f64_pos:
  assumes "m \<le> inf_mag"
  shows "f64_mag (mk_f64 False m) = m" "\<not> f64_neg_sign (mk_f64 False m)"
    "f64_value (mk_f64 False m) = int (mag_value m)"
    "f64_finite (mk_f64 False m) \<longleftrightarrow> m < inf_mag"
proof -
  have m: "m < 2 ^ 63" using assms by (simp add: inf_mag_def)
  then have "unat (of_nat m :: u64) = m" by (simp add: unat_of_nat_small)
  then show "f64_mag (mk_f64 False m) = m" "\<not> f64_neg_sign (mk_f64 False m)"
    using m by (simp_all add: mk_f64_def f64_mag_def f64_neg_sign_def)
  then show "f64_value (mk_f64 False m) = int (mag_value m)"
    "f64_finite (mk_f64 False m) \<longleftrightarrow> m < inf_mag"
    by (simp_all add: f64_value_def f64_finite_def)
qed

lemmas mk_f64_round = mk_f64_pos [OF round_mag_bound]

lemma mk_f64_neg:
  assumes "m \<le> inf_mag"
  shows "f64_mag (mk_f64 True m) = m" "f64_neg_sign (mk_f64 True m)"
    "f64_value (mk_f64 True m) = - int (mag_value m)"
    "f64_finite (mk_f64 True m) \<longleftrightarrow> m < inf_mag"
proof -
  have m: "m < 2 ^ 63" using assms by (simp add: inf_mag_def)
  then have "unat (of_nat (2 ^ 63 + m) :: u64) = 2 ^ 63 + m" by (intro unat_of_nat_small) simp
  then show "f64_mag (mk_f64 True m) = m" "f64_neg_sign (mk_f64 True m)"
    using m by (simp_all add: mk_f64_def f64_mag_def f64_neg_sign_def)
  then show "f64_value (mk_f64 True m) = - int (mag_value m)"
    "f64_finite (mk_f64 True m) \<longleftrightarrow> m < inf_mag"
    by (simp_all add: f64_value_def f64_finite_def)
qed

lemma f64_value_zero [simp]: "f64_value (mk_f64 b 0) = 0"
  by (cases b) (simp_all add: mk_f64_pos mk_f64_neg)

lemma finite_not_nan: "f64_finite x \<Longrightarrow> \<not> f64_nan x"
  by (simp add: f64_finite_def f64_nan_def)

lemma f64_add_finite:
  assumes "f64_finite x" and "f64_finite y"
  shows "f64_add x y = (let v = f64_value x + f64_value y
            in if v = 0 then mk_f64 (f64_neg_sign x \<and> f64_neg_sign y) 0
               else mk_f64 (v < 0) (round_mag (nat \<bar>v\<bar>) 1))"
  using assms by (simp add: f64_add_def finite_not_nan)

lemma f64_negate_finite:
  assumes "f64_finite x"
  shows "f64_finite (f64_negate x)" "f64_value (f64_negate x) = - f64_value x"
proof -
  have "f64_mag x \<le> inf_mag" using assms by (simp add: f64_finite_def)
  then show "f64_finite (f64_negate x)" "f64_value (f64_negate x) = - f64_value x"
    using assms
    by (cases "f64_neg_sign x"; simp add: f64_negate_def mk_f64_pos mk_f64_neg f64_finite_def f64_value_def)+
qed

text \<open>Subtraction has the sign of the exact difference.\<close>

lemma f64_sub_nonneg:
  assumes "f64_finite x" and "f64_finite y" and "f64_value y \<le> f64_value x"
  shows "0 \<le> f64_value (f64_sub x y)"
  using assms
  by (simp add: f64_sub_def f64_add_finite f64_negate_finite Let_def mk_f64_round mk_f64_pos mk_f64_neg)

lemma f64_sub_nonpos:
  assumes "f64_finite x" and "f64_finite y" and "f64_value x \<le> f64_value y"
  shows "f64_value (f64_sub x y) \<le> 0"
  using assms
  by (auto simp add: f64_sub_def f64_add_finite f64_negate_finite Let_def round_mag_bound
      mk_f64_pos mk_f64_neg)

lemma f64_sub_exact:
  assumes "f64_finite x" and "f64_finite y" and "f64_value y \<le> f64_value x"
    and "nat (f64_value x - f64_value y) = m * 2 ^ k" and "m < 2 ^ 53" and "k \<le> 1900"
  shows "f64_value (f64_sub x y) = f64_value x - f64_value y"
proof (cases "f64_value x = f64_value y")
  case True
  with assms(1,2) show ?thesis
    by (simp add: f64_sub_def f64_add_finite f64_negate_finite)
next
  case False
  from round_mag_exact [OF assms(5,4,6)] assms(3)
  have "int (mag_value (round_mag (nat (f64_value x - f64_value y)) 1)) = f64_value x - f64_value y"
    by simp
  with False assms(1-3) show ?thesis
    by (simp add: f64_sub_def f64_add_finite f64_negate_finite Let_def mk_f64_round)
qed

section \<open>The clock reading\<close>

lemma unit_scale_pos: "0 < unit_scale"
  by (simp add: unit_scale_def)

lemma uint_mag:
  assumes "n < 2 ^ 53"
  shows "mag_value (round_mag (n * unit_scale) 1) = n * unit_scale"
  using assms unfolding unit_scale_def by (rule round_mag_exact [OF _ refl]) simp

lemma small_finite:
  assumes "v \<le> 2 ^ 53 * unit_scale"
  shows "round_mag v 1 < inf_mag"
proof -
  have "2 ^ 53 * unit_scale = (2::nat) ^ 1127" by (simp only: unit_scale_def power_add [symmetric]) simp
  also have "(2::nat) ^ 1127 < 2 ^ 2000" by (rule power_strict_increasing) simp_all
  finally have "v div 1 < 2 ^ 2000" using assms by (simp only: div_by_1)
  then show ?thesis by (rule round_mag_finite [OF zero_less_one])
qed

lemma f64_of_uint:
  assumes "n < 2 ^ 53"
  shows "f64_finite (f64_of_uint n)" "f64_value (f64_of_uint n) = int (n * unit_scale)"
    "\<not> f64_neg_sign (f64_of_uint n)" "mag_value (f64_mag (f64_of_uint n)) = n * unit_scale"
proof -
  have "n * unit_scale \<le> 2 ^ 53 * unit_scale" using assms by (intro mult_le_mono1) simp
  then show "f64_finite (f64_of_uint n)" "f64_value (f64_of_uint n) = int (n * unit_scale)"
    "\<not> f64_neg_sign (f64_of_uint n)" "mag_value (f64_mag (f64_of_uint n)) = n * unit_scale"
    using uint_mag [OF assms] small_finite by (simp_all add: f64_of_uint_def mk_f64_round)
qed

text \<open>The fraction of a second, as \<open>as_secs_f64\<close> computes it, in bits.\<close>

definition nanos_mag :: "nat \<Rightarrow> nat" where
  "nanos_mag r = round_mag (r * unit_scale * unit_scale) (nanos_per_sec * unit_scale)"

lemma nanos_mag_mono: "r \<le> r' \<Longrightarrow> nanos_mag r \<le> nanos_mag r'"
  unfolding nanos_mag_def using unit_scale_pos
  by (intro round_mag_mono mult_le_mono) (simp_all add: nanos_per_sec_def)

lemma nanos_mag_one: "nanos_mag nanos_per_sec = round_mag unit_scale 1"
  unfolding nanos_mag_def using unit_scale_pos
  by (intro antisym round_mag_mono) (simp_all add: nanos_per_sec_def)

lemma nanos_mag_le:
  assumes "r < nanos_per_sec"
  shows "mag_value (nanos_mag r) \<le> unit_scale" "nanos_mag r < inf_mag"
proof -
  have one: "mag_value (round_mag unit_scale 1) = unit_scale" "round_mag unit_scale 1 < inf_mag"
    using uint_mag [of 1] small_finite [of unit_scale] by simp_all
  have le: "nanos_mag r \<le> round_mag unit_scale 1"
    using assms nanos_mag_mono [of r nanos_per_sec] by (simp add: nanos_mag_one)
  then show "mag_value (nanos_mag r) \<le> unit_scale" "nanos_mag r < inf_mag"
    using mag_value_mono [OF le] one by simp_all
qed

text \<open>The exact sum that \<open>as_secs_f64\<close> rounds last.\<close>

definition secs_exact :: "duration \<Rightarrow> nat" where
  "secs_exact d = (d div nanos_per_sec) * unit_scale + mag_value (nanos_mag (d mod nanos_per_sec))"

lemma secs_exact_mono:
  assumes "d \<le> d'"
  shows "secs_exact d \<le> secs_exact d'"
proof (cases "d div nanos_per_sec = d' div nanos_per_sec")
  case True
  then have "d mod nanos_per_sec \<le> d' mod nanos_per_sec"
    using assms by (metis add_le_cancel_left mult_div_mod_eq)
  with True show ?thesis by (simp add: secs_exact_def mag_value_mono nanos_mag_mono)
next
  case False
  with assms have "Suc (d div nanos_per_sec) \<le> d' div nanos_per_sec"
    using div_le_mono [OF assms, of nanos_per_sec] by simp
  then have "Suc (d div nanos_per_sec) * unit_scale \<le> (d' div nanos_per_sec) * unit_scale"
    by (rule mult_le_mono1)
  moreover have "mag_value (nanos_mag (d mod nanos_per_sec)) \<le> unit_scale"
    by (rule nanos_mag_le) (simp add: nanos_per_sec_def)
  ultimately show ?thesis by (simp add: secs_exact_def)
qed

lemma secs_exact_bound:
  assumes "d < 2 ^ 53 * nanos_per_sec"
  shows "secs_exact d \<le> 2 ^ 53 * unit_scale"
proof -
  have "d div nanos_per_sec < 2 ^ 53" using assms by (rule less_mult_imp_div_less)
  then have "Suc (d div nanos_per_sec) * unit_scale \<le> 2 ^ 53 * unit_scale"
    by (intro mult_le_mono1) (simp only: Suc_le_eq)
  then have "unit_scale + d div nanos_per_sec * unit_scale \<le> 2 ^ 53 * unit_scale"
    by (simp only: mult_Suc)
  moreover have "mag_value (nanos_mag (d mod nanos_per_sec)) \<le> unit_scale"
    by (rule nanos_mag_le) (simp add: nanos_per_sec_def)
  ultimately show ?thesis unfolding secs_exact_def by linarith
qed

lemma as_secs_f64_eq:
  assumes "d < 2 ^ 53 * nanos_per_sec"
  shows "as_secs_f64 d = mk_f64 False (round_mag (secs_exact d) 1)"
proof -
  let ?s = "f64_of_uint (d div nanos_per_sec)"
  let ?f = "f64_div_finite (f64_of_uint (d mod nanos_per_sec)) (f64_of_uint nanos_per_sec)"
  have s: "d div nanos_per_sec < 2 ^ 53" using assms by (rule less_mult_imp_div_less)
  have r: "d mod nanos_per_sec < nanos_per_sec" by (simp add: nanos_per_sec_def)
  moreover have "nanos_per_sec < 2 ^ 53" by (simp add: nanos_per_sec_def)
  ultimately have f: "?f = mk_f64 False (nanos_mag (d mod nanos_per_sec))"
    by (simp add: f64_div_finite_def f64_of_uint nanos_mag_def mult.assoc)
  have fin: "f64_finite ?f" "f64_value ?f = int (mag_value (nanos_mag (d mod nanos_per_sec)))"
    "\<not> f64_neg_sign ?f"
    using nanos_mag_le(2) [OF r] by (simp_all add: f mk_f64_pos less_imp_le)
  have "f64_value ?s + f64_value ?f = int (secs_exact d)"
    using f64_of_uint [OF s] fin by (simp add: secs_exact_def)
  then show ?thesis
    using f64_of_uint [OF s] fin
    by (simp add: as_secs_f64_def f64_add_finite Let_def round_mag_def round_half_even_def)
qed

lemmas now_f64_unfold = now_f64_def duration_since_epoch_def

lemma now_f64_facts:
  assumes "t < 2 ^ 53 * int nanos_per_sec"
  shows "f64_finite (now_f64 t)" "\<not> f64_neg_sign (now_f64 t)"
    "f64_value (now_f64 t) = int (mag_value (round_mag (secs_exact (nat t)) 1))"
proof -
  have d: "nat t < 2 ^ 53 * nanos_per_sec" using assms by (simp add: nanos_per_sec_def)
  have "now_f64 t = mk_f64 False (round_mag (secs_exact (nat t)) 1)"
    using as_secs_f64_eq [OF d] as_secs_f64_eq [of 0]
    by (auto simp: now_f64_unfold nanos_per_sec_def)
  then show "f64_finite (now_f64 t)" "\<not> f64_neg_sign (now_f64 t)"
    "f64_value (now_f64 t) = int (mag_value (round_mag (secs_exact (nat t)) 1))"
    using small_finite [OF secs_exact_bound [OF d]] by (simp_all add: mk_f64_round)
qed

lemma now_f64_value_mono:
  assumes "t \<le> t'" and "t' < 2 ^ 53 * int nanos_per_sec"
  shows "f64_value (now_f64 t) \<le> f64_value (now_f64 t')"
proof -
  have "round_mag (secs_exact (nat t)) 1 \<le> round_mag (secs_exact (nat t')) 1"
    using assms(1) by (intro round_mag_mono) (simp_all add: secs_exact_mono)
  with assms show ?thesis by (simp add: now_f64_facts mag_value_mono)
qed

lemma now_f64_before_epoch:
  assumes "t \<le> 0"
  shows "now_f64 t = from_bits 0"
proof -
  have "secs_exact 0 = 0" by (simp add: secs_exact_def nanos_mag_def round_mag_def round_half_even_def)
  then have "as_secs_f64 0 = from_bits 0"
    using as_secs_f64_eq [of 0]
    by (simp add: nanos_per_sec_def round_mag_def round_half_even_def mk_f64_def)
  with assms show ?thesis by (auto simp: now_f64_unfold)
qed

text \<open>Both readings stay within \<open>2 ^ 53\<close> seconds, and so does their difference, rounded.\<close>

lemma now_f64_bound:
  assumes "t < 2 ^ 53 * int nanos_per_sec"
  shows "0 \<le> f64_value (now_f64 t)" "f64_value (now_f64 t) \<le> int (2 ^ 53 * unit_scale)"
proof -
  have d: "nat t < 2 ^ 53 * nanos_per_sec" using assms by (simp add: nanos_per_sec_def)
  have "2 ^ 53 * unit_scale = 1 * (2::nat) ^ 1127" by (simp only: unit_scale_def power_add [symmetric]) simp
  then have "mag_value (round_mag (2 ^ 53 * unit_scale) 1) = 2 ^ 53 * unit_scale"
    by (rule round_mag_exact [rotated]) simp_all
  moreover have "round_mag (secs_exact (nat t)) 1 \<le> round_mag (2 ^ 53 * unit_scale) 1"
    using secs_exact_bound [OF d] by (intro round_mag_mono) simp_all
  ultimately show "0 \<le> f64_value (now_f64 t)" "f64_value (now_f64 t) \<le> int (2 ^ 53 * unit_scale)"
    using now_f64_facts(3) [OF assms] mag_value_mono by fastforce+
qed

lemma mk_f64_finite: "m < inf_mag \<Longrightarrow> f64_finite (mk_f64 b m)"
  by (cases b) (simp_all add: mk_f64_pos mk_f64_neg)

lemma f64_sub_finite:
  assumes "f64_finite x" and "f64_finite y" and "\<bar>f64_value x - f64_value y\<bar> \<le> int (2 ^ 53 * unit_scale)"
  shows "f64_finite (f64_sub x y)"
proof -
  have "round_mag (nat \<bar>f64_value x - f64_value y\<bar>) 1 < inf_mag" using assms(3) by (intro small_finite) simp
  moreover have "0 < inf_mag" by (simp add: inf_mag_def)
  ultimately show ?thesis using assms(1,2)
    by (simp add: f64_sub_def f64_add_finite f64_negate_finite Let_def mk_f64_finite)
qed

text \<open>
  C28. As long as the wall clock does not go back, what the program computes with it behaves
  like time: \<open>now_f64\<close> never decreases, the duration between two readings is a finite number
  that is not negative, and before the Unix epoch the reading is 0.0. The bound, \<open>2 ^ 53\<close>
  seconds, is where an \<open>f64\<close> stops holding every whole second.
\<close>

theorem clock_monotone:
  assumes "t \<le> t'" and "t' < 2 ^ 53 * int nanos_per_sec"
  shows "f64_finite (now_f64 t) \<and> f64_finite (now_f64 t')
    \<and> f64_value (now_f64 t) \<le> f64_value (now_f64 t')
    \<and> f64_finite (f64_sub (now_f64 t') (now_f64 t)) \<and> f64_finite (f64_sub (now_f64 t) (now_f64 t'))
    \<and> 0 \<le> f64_value (f64_sub (now_f64 t') (now_f64 t))
    \<and> f64_value (f64_sub (now_f64 t) (now_f64 t')) \<le> 0
    \<and> (t' \<le> 0 \<longrightarrow> now_f64 t' = from_bits 0)"
proof -
  from assms have fin: "f64_finite (now_f64 t)" "f64_finite (now_f64 t')"
    by (auto intro!: now_f64_facts(1))
  moreover have "\<bar>f64_value (now_f64 t') - f64_value (now_f64 t)\<bar> \<le> int (2 ^ 53 * unit_scale)"
    "\<bar>f64_value (now_f64 t) - f64_value (now_f64 t')\<bar> \<le> int (2 ^ 53 * unit_scale)"
    using now_f64_bound [of t] now_f64_bound [of t'] assms by linarith+
  ultimately show ?thesis using now_f64_value_mono [OF assms] fin
    by (auto simp del: of_nat_mult of_nat_power simp: f64_sub_finite intro: f64_sub_nonneg f64_sub_nonpos now_f64_before_epoch)
qed

theorem clock_monotone_witness:
  "f64_finite (f64_sub (now_f64 1700000000000000001) (now_f64 1700000000000000000))
   \<and> 0 \<le> f64_value (f64_sub (now_f64 1700000000000000001) (now_f64 1700000000000000000))"
  using clock_monotone [of 1700000000000000000 1700000000000000001] by (simp add: nanos_per_sec_def)

end
