(* ===== verification/Metrics.thy ===== *)
theory Metrics
  imports Utf8 Float64
begin

text \<open>
  \<open>src/metrics.rs\<close>: the metric families, their labels, the registry and the cap on inbound
  peer names. The families belong to the prometheus-client crate, so the model does not say
  how they store anything: its state is the sequence of calls the program has made on them
  (\<open>calls\<close>, oldest first). \<open>gauge_value\<close>, \<open>float_value\<close>, \<open>counter_value\<close> and
  \<open>disconnect_count\<close> read off what the crate documents such calls to amount to: a gauge holds
  the last value set, a counter the number of increments, and a label that was only created
  stands at zero. The locale \<open>call_reading\<close> holds what the four readings share.
\<close>

section \<open>Labels and families\<close>

record peer_label =
  pl_node :: rstr
  pl_peer :: rstr

record disconnect_label =
  dl_node :: rstr
  dl_peer :: rstr
  dl_reason :: string

datatype gauge_family =
    server_session_active
  | client_session_active
  | client_consecutive_missed

datatype float_family =
    server_session_start
  | server_session_duration
  | server_last_heartbeat
  | client_session_start
  | client_session_duration
  | client_rtt
  | client_last_heartbeat

datatype counter_family =
    server_sessions_total
  | server_heartbeats_rx
  | client_sessions_total
  | client_heartbeats_sent
  | client_heartbeats_rx
  | client_heartbeats_missed

datatype disconnect_family =
    server_disconnects
  | client_disconnects

text \<open>
  One constructor per way the sources use a family: \<open>get_or_create(label).set(v)\<close>,
  \<open>get_or_create(label).inc()\<close>, and \<open>drop(get_or_create(label))\<close>.
\<close>

datatype metric_call =
    GaugeSet gauge_family peer_label i64
  | FloatSet float_family peer_label f64
  | CounterInc counter_family peer_label
  | DisconnectTouch disconnect_family disconnect_label
  | DisconnectInc disconnect_family disconnect_label

definition SERVER_DISCONNECT_REASONS :: "string list" where
  "SERVER_DISCONNECT_REASONS =
     [''remote_close'', ''connection_reset'', ''timeout'', ''local_error'']"

definition CLIENT_DISCONNECT_REASONS :: "string list" where
  "CLIENT_DISCONNECT_REASONS =
     [''remote_close'', ''connection_reset'', ''timeout'', ''local_error'', ''connect_failed'']"

definition MAX_UNIQUE_SERVER_PEERS :: nat where
  "MAX_UNIQUE_SERVER_PEERS = 512"

record metrics =
  calls :: "metric_call list"
  registry :: "(string \<times> string) list"
  server_peers :: "rstr set"

definition metrics_new :: metrics where
  "metrics_new =
     \<lparr>calls = [],
      registry =
       [(''tcp_monitor_server_session_active'',
         ''1 if a server session is currently active with this peer''),
        (''tcp_monitor_server_session_start_timestamp_seconds'',
         ''Unix timestamp when the current/last server session was established''),
        (''tcp_monitor_server_session_duration_seconds'',
         ''Duration of the active or last completed server session''),
        (''tcp_monitor_server_sessions'',
         ''Total inbound sessions accepted since startup''),
        (''tcp_monitor_server_heartbeats_received'',
         ''Total heartbeat packets received from a peer''),
        (''tcp_monitor_server_last_heartbeat_timestamp_seconds'',
         ''Unix timestamp of the most recently received heartbeat''),
        (''tcp_monitor_server_session_disconnects'',
         ''Server session disconnects by peer and reason''),
        (''tcp_monitor_client_session_active'',
         ''1 if a client session is currently active to this peer''),
        (''tcp_monitor_client_session_start_timestamp_seconds'',
         ''Unix timestamp when the current/last client session was established''),
        (''tcp_monitor_client_session_duration_seconds'',
         ''Duration of the active or last completed client session''),
        (''tcp_monitor_client_sessions'',
         ''Total outbound sessions established since startup''),
        (''tcp_monitor_client_heartbeats_sent'',
         ''Total heartbeat packets sent to a peer''),
        (''tcp_monitor_client_heartbeats_received'',
         ''Total heartbeat echoes received from a peer''),
        (''tcp_monitor_client_heartbeats_missed'',
         ''Total heartbeat echoes not received within the timeout window''),
        (''tcp_monitor_client_heartbeats_consecutive_missed'',
         ''Current run of consecutive unanswered heartbeats''),
        (''tcp_monitor_client_heartbeat_rtt_seconds'',
         ''Round-trip time of the most recent heartbeat echo''),
        (''tcp_monitor_client_last_heartbeat_timestamp_seconds'',
         ''Unix timestamp of the most recent successful heartbeat echo''),
        (''tcp_monitor_client_session_disconnects'',
         ''Client session disconnects by peer and reason'')],
      server_peers = {}\<rparr>"

lemma metrics_new_simps [simp]: "calls metrics_new = []" "server_peers metrics_new = {}"
  by (simp_all only: metrics_new_def metrics.select_convs)

definition emit :: "metric_call list \<Rightarrow> metrics \<Rightarrow> metrics" where
  "emit cs m = m\<lparr>calls := calls m @ cs\<rparr>"

lemma emit_simps [simp]:
  "calls (emit cs m) = calls m @ cs" "server_peers (emit cs m) = server_peers m"
  "registry (emit cs m) = registry m"
  by (simp_all add: emit_def)

lemma emit_emit: "emit ds (emit cs m) = emit (cs @ ds) m"
  by (simp add: emit_def)

section \<open>Pre-created disconnect labels\<close>

definition reason_label :: "rstr \<Rightarrow> rstr \<Rightarrow> string \<Rightarrow> disconnect_label" where
  "reason_label node peer reason = \<lparr>dl_node = node, dl_peer = peer, dl_reason = reason\<rparr>"

definition init_calls :: "rstr \<Rightarrow> rstr \<Rightarrow> metric_call list" where
  "init_calls node peer =
     map (\<lambda>reason. DisconnectTouch server_disconnects (reason_label node peer reason))
       SERVER_DISCONNECT_REASONS
     @ map (\<lambda>reason. DisconnectTouch client_disconnects (reason_label node peer reason))
       CLIENT_DISCONNECT_REASONS"

definition init_disconnect_labels :: "rstr \<Rightarrow> rstr \<Rightarrow> metrics \<Rightarrow> metrics" where
  "init_disconnect_labels node peer m = emit (init_calls node peer) m"

section \<open>The cap on inbound peer names\<close>

definition try_register :: "rstr \<Rightarrow> rstr set \<Rightarrow> bool \<times> rstr set" where
  "try_register peer seen =
     (if peer \<in> seen then (True, seen)
      else if MAX_UNIQUE_SERVER_PEERS \<le> card seen then (False, seen)
      else (True, insert peer seen))"

text \<open>What the server relies on: a registry of names that never grows past its capacity.\<close>

locale capped_registry =
  fixes reg :: "'n \<Rightarrow> 'n set \<Rightarrow> bool \<times> 'n set"
    and cap :: nat
  assumes known: "n \<in> s \<Longrightarrow> reg n s = (True, s)"
    and grows: "reg n s = (b, s') \<Longrightarrow> s' = s \<or> s' = insert n s"
    and answer: "finite s \<Longrightarrow> reg n s = (b, s') \<Longrightarrow> b \<longleftrightarrow> n \<in> s'"
    and capped: "finite s \<Longrightarrow> card s \<le> cap \<Longrightarrow> reg n s = (b, s') \<Longrightarrow> card s' \<le> cap"
    and room: "finite s \<Longrightarrow> card s < cap \<Longrightarrow> fst (reg n s)"
begin

lemma keeps: "reg n s = (b, s') \<Longrightarrow> s \<subseteq> s'"
  using grows by blast

lemma keeps_finite: "reg n s = (b, s') \<Longrightarrow> finite s \<Longrightarrow> finite s'"
  using grows by (metis finite_insert)

text \<open>A name once admitted is admitted for ever, whatever is registered in between.\<close>

lemma admitted_stays:
  assumes "finite s" and "fst (reg n s)" and "snd (reg n s) \<subseteq> t"
  shows "reg n t = (True, t)"
proof -
  obtain b s' where r: "reg n s = (b, s')" by (cases "reg n s")
  with assms answer [OF assms(1) r] have "n \<in> s'" "s' \<subseteq> t" by auto
  then show ?thesis by (intro known) auto
qed

lemma rejected_only_when_full:
  assumes "finite s" and "\<not> fst (reg n s)"
  shows "cap \<le> card s" "n \<notin> s"
  using assms room known by (force simp: not_less [symmetric])+

end

lemma try_register_cases:
  "try_register n s = (b, s') \<longleftrightarrow>
     (b \<and> n \<in> s \<and> s' = s) \<or> (\<not> b \<and> n \<notin> s \<and> MAX_UNIQUE_SERVER_PEERS \<le> card s \<and> s' = s)
     \<or> (b \<and> n \<notin> s \<and> card s < MAX_UNIQUE_SERVER_PEERS \<and> s' = insert n s)"
  by (auto simp: try_register_def)

interpretation peers: capped_registry try_register MAX_UNIQUE_SERVER_PEERS
proof
  fix n :: rstr and s s' b
  show "try_register n s = (True, s)" if "n \<in> s"
    using that by (simp add: try_register_def)
  show "s' = s \<or> s' = insert n s" if "try_register n s = (b, s')"
    using that by (auto simp: try_register_cases)
  show "b \<longleftrightarrow> n \<in> s'" if "finite s" and "try_register n s = (b, s')"
    using that(2) by (auto simp: try_register_cases)
  show "card s' \<le> MAX_UNIQUE_SERVER_PEERS"
    if "finite s" and "card s \<le> MAX_UNIQUE_SERVER_PEERS" and "try_register n s = (b, s')"
    using that by (auto simp: try_register_cases)
  show "fst (try_register n s)" if "finite s" and "card s < MAX_UNIQUE_SERVER_PEERS"
    using that by (simp add: try_register_def)
qed

section \<open>What the calls amount to\<close>

definition read_calls :: "(metric_call \<Rightarrow> 'v option \<Rightarrow> 'v option) \<Rightarrow> metric_call list \<Rightarrow> 'v option" where
  "read_calls eff cs = foldl (\<lambda>v c. eff c v) None cs"

locale call_reading =
  fixes touches :: "metric_call \<Rightarrow> bool"
    and eff :: "metric_call \<Rightarrow> 'v option \<Rightarrow> 'v option"
  assumes untouched: "\<not> touches c \<Longrightarrow> eff c v = v"
    and touched: "touches c \<Longrightarrow> eff c v \<noteq> None"
begin

lemma read_snoc: "read_calls eff (cs @ [c]) = eff c (read_calls eff cs)"
  by (simp add: read_calls_def)

lemma read_frame:
  "list_all (\<lambda>c. \<not> touches c) ds \<Longrightarrow> read_calls eff (cs @ ds) = read_calls eff cs"
  by (induction ds rule: rev_induct)
    (simp_all add: append_assoc [symmetric] read_snoc untouched del: append_assoc)

text \<open>A label exists exactly when some call created it.\<close>

lemma read_exists: "read_calls eff cs = None \<longleftrightarrow> list_all (\<lambda>c. \<not> touches c) cs"
proof (induction cs rule: rev_induct)
  case Nil
  then show ?case by (simp add: read_calls_def)
next
  case (snoc c cs)
  then show ?case
    by (cases "touches c") (simp_all add: read_snoc untouched touched)
qed

end

definition gauge_touches :: "gauge_family \<Rightarrow> peer_label \<Rightarrow> metric_call \<Rightarrow> bool" where
  "gauge_touches f l c = (case c of GaugeSet f' l' _ \<Rightarrow> f' = f \<and> l' = l | _ \<Rightarrow> False)"

definition gauge_eff :: "gauge_family \<Rightarrow> peer_label \<Rightarrow> metric_call \<Rightarrow> i64 option \<Rightarrow> i64 option" where
  "gauge_eff f l c v = (case c of GaugeSet f' l' x \<Rightarrow> if f' = f \<and> l' = l then Some x else v | _ \<Rightarrow> v)"

definition float_touches :: "float_family \<Rightarrow> peer_label \<Rightarrow> metric_call \<Rightarrow> bool" where
  "float_touches f l c = (case c of FloatSet f' l' _ \<Rightarrow> f' = f \<and> l' = l | _ \<Rightarrow> False)"

definition float_eff :: "float_family \<Rightarrow> peer_label \<Rightarrow> metric_call \<Rightarrow> f64 option \<Rightarrow> f64 option" where
  "float_eff f l c v = (case c of FloatSet f' l' x \<Rightarrow> if f' = f \<and> l' = l then Some x else v | _ \<Rightarrow> v)"

definition counter_touches :: "counter_family \<Rightarrow> peer_label \<Rightarrow> metric_call \<Rightarrow> bool" where
  "counter_touches f l c = (case c of CounterInc f' l' \<Rightarrow> f' = f \<and> l' = l | _ \<Rightarrow> False)"

definition counter_eff :: "counter_family \<Rightarrow> peer_label \<Rightarrow> metric_call \<Rightarrow> nat option \<Rightarrow> nat option" where
  "counter_eff f l c v =
     (if counter_touches f l c then Some (case v of None \<Rightarrow> 1 | Some n \<Rightarrow> Suc n) else v)"

definition disconnect_touches :: "disconnect_family \<Rightarrow> disconnect_label \<Rightarrow> metric_call \<Rightarrow> bool" where
  "disconnect_touches f l c =
     (case c of DisconnectTouch f' l' \<Rightarrow> f' = f \<and> l' = l
              | DisconnectInc f' l' \<Rightarrow> f' = f \<and> l' = l | _ \<Rightarrow> False)"

definition disconnect_eff ::
    "disconnect_family \<Rightarrow> disconnect_label \<Rightarrow> metric_call \<Rightarrow> nat option \<Rightarrow> nat option" where
  "disconnect_eff f l c v =
     (if disconnect_touches f l c
      then Some ((case v of None \<Rightarrow> 0 | Some n \<Rightarrow> n) + (case c of DisconnectInc _ _ \<Rightarrow> 1 | _ \<Rightarrow> 0))
      else v)"

definition gauge_value :: "metrics \<Rightarrow> gauge_family \<Rightarrow> peer_label \<Rightarrow> i64 option" where
  "gauge_value m f l = read_calls (gauge_eff f l) (calls m)"

definition float_value :: "metrics \<Rightarrow> float_family \<Rightarrow> peer_label \<Rightarrow> f64 option" where
  "float_value m f l = read_calls (float_eff f l) (calls m)"

definition counter_value :: "metrics \<Rightarrow> counter_family \<Rightarrow> peer_label \<Rightarrow> nat option" where
  "counter_value m f l = read_calls (counter_eff f l) (calls m)"

definition disconnect_count :: "metrics \<Rightarrow> disconnect_family \<Rightarrow> disconnect_label \<Rightarrow> nat option" where
  "disconnect_count m f l = read_calls (disconnect_eff f l) (calls m)"

interpretation gauge: call_reading "gauge_touches f l" "gauge_eff f l" for f l
  by unfold_locales (auto simp: gauge_touches_def gauge_eff_def split: metric_call.splits)

interpretation float: call_reading "float_touches f l" "float_eff f l" for f l
  by unfold_locales (auto simp: float_touches_def float_eff_def split: metric_call.splits)

interpretation counter: call_reading "counter_touches f l" "counter_eff f l" for f l
  by unfold_locales (auto simp: counter_eff_def)

interpretation disconnect: call_reading "disconnect_touches f l" "disconnect_eff f l" for f l
  by unfold_locales (auto simp: disconnect_eff_def)

lemmas touches_defs =
  gauge_touches_def float_touches_def counter_touches_def disconnect_touches_def

lemmas value_defs =
  gauge_value_def float_value_def counter_value_def disconnect_count_def

text \<open>Counters count their increments.\<close>

lemma disconnect_eff_alt:
  "disconnect_eff f l c v =
     (if disconnect_touches f l c
      then Some ((case v of None \<Rightarrow> 0 | Some n \<Rightarrow> n) + (if c = DisconnectInc f l then 1 else 0))
      else v)"
  by (cases c) (auto simp: disconnect_eff_def disconnect_touches_def)

lemma disconnect_count_eq:
  "disconnect_count m f l =
     (if list_all (\<lambda>c. \<not> disconnect_touches f l c) (calls m) then None
      else Some (count_list (calls m) (DisconnectInc f l)))"
proof -
  have inc: "disconnect_touches f l (DisconnectInc f l)" by (simp add: disconnect_touches_def)
  have "read_calls (disconnect_eff f l) cs =
     (if list_all (\<lambda>c. \<not> disconnect_touches f l c) cs then None
      else Some (count_list cs (DisconnectInc f l)))" for cs
  proof (induction cs rule: rev_induct)
    case Nil
    then show ?case by (simp add: read_calls_def)
  next
    case (snoc c cs)
    have "count_list cs (DisconnectInc f l) = 0" if "list_all (\<lambda>c. \<not> disconnect_touches f l c) cs"
      using that inc by (auto simp: count_list_0_iff list_all_iff)
    with snoc inc show ?case
      unfolding disconnect.read_snoc disconnect_eff_alt [of f l c]
      by (cases "disconnect_touches f l c") auto
  qed
  then show ?thesis by (simp add: disconnect_count_def)
qed

lemma counter_value_eq:
  "counter_value m f l =
     (if CounterInc f l \<in> set (calls m) then Some (count_list (calls m) (CounterInc f l)) else None)"
proof -
  have hit: "counter_touches f l c \<longleftrightarrow> c = CounterInc f l" for c
    by (cases c) (auto simp: counter_touches_def)
  have "read_calls (counter_eff f l) cs =
     (if CounterInc f l \<in> set cs then Some (count_list cs (CounterInc f l)) else None)" for cs
  proof (induction cs rule: rev_induct)
    case Nil
    then show ?case by (simp add: read_calls_def)
  next
    case (snoc c cs)
    then show ?case
      unfolding counter.read_snoc
      by (cases "CounterInc f l \<in> set cs"; cases "c = CounterInc f l")
        (simp_all add: hit counter_eff_def [of f l c] counter_eff_def [of f l "CounterInc f l"] count_list_0_iff)
  qed
  then show ?thesis by (simp add: counter_value_def)
qed

lemma gauge_touches_simps [simp]:
  "gauge_touches f l (GaugeSet f' l' x) \<longleftrightarrow> f' = f \<and> l' = l"
  "\<not> gauge_touches f l (FloatSet f1 l' y)" "\<not> gauge_touches f l (CounterInc f2 l')"
  "\<not> gauge_touches f l (DisconnectTouch f3 l3)" "\<not> gauge_touches f l (DisconnectInc f3 l3)"
  by (auto simp: gauge_touches_def)

text \<open>A gauge after further calls: untouched, or holding what was set last.\<close>

lemma gauge_emit_frame:
  "list_all (\<lambda>c. \<not> gauge_touches f l c) cs \<Longrightarrow> gauge_value (emit cs m) f l = gauge_value m f l"
  by (simp add: gauge_value_def gauge.read_frame)

lemma gauge_emit_set:
  assumes "list_all (\<lambda>c. \<not> gauge_touches f l c) ds"
  shows "gauge_value (emit (cs @ GaugeSet f l v # ds) m) f l = Some v"
proof -
  have "gauge_value (emit (cs @ GaugeSet f l v # ds) m) f l
      = read_calls (gauge_eff f l) ((calls m @ cs) @ [GaugeSet f l v])"
    unfolding gauge_value_def using gauge.read_frame [OF assms, of "(calls m @ cs) @ [GaugeSet f l v]"] by simp
  then show ?thesis by (simp only: gauge.read_snoc) (simp add: gauge_eff_def)
qed

lemma init_calls_frame: "list_all (\<lambda>c. \<not> gauge_touches f l c) (init_calls node peer)"
  by (auto simp: init_calls_def list_all_iff)

section \<open>Properties\<close>

text \<open>The registry after a sequence of names.\<close>

definition register_all :: "rstr list \<Rightarrow> rstr set" where
  "register_all ns = foldl (\<lambda>seen n. snd (try_register n seen)) {} ns"

lemma register_all_snoc: "register_all (ns @ [n]) = snd (try_register n (register_all ns))"
  by (simp add: register_all_def)

lemma register_all_bounds:
  "finite (register_all ns) \<and> register_all ns \<subseteq> set ns \<and> card (register_all ns) \<le> MAX_UNIQUE_SERVER_PEERS"
proof (induction ns rule: rev_induct)
  case Nil
  then show ?case by (simp add: register_all_def)
next
  case (snoc n ns)
  then show ?case by (auto simp: register_all_snoc try_register_def)
qed

lemma register_all_complete:
  "card (set ns) \<le> MAX_UNIQUE_SERVER_PEERS \<Longrightarrow> register_all ns = set ns"
proof (induction ns rule: rev_induct)
  case Nil
  then show ?case by (simp add: register_all_def)
next
  case (snoc n ns)
  have le: "card (set ns) \<le> card (set (ns @ [n]))" by (rule card_mono) auto
  with snoc have IH: "register_all ns = set ns" by simp
  show ?case
  proof (cases "n \<in> set ns")
    case True
    with IH show ?thesis by (auto simp: register_all_snoc try_register_def)
  next
    case False
    with snoc.prems have "card (set ns) < MAX_UNIQUE_SERVER_PEERS" by simp
    with IH False show ?thesis by (simp add: register_all_snoc try_register_def)
  qed
qed

text \<open>
  Whatever names are registered in whatever order, at most 512 are kept; a name that was
  kept is admitted again; as long as at most 512 different names appear, none is refused;
  and a name is refused only when the registry is full.
\<close>

theorem peer_cap:
  "card (register_all ns) \<le> MAX_UNIQUE_SERVER_PEERS
   \<and> (n \<in> register_all ns \<longrightarrow> try_register n (register_all ns) = (True, register_all ns))
   \<and> (card (set ns) \<le> MAX_UNIQUE_SERVER_PEERS \<longrightarrow> register_all ns = set ns)
   \<and> (\<not> fst (try_register n (register_all ns)) \<longrightarrow> card (register_all ns) = MAX_UNIQUE_SERVER_PEERS)"
proof -
  note b = register_all_bounds [of ns]
  then show ?thesis
    using peers.known [of n "register_all ns"] register_all_complete [of ns]
      peers.rejected_only_when_full(1) [of "register_all ns" n] by auto
qed

theorem peer_cap_witness:
  "try_register (lit ''a'') (register_all [lit ''a'', lit ''b'']) = (True, register_all [lit ''a'', lit ''b''])
   \<and> register_all [lit ''a'', lit ''b'', lit ''a''] = {lit ''a'', lit ''b''}"
proof -
  have "card (set [lit ''a'', lit ''b'', lit ''a'']) \<le> MAX_UNIQUE_SERVER_PEERS"
    "card (set [lit ''a'', lit ''b'']) \<le> MAX_UNIQUE_SERVER_PEERS"
    by (simp_all add: MAX_UNIQUE_SERVER_PEERS_def card_insert_if)
  with peer_cap [of "[lit ''a'', lit ''b'', lit ''a'']" "lit ''a''"] peer_cap [of "[lit ''a'', lit ''b'']" "lit ''a''"]
  show ?thesis by auto
qed

text \<open>
  C29. After \<open>init_disconnect_labels\<close> every documented disconnect reason of both sides is
  exposed for the peer: a label that was new stands at 0, and one that already existed keeps
  its count.
\<close>

lemma touched_reasons:
  "reason \<in> set SERVER_DISCONNECT_REASONS \<Longrightarrow>
     DisconnectTouch server_disconnects (reason_label node peer reason) \<in> set (init_calls node peer)"
  "reason \<in> set CLIENT_DISCONNECT_REASONS \<Longrightarrow>
     DisconnectTouch client_disconnects (reason_label node peer reason) \<in> set (init_calls node peer)"
  by (auto simp: init_calls_def)

lemma disconnect_count_after_touch:
  assumes "DisconnectTouch f l \<in> set (init_calls node peer)"
  shows "disconnect_count (init_disconnect_labels node peer m) f l =
    Some (case disconnect_count m f l of None \<Rightarrow> 0 | Some k \<Rightarrow> k)"
proof -
  have none: "count_list (init_calls node peer) (DisconnectInc f l) = 0"
    by (auto simp: init_calls_def count_list_0_iff)
  have "\<not> list_all (\<lambda>c. \<not> disconnect_touches f l c) (init_calls node peer)"
    using assms by (auto simp: list_all_iff disconnect_touches_def split: metric_call.splits)
  moreover have "count_list (calls m) (DisconnectInc f l) = 0"
    if "list_all (\<lambda>c. \<not> disconnect_touches f l c) (calls m)"
    using that by (auto simp: count_list_0_iff list_all_iff disconnect_touches_def)
  ultimately show ?thesis
    using none by (auto simp: disconnect_count_eq init_disconnect_labels_def)
qed

theorem reasons_precreated:
  "(reason \<in> set SERVER_DISCONNECT_REASONS \<longrightarrow>
      disconnect_count (init_disconnect_labels node peer m) server_disconnects (reason_label node peer reason)
        = Some (case disconnect_count m server_disconnects (reason_label node peer reason) of None \<Rightarrow> 0 | Some k \<Rightarrow> k))
   \<and> (reason \<in> set CLIENT_DISCONNECT_REASONS \<longrightarrow>
      disconnect_count (init_disconnect_labels node peer m) client_disconnects (reason_label node peer reason)
        = Some (case disconnect_count m client_disconnects (reason_label node peer reason) of None \<Rightarrow> 0 | Some k \<Rightarrow> k))"
  by (intro conjI impI disconnect_count_after_touch touched_reasons)

theorem reasons_precreated_witness:
  "disconnect_count (init_disconnect_labels (lit ''n1'') (lit ''n2'') metrics_new) client_disconnects
     (reason_label (lit ''n1'') (lit ''n2'') ''connect_failed'') = Some 0
   \<and> disconnect_count (init_disconnect_labels (lit ''n1'') (lit ''n2'') metrics_new) server_disconnects
     (reason_label (lit ''n1'') (lit ''n2'') ''timeout'') = Some 0"
  using reasons_precreated [of "''connect_failed''" "lit ''n1''" "lit ''n2''" metrics_new]
    reasons_precreated [of "''timeout''" "lit ''n1''" "lit ''n2''" metrics_new]
  by (simp add: SERVER_DISCONNECT_REASONS_def CLIENT_DISCONNECT_REASONS_def disconnect_count_eq [of metrics_new])

end
