(* ===== verification/Streams.thy ===== *)
theory Streams
  imports Prelude
begin

text \<open>
  The two halves of an asynchronous byte stream as the sources see them. What the peer and
  the kernel do is the environment: a list of arrivals on the reading side, a list of write
  outcomes on the writing side. \<open>stream_read\<close>, \<open>read_exact\<close> and \<open>write_all\<close> state the
  documented contract of the \<open>tokio::io\<close> calls the sources make on such a stream; a read
  returns at most as many bytes as the buffer has room for, 0 bytes mean end of file, and a
  read that finds nothing waits.
\<close>

section \<open>Reading\<close>

datatype rd = Arrive "u8 list" | Eof | RdErr io_kind

type_synonym inbox = "rd list"

fun stream_read :: "nat \<Rightarrow> inbox \<Rightarrow> u8 list io_result poll \<times> inbox" where
  "stream_read n [] = (Pending, [])"
| "stream_read n (Arrive bs # i) =
     (if bs = [] then stream_read n i
      else (Ready (Inr (take n bs)), if length bs \<le> n then i else Arrive (drop n bs) # i))"
| "stream_read n (Eof # i) = (Ready (Inr []), Eof # i)"
| "stream_read n (RdErr k # i) = (Ready (Inl k), i)"

text \<open>What is left to read, as a measure for the loops over a stream.\<close>

fun rd_size :: "rd \<Rightarrow> nat" where
  "rd_size (Arrive bs) = length bs"
| "rd_size _ = 0"

definition inbox_size :: "inbox \<Rightarrow> nat" where
  "inbox_size i = sum_list (map rd_size i)"

lemma inbox_size_simps [simp]:
  "inbox_size [] = 0" "inbox_size (e # i) = rd_size e + inbox_size i"
  "inbox_size (i @ j) = inbox_size i + inbox_size j"
  by (simp_all add: inbox_size_def)

lemma stream_read_progress:
  "stream_read n i = (Ready (Inr bs), i') \<Longrightarrow> bs \<noteq> [] \<Longrightarrow> inbox_size i' < inbox_size i"
  by (induction n i rule: stream_read.induct) (auto split: if_splits)

lemma stream_read_size: "stream_read n i = (res, i') \<Longrightarrow> inbox_size i' \<le> inbox_size i"
  by (induction n i rule: stream_read.induct) (auto split: if_splits)

text \<open>A stream that only delivers bytes, and the bytes any stream still holds.\<close>

fun only_arrivals :: "inbox \<Rightarrow> bool" where
  "only_arrivals [] = True"
| "only_arrivals (Arrive bs # i) = only_arrivals i"
| "only_arrivals (_ # i) = False"

fun inbox_bytes :: "inbox \<Rightarrow> u8 list" where
  "inbox_bytes [] = []"
| "inbox_bytes (Arrive bs # i) = bs @ inbox_bytes i"
| "inbox_bytes (_ # i) = inbox_bytes i"

lemma only_arrivals_append [simp]:
  "only_arrivals (i @ j) \<longleftrightarrow> only_arrivals i \<and> only_arrivals j"
  by (induction i rule: only_arrivals.induct) auto

lemma inbox_bytes_append [simp]: "inbox_bytes (i @ j) = inbox_bytes i @ inbox_bytes j"
  by (induction i rule: inbox_bytes.induct) auto

lemma length_inbox_bytes: "length (inbox_bytes i) = inbox_size i"
  by (induction i rule: inbox_bytes.induct) auto

text \<open>A read takes its bytes off the front, whatever its outcome.\<close>

definition read_bytes :: "u8 list io_result poll \<Rightarrow> u8 list" where
  "read_bytes res = (case res of Ready (Inr bs) \<Rightarrow> bs | _ \<Rightarrow> [])"

lemma stream_read_conserves:
  "stream_read n i = (res, i') \<Longrightarrow> inbox_bytes i = read_bytes res @ inbox_bytes i'"
  by (induction n i rule: stream_read.induct) (auto simp: read_bytes_def split: if_splits)

text \<open>A read of a stream that only delivers bytes takes a prefix of them, or waits.\<close>

lemma stream_read_arrivals:
  assumes "only_arrivals i" and "0 < n"
  shows "(inbox_bytes i = [] \<and> stream_read n i = (Pending, []))
    \<or> (\<exists>bs i'. stream_read n i = (Ready (Inr bs), i') \<and> bs \<noteq> [] \<and> length bs \<le> n
         \<and> inbox_bytes i = bs @ inbox_bytes i' \<and> only_arrivals i')"
  using assms
proof (induction n i rule: stream_read.induct)
  case (2 n bs i)
  show ?case
  proof (cases "bs = []")
    case True
    with 2 show ?thesis by simp
  next
    case False
    let ?i' = "if length bs \<le> n then i else Arrive (drop n bs) # i"
    from False 2 have "stream_read n (Arrive bs # i) = (Ready (Inr (take n bs)), ?i')"
      "take n bs \<noteq> []" "length (take n bs) \<le> n"
      "inbox_bytes (Arrive bs # i) = take n bs @ inbox_bytes ?i'" "only_arrivals ?i'"
      by auto
    then show ?thesis by blast
  qed
qed simp_all

section \<open>Filling a buffer completely\<close>

text \<open>\<open>acc\<close> is what has been read so far; a future dropped while it waits loses it.\<close>

function read_exact :: "nat \<Rightarrow> u8 list \<Rightarrow> inbox \<Rightarrow> u8 list io_result poll \<times> inbox" where
  "read_exact n acc i =
     (if n \<le> length acc then (Ready (Inr acc), i)
      else case stream_read (n - length acc) i of
             (Pending, i') \<Rightarrow> (Pending, i')
           | (Ready (Inl e), i') \<Rightarrow> (Ready (Inl e), i')
           | (Ready (Inr bs), i') \<Rightarrow>
               if bs = [] then (Ready (Inl UnexpectedEof), i')
               else read_exact n (acc @ bs) i')"
  by pat_completeness auto
termination
  by (relation "measure (\<lambda>(n, acc, i). inbox_size i)") (auto dest: stream_read_progress [OF sym])

declare read_exact.simps [simp del]

lemma read_exact_arrivals:
  assumes "only_arrivals i" and "n \<le> length acc + length (inbox_bytes i)" and "length acc \<le> n"
  shows "\<exists>i'. read_exact n acc i = (Ready (Inr (take n (acc @ inbox_bytes i))), i')
    \<and> only_arrivals i' \<and> inbox_bytes i' = drop n (acc @ inbox_bytes i)"
  using assms
proof (induction n acc i rule: read_exact.induct)
  case (1 n acc i)
  show ?case
  proof (cases "n \<le> length acc")
    case True
    with "1.prems" show ?thesis by (simp add: read_exact.simps)
  next
    case False
    with "1.prems" have pos: "0 < n - length acc" and ne: "inbox_bytes i \<noteq> []" by auto
    from stream_read_arrivals [OF "1.prems"(1) pos] ne
    obtain bs i' where r: "stream_read (n - length acc) i = (Ready (Inr bs), i')" "bs \<noteq> []"
      and len: "length bs \<le> n - length acc" and b: "inbox_bytes i = bs @ inbox_bytes i'"
      and only: "only_arrivals i'" by blast
    have "n \<le> length (acc @ bs) + length (inbox_bytes i')" "length (acc @ bs) \<le> n"
      using "1.prems" len b False by auto
    from "1.IH" [OF False r(1) [symmetric] refl refl r(2) only this]
    obtain i'' where "read_exact n (acc @ bs) i' = (Ready (Inr (take n ((acc @ bs) @ inbox_bytes i'))), i'')"
      "only_arrivals i''" "inbox_bytes i'' = drop n ((acc @ bs) @ inbox_bytes i')" by blast
    moreover from False r have "read_exact n acc i = read_exact n (acc @ bs) i'"
      by (simp add: read_exact.simps [of n acc i])
    ultimately show ?thesis using b by simp
  qed
qed

lemma read_exact_short:
  assumes "only_arrivals i" and "length acc + length (inbox_bytes i) < n"
  shows "read_exact n acc i = (Pending, [])"
  using assms
proof (induction n acc i rule: read_exact.induct)
  case (1 n acc i)
  then have pos: "0 < n - length acc" by simp
  from stream_read_arrivals [OF "1.prems"(1) pos]
  consider "stream_read (n - length acc) i = (Pending, [])"
    | bs i' where "stream_read (n - length acc) i = (Ready (Inr bs), i')" "bs \<noteq> []"
        "inbox_bytes i = bs @ inbox_bytes i'" "only_arrivals i'" by blast
  then show ?case
  proof cases
    case 1
    with pos show ?thesis by (simp add: read_exact.simps)
  next
    case (2 bs i')
    from pos have "\<not> n \<le> length acc" by simp
    from "1.IH" [OF this 2(1) [symmetric] refl refl 2(2,4)] "1.prems" 2
    have "read_exact n (acc @ bs) i' = (Pending, [])" by simp
    with 2 pos show ?thesis by (simp add: read_exact.simps [of n acc i])
  qed
qed

text \<open>
  A stream that may end: the bytes before its first end or error, and what a read comes to that
  finds none of them left; \<open>None\<close> means that it waits.
\<close>

fun arrived_bytes :: "inbox \<Rightarrow> u8 list" where
  "arrived_bytes [] = []"
| "arrived_bytes (Arrive bs # i) = bs @ arrived_bytes i"
| "arrived_bytes (_ # i) = []"

fun stream_end :: "inbox \<Rightarrow> io_kind option" where
  "stream_end [] = None"
| "stream_end (Arrive bs # i) = stream_end i"
| "stream_end (Eof # i) = Some UnexpectedEof"
| "stream_end (RdErr k # i) = Some k"

definition short_read :: "inbox \<Rightarrow> 'a io_result poll" where
  "short_read i = (case stream_end i of None \<Rightarrow> Pending | Some k \<Rightarrow> Ready (Inl k))"

lemma stream_read_outcome:
  assumes "0 < n"
  shows "(\<exists>i'. arrived_bytes i = [] \<and> stream_end i = None \<and> stream_read n i = (Pending, i'))
    \<or> (\<exists>i'. arrived_bytes i = [] \<and> stream_end i = Some UnexpectedEof \<and> stream_read n i = (Ready (Inr []), i'))
    \<or> (\<exists>k i'. arrived_bytes i = [] \<and> stream_end i = Some k \<and> stream_read n i = (Ready (Inl k), i'))
    \<or> (\<exists>bs i'. stream_read n i = (Ready (Inr bs), i') \<and> bs \<noteq> [] \<and> length bs \<le> n
         \<and> arrived_bytes i = bs @ arrived_bytes i' \<and> stream_end i' = stream_end i)"
  using assms by (induction n i rule: stream_read.induct) auto

text \<open>The complete outcome of \<open>read_exact\<close>, on any stream.\<close>

lemma read_exact_enough:
  assumes "length acc \<le> n" and "n \<le> length acc + length (arrived_bytes i)"
  shows "\<exists>i'. read_exact n acc i = (Ready (Inr (take n (acc @ arrived_bytes i))), i')
    \<and> arrived_bytes i' = drop n (acc @ arrived_bytes i) \<and> stream_end i' = stream_end i"
  using assms
proof (induction n acc i rule: read_exact.induct)
  case (1 n acc i)
  show ?case
  proof (cases "n \<le> length acc")
    case True
    with "1.prems" show ?thesis by (simp add: read_exact.simps)
  next
    case False
    with "1.prems" have "0 < n - length acc" "arrived_bytes i \<noteq> []" by auto
    with stream_read_outcome [of "n - length acc" i] obtain bs i' where
      r: "stream_read (n - length acc) i = (Ready (Inr bs), i')" "bs \<noteq> []" "length bs \<le> n - length acc"
        "arrived_bytes i = bs @ arrived_bytes i'" "stream_end i' = stream_end i" by auto
    with False "1.IH" [OF False r(1) [symmetric] refl refl r(2)] "1.prems" show ?thesis
      by (simp add: read_exact.simps [of n acc i])
  qed
qed

lemma read_exact_ends:
  assumes "length acc + length (arrived_bytes i) < n"
  shows "fst (read_exact n acc i) = short_read i"
  using assms
proof (induction n acc i rule: read_exact.induct)
  case (1 n acc i)
  then have n: "\<not> n \<le> length acc" by simp
  then have "0 < n - length acc" by simp
  from stream_read_outcome [OF this, of i] show ?case
  proof (elim disjE exE conjE)
    fix bs i'
    assume r: "stream_read (n - length acc) i = (Ready (Inr bs), i')" "bs \<noteq> []"
      "arrived_bytes i = bs @ arrived_bytes i'" "stream_end i' = stream_end i"
    with "1.IH" [OF n r(1) [symmetric] refl refl r(2)] "1.prems" show ?thesis
      by (simp add: read_exact.simps [of n acc i] short_read_def)
  qed (use n in \<open>simp_all add: read_exact.simps [of n acc i] short_read_def\<close>)
qed

lemma short_read_not_ok: "short_read i \<noteq> Ready (Inr x)"
  by (simp add: short_read_def split: option.splits)

lemma read_exact_conserves:
  "read_exact n acc i = (Ready (Inr bs), i') \<Longrightarrow> acc @ inbox_bytes i = bs @ inbox_bytes i'"
proof (induction n acc i rule: read_exact.induct)
  case (1 n acc i)
  show ?case
  proof (cases "n \<le> length acc")
    case True
    with "1.prems" show ?thesis by (simp add: read_exact.simps)
  next
    case False
    with "1.prems" obtain b i1 where r: "stream_read (n - length acc) i = (Ready (Inr b), i1)" "b \<noteq> []"
      and rest: "read_exact n (acc @ b) i1 = (Ready (Inr bs), i')"
      by (auto simp: read_exact.simps [of n acc i] split: prod.splits poll.splits sum.splits if_splits)
    from "1.IH" [OF False r(1) [symmetric] refl refl r(2) rest] stream_read_conserves [OF r(1)]
    show ?thesis by (simp add: read_bytes_def)
  qed
qed

section \<open>Writing\<close>

text \<open>
  Each \<open>write_all\<close> either delivers all its bytes or fails after some of them: the next entry
  of \<open>wfaults\<close> is \<open>None\<close> or the number of bytes and the error. An exhausted list means that
  nothing fails.
\<close>

record wstream =
  sent :: "u8 list"
  wfaults :: "(nat \<times> io_kind) option list"

definition fresh_wstream :: wstream where
  "fresh_wstream = \<lparr>sent = [], wfaults = []\<rparr>"

definition write_all :: "u8 list \<Rightarrow> wstream \<Rightarrow> unit io_result \<times> wstream" where
  "write_all bs w =
     (case wfaults w of
        [] \<Rightarrow> (Inr (), w\<lparr>sent := sent w @ bs\<rparr>)
      | None # fs \<Rightarrow> (Inr (), w\<lparr>sent := sent w @ bs, wfaults := fs\<rparr>)
      | Some (n, k) # fs \<Rightarrow> (Inl k, w\<lparr>sent := sent w @ take n bs, wfaults := fs\<rparr>))"

lemma write_all_no_fault [simp]:
  "wfaults w = [] \<Longrightarrow> write_all bs w = (Inr (), w\<lparr>sent := sent w @ bs\<rparr>)"
  by (simp add: write_all_def)

lemma write_all_ok:
  "write_all bs w = (Inr (), w') \<Longrightarrow> sent w' = sent w @ bs"
  by (auto simp: write_all_def split: list.splits option.splits)

lemma write_all_prefix:
  "write_all bs w = (r, w') \<Longrightarrow> \<exists>n. sent w' = sent w @ take n bs"
  by (auto simp: write_all_def split: list.splits option.splits) (metis take_all order_refl)+

end
