(* ===== verification/Protocol.thy ===== *)
theory Protocol
  imports Streams Utf8 Float64
begin

text \<open>
  The wire format of \<open>src/protocol.rs\<close>: the 16-byte heartbeat packet, the handshake that
  announces a node's name, the sanitising of that name, and the cancellation-safe
  \<open>HeartbeatReader\<close>.
\<close>

section \<open>Constants and packets\<close>

definition PACKET_SIZE :: nat where
  "PACKET_SIZE = 16"

definition MAX_HANDSHAKE_NAME_LEN :: nat where
  "MAX_HANDSHAKE_NAME_LEN = 256"

definition MAX_PEER_NAME_CHARS :: nat where
  "MAX_PEER_NAME_CHARS = 64"

record heartbeat =
  hb_seq :: u64
  hb_timestamp :: f64

text \<open>\<open>for (dst, src) in buf.iter_mut().zip(fields)\<close>: stops at the shorter of the two.\<close>

fun overwrite :: "'a list \<Rightarrow> 'a list \<Rightarrow> 'a list" where
  "overwrite [] srcs = []"
| "overwrite buf [] = buf"
| "overwrite (dst # buf) (src # srcs) = src # overwrite buf srcs"

definition encode_packet :: "u64 \<Rightarrow> f64 \<Rightarrow> u8 list" where
  "encode_packet s ts =
     (let buf = replicate PACKET_SIZE 0;
          srcs = to_be_bytes 8 s @ to_be_bytes 8 (to_bits ts)
      in overwrite buf srcs)"

definition decode_packet :: "u8 list \<Rightarrow> heartbeat" where
  "decode_packet b =
     \<lparr>hb_seq = from_be_bytes (take 8 b), hb_timestamp = from_bits (from_be_bytes (take 8 (drop 8 b)))\<rparr>"

lemma overwrite_all: "length srcs = length buf \<Longrightarrow> overwrite buf srcs = srcs"
  by (induction buf srcs rule: overwrite.induct) auto

lemma encode_packet_eq: "encode_packet s ts = to_be_bytes 8 s @ to_be_bytes 8 (to_bits ts)"
  by (simp add: encode_packet_def overwrite_all PACKET_SIZE_def)

lemma length_encode_packet [simp, byte_simps]: "length (encode_packet s ts) = PACKET_SIZE"
  by (simp add: encode_packet_eq PACKET_SIZE_def)

lemma decode_encode_packet [simp]:
  "decode_packet (encode_packet s ts) = \<lparr>hb_seq = s, hb_timestamp = ts\<rparr>"
  by (simp add: decode_packet_def encode_packet_eq byte_simps)

lemma encode_decode_packet:
  assumes "length b = PACKET_SIZE"
  shows "encode_packet (hb_seq (decode_packet b)) (hb_timestamp (decode_packet b)) = b"
proof -
  have "length (take 8 b) = 8" "length (take 8 (drop 8 b)) = 8"
    using assms by (simp_all add: PACKET_SIZE_def)
  then have "to_be_bytes 8 (from_be_bytes (take 8 b) :: u64) = take 8 b"
    "to_be_bytes 8 (from_be_bytes (take 8 (drop 8 b)) :: u64) = take 8 (drop 8 b)"
    using to_from_be_bytes [where 'a = 64, of "take 8 b"]
      to_from_be_bytes [where 'a = 64, of "take 8 (drop 8 b)"] by simp_all
  moreover have "take 8 (drop 8 b) = drop 8 b" using assms by (simp add: PACKET_SIZE_def)
  ultimately show ?thesis by (simp add: encode_packet_eq decode_packet_def)
qed

section \<open>A codec of fixed-size packets\<close>

text \<open>
  What the framing needs to know of a packet format: every packet has the same positive
  length, and decoding its bytes gives it back.
\<close>

fun chop :: "nat \<Rightarrow> u8 list \<Rightarrow> u8 list list" where
  "chop n bs = (if n = 0 \<or> length bs < n then [] else take n bs # chop n (drop n bs))"

declare chop.simps [simp del]

locale packet_codec =
  fixes enc :: "'p \<Rightarrow> u8 list"
    and dec :: "u8 list \<Rightarrow> 'p"
    and size :: nat
  assumes size_pos: "0 < size"
    and length_enc: "length (enc p) = size"
    and dec_enc: "dec (enc p) = p"
    and enc_dec: "length b = size \<Longrightarrow> enc (dec b) = b"
begin

lemma enc_inject: "enc p = enc q \<longleftrightarrow> p = q"
  by (metis dec_enc)

lemma length_stream: "length (concat (map enc ps)) = size * length ps"
  by (induction ps) (simp_all add: length_enc)

lemma chop_concat:
  "length rest < size \<Longrightarrow> chop size (concat (map enc ps) @ rest) = map enc ps"
  by (induction ps) (simp_all add: chop.simps size_pos length_enc)

lemma frames_of_stream:
  assumes "length rest < size"
  shows "map dec (chop size (concat (map enc ps) @ rest)) = ps"
  using assms by (simp add: chop_concat dec_enc comp_def)

text \<open>Two ways of cutting the same bytes into packets agree: decoding is unambiguous.\<close>

lemma stream_unique:
  assumes "concat (map enc ps) @ r = concat (map enc qs) @ r'"
    and "length r < size" and "length r' < size"
  shows "ps = qs \<and> r = r'"
proof -
  have "ps = qs" using frames_of_stream assms by metis
  with assms(1) show ?thesis by simp
qed

text \<open>Packets read off a longer stream are a prefix of the packets sent.\<close>

lemma stream_prefix:
  assumes "concat (map enc ps) @ r = concat (map enc qs)"
  shows "ps = take (length ps) qs"
  using assms
proof (induction ps arbitrary: qs)
  case (Cons p ps)
  show ?case
  proof (cases qs)
    case Nil
    with Cons.prems size_pos length_enc [of p] show ?thesis by simp
  next
    case (Cons q qs')
    with Cons.prems have "enc p = enc q" "concat (map enc ps) @ r = concat (map enc qs')"
      by (simp_all add: append_eq_append_conv length_enc)
    with Cons Cons.IH [of qs'] show ?thesis by (simp add: enc_inject)
  qed
qed simp

end

definition encode_heartbeat :: "heartbeat \<Rightarrow> u8 list" where
  "encode_heartbeat hb = encode_packet (hb_seq hb) (hb_timestamp hb)"

interpretation pkt: packet_codec encode_heartbeat decode_packet PACKET_SIZE
  by unfold_locales
    (simp_all add: encode_heartbeat_def encode_decode_packet, simp add: PACKET_SIZE_def)

section \<open>Peer names\<close>

definition name_char_ok :: "(rchar \<Rightarrow> bool) \<Rightarrow> rchar \<Rightarrow> bool" where
  "name_char_ok uni c \<longleftrightarrow> is_alphanumeric uni c \<or> c = 0x2D \<or> c = 0x5F \<or> c = 0x2E"

definition sanitize_peer_name :: "(rchar \<Rightarrow> bool) \<Rightarrow> rstr \<Rightarrow> rstr" where
  "sanitize_peer_name uni name =
     (let s = take MAX_PEER_NAME_CHARS (filter (name_char_ok uni) name)
      in if s = [] then lit ''unknown'' else s)"

text \<open>A name as it may appear in a label: never empty, at most 64 characters, all of them safe.\<close>

definition safe_name :: "(rchar \<Rightarrow> bool) \<Rightarrow> rstr \<Rightarrow> bool" where
  "safe_name uni s \<longleftrightarrow>
     s \<noteq> [] \<and> length s \<le> MAX_PEER_NAME_CHARS \<and> list_all (name_char_ok uni) s"

lemma safe_unknown: "safe_name uni (lit ''unknown'')"
  by (simp add: safe_name_def lit_def MAX_PEER_NAME_CHARS_def name_char_ok_def
      is_alphanumeric_def is_ascii_alphanumeric_def of_char_def horner_sum_simps)

lemma safe_sanitize: "safe_name uni (sanitize_peer_name uni name)"
proof (cases "take MAX_PEER_NAME_CHARS (filter (name_char_ok uni) name) = []")
  case True
  then show ?thesis by (simp add: sanitize_peer_name_def Let_def safe_unknown)
next
  case False
  then show ?thesis
    by (auto simp: sanitize_peer_name_def Let_def safe_name_def list_all_iff dest: in_set_takeD)
qed

lemma sanitize_safe:
  assumes "safe_name uni s"
  shows "sanitize_peer_name uni s = s"
proof -
  from assms have "filter (name_char_ok uni) s = s"
    by (simp add: safe_name_def list_all_iff)
  with assms show ?thesis by (simp add: sanitize_peer_name_def safe_name_def Let_def)
qed

section \<open>Handshake\<close>

definition send_handshake :: "rstr \<Rightarrow> wstream \<Rightarrow> unit io_result \<times> wstream" where
  "send_handshake name w =
     (let bytes = as_bytes name;
          bytes = (if MAX_HANDSHAKE_NAME_LEN \<le> length bytes
                   then take MAX_HANDSHAKE_NAME_LEN bytes else bytes)
      in if 2 ^ 32 \<le> length bytes then (Inl InvalidInput, w)
         else case write_all (to_be_bytes 4 (of_nat (length bytes) :: u32)) w of
                (Inl e, w) \<Rightarrow> (Inl e, w)
              | (Inr _, w) \<Rightarrow> write_all bytes w)"

text \<open>\<open>stream.read_u32()\<close>: four bytes, big-endian.\<close>

definition read_u32 :: "inbox \<Rightarrow> u32 io_result poll \<times> inbox" where
  "read_u32 i =
     (case read_exact 4 [] i of
        (Pending, i') \<Rightarrow> (Pending, i')
      | (Ready (Inl e), i') \<Rightarrow> (Ready (Inl e), i')
      | (Ready (Inr bs), i') \<Rightarrow> (Ready (Inr (from_be_bytes bs)), i'))"

definition read_handshake :: "(rchar \<Rightarrow> bool) \<Rightarrow> inbox \<Rightarrow> rstr io_result poll \<times> inbox" where
  "read_handshake uni i =
     (case read_u32 i of
        (Pending, i) \<Rightarrow> (Pending, i)
      | (Ready (Inl e), i) \<Rightarrow> (Ready (Inl e), i)
      | (Ready (Inr n), i) \<Rightarrow>
          (let len = unat n
           in if len = 0 \<or> MAX_HANDSHAKE_NAME_LEN < len then (Ready (Inl InvalidData), i)
              else case read_exact len [] i of
                     (Pending, i) \<Rightarrow> (Pending, i)
                   | (Ready (Inl e), i) \<Rightarrow> (Ready (Inl e), i)
                   | (Ready (Inr name_buf), i) \<Rightarrow>
                       (let raw = (case from_utf8 name_buf of None \<Rightarrow> [] | Some s \<Rightarrow> s)
                        in (Ready (Inr (sanitize_peer_name uni raw)), i))))"

text \<open>
  \<open>timeout(timeout_secs, read_handshake(stream))\<close>: \<open>expired\<close> says that the timer has run out
  when the read is polled; the timeout polls the read first.
\<close>

definition recv_handshake ::
    "(rchar \<Rightarrow> bool) \<Rightarrow> bool \<Rightarrow> inbox \<Rightarrow> rstr io_result poll \<times> inbox" where
  "recv_handshake uni expired i =
     (case read_handshake uni i of
        (Pending, i) \<Rightarrow> (if expired then Ready (Inl TimedOut) else Pending, i)
      | (Ready r, i) \<Rightarrow> (Ready r, i))"

text \<open>The name bytes that \<open>send_handshake\<close> puts on the wire after the length.\<close>

definition wire_name :: "rstr \<Rightarrow> u8 list" where
  "wire_name name = take MAX_HANDSHAKE_NAME_LEN (as_bytes name)"

definition wire_handshake :: "rstr \<Rightarrow> u8 list" where
  "wire_handshake name = to_be_bytes 4 (of_nat (length (wire_name name)) :: u32) @ wire_name name"

lemma wire_name_length: "length (wire_name name) \<le> 256"
  by (simp add: wire_name_def MAX_HANDSHAKE_NAME_LEN_def)

lemma send_handshake_eq:
  "send_handshake name w =
     (case write_all (to_be_bytes 4 (of_nat (length (wire_name name)) :: u32)) w of
        (Inl e, w) \<Rightarrow> (Inl e, w)
      | (Inr _, w) \<Rightarrow> write_all (wire_name name) w)"
proof -
  have "(if MAX_HANDSHAKE_NAME_LEN \<le> length (as_bytes name)
         then take MAX_HANDSHAKE_NAME_LEN (as_bytes name) else as_bytes name) = wire_name name"
    by (simp add: wire_name_def)
  moreover have "\<not> 2 ^ 32 \<le> length (wire_name name)"
    using wire_name_length [of name] by simp
  ultimately show ?thesis by (simp only: send_handshake_def Let_def if_False)
qed

lemma send_handshake_wire:
  "send_handshake name w = (Inr (), w') \<Longrightarrow> sent w' = sent w @ wire_handshake name"
  by (auto simp: send_handshake_eq wire_handshake_def dest!: write_all_ok
      split: prod.splits sum.splits)

lemma send_handshake_fresh:
  "send_handshake name fresh_wstream = (Inr (), \<lparr>sent = wire_handshake name, wfaults = []\<rparr>)"
  by (simp add: send_handshake_eq wire_handshake_def fresh_wstream_def)

lemma read_u32_arrivals:
  assumes "only_arrivals i" and "4 \<le> length (inbox_bytes i)"
  shows "\<exists>i'. read_u32 i = (Ready (Inr (from_be_bytes (take 4 (inbox_bytes i)))), i')
    \<and> only_arrivals i' \<and> inbox_bytes i' = drop 4 (inbox_bytes i)"
  using read_exact_arrivals [of i 4 "[]"] assms by (auto simp: read_u32_def)

text \<open>
  However the bytes of a handshake are cut into segments on the way, the server reads the
  length and then the name, and leaves what follows in the stream.
\<close>

lemma read_handshake_wire:
  assumes only: "only_arrivals i" and bytes: "inbox_bytes i = wire_handshake name @ rest"
    and name: "name \<noteq> []"
  shows "\<exists>i'. read_handshake uni i =
      (Ready (Inr (sanitize_peer_name uni (case from_utf8 (wire_name name) of None \<Rightarrow> [] | Some s \<Rightarrow> s))), i')
    \<and> only_arrivals i' \<and> inbox_bytes i' = rest"
proof -
  let ?n = "length (wire_name name)"
  have n: "?n \<noteq> 0" "?n \<le> MAX_HANDSHAKE_NAME_LEN"
    using name by (simp_all add: wire_name_def MAX_HANDSHAKE_NAME_LEN_def)
  have "?n < 2 ^ LENGTH(32)" using wire_name_length [of name] by simp
  then have unat_n: "unat (of_nat ?n :: u32) = ?n" by (rule unat_of_nat_small)
  from read_u32_arrivals [OF only]
  obtain i1 where r1: "read_u32 i = (Ready (Inr (of_nat ?n)), i1)" "only_arrivals i1"
      "inbox_bytes i1 = wire_name name @ rest"
    by (auto simp: bytes wire_handshake_def byte_simps)
  from read_exact_arrivals [OF r1(2), of ?n "[]"] r1(3)
  obtain i2 where r2: "read_exact ?n [] i1 = (Ready (Inr (wire_name name)), i2)" "only_arrivals i2"
      "inbox_bytes i2 = rest" by auto
  show ?thesis
    using r1 r2 n unat_n by (simp add: read_handshake_def Let_def)
qed

lemma read_handshake_safe:
  "read_handshake uni i = (Ready (Inr name), i') \<Longrightarrow> safe_name uni name"
  by (auto simp: read_handshake_def Let_def safe_sanitize
      split: prod.splits poll.splits sum.splits if_splits)

lemma recv_handshake_safe:
  "recv_handshake uni expired i = (Ready (Inr name), i') \<Longrightarrow> safe_name uni name"
  by (auto simp: recv_handshake_def split: prod.splits poll.splits if_splits dest: read_handshake_safe)

text \<open>What is read is a string of Unicode scalar values, whatever the bytes were.\<close>

lemma sanitize_valid: "valid_str name \<Longrightarrow> valid_str (sanitize_peer_name uni name)"
  using ascii_valid [of "lit ''unknown''"]
  by (auto simp: sanitize_peer_name_def Let_def valid_str_def list_all_iff lit_def of_char_def horner_sum_simps
      dest: in_set_takeD)

lemma read_handshake_valid:
  "read_handshake uni i = (Ready (Inr name), i') \<Longrightarrow> valid_str name"
  by (auto simp: read_handshake_def Let_def valid_str_def [of "[]"] intro!: sanitize_valid
      split: prod.splits poll.splits sum.splits if_splits option.splits dest: from_utf8_sound)

lemma recv_handshake_valid:
  "recv_handshake uni expired i = (Ready (Inr name), i') \<Longrightarrow> valid_str name"
  by (auto simp: recv_handshake_def split: prod.splits poll.splits if_splits dest: read_handshake_valid)

text \<open>The bytes of a handshake that the server accepts, and the name it takes from them.\<close>

definition accepted_handshake :: "(rchar \<Rightarrow> bool) \<Rightarrow> u8 list \<Rightarrow> rstr \<Rightarrow> bool" where
  "accepted_handshake uni hs name \<longleftrightarrow>
     (\<exists>n :: u32. \<exists>bs. hs = to_be_bytes 4 n @ bs \<and> unat n = length bs
        \<and> 0 < length bs \<and> length bs \<le> MAX_HANDSHAKE_NAME_LEN
        \<and> name = sanitize_peer_name uni (case from_utf8 bs of None \<Rightarrow> [] | Some s \<Rightarrow> s))"

lemma read_exact_length:
  "read_exact n acc i = (Ready (Inr bs), i') \<Longrightarrow> length acc \<le> n \<Longrightarrow> length bs = n"
proof (induction n acc i rule: read_exact.induct)
  case (1 n acc i)
  show ?case
  proof (cases "n \<le> length acc")
    case True
    with "1.prems" show ?thesis by (simp add: read_exact.simps)
  next
    case False
    with "1.prems"(1) obtain b i1 where r: "stream_read (n - length acc) i = (Ready (Inr b), i1)" "b \<noteq> []"
      and rest: "read_exact n (acc @ b) i1 = (Ready (Inr bs), i')"
      by (auto simp: read_exact.simps [of n acc i] split: prod.splits poll.splits sum.splits if_splits)
    have "length b \<le> n - length acc" using r(1)
      by (induction "n - length acc" i rule: stream_read.induct) (auto split: if_splits)
    with "1.IH" [OF False r(1) [symmetric] refl refl r(2) rest] "1.prems"(2) show ?thesis by simp
  qed
qed

lemma read_handshake_accepted:
  assumes "read_handshake uni i = (Ready (Inr name), i')"
  shows "\<exists>hs. accepted_handshake uni hs name \<and> inbox_bytes i = hs @ inbox_bytes i'"
proof -
  from assms obtain n i1 bs where u: "read_u32 i = (Ready (Inr n), i1)"
    and len: "unat n \<noteq> 0" "unat n \<le> MAX_HANDSHAKE_NAME_LEN"
    and b: "read_exact (unat n) [] i1 = (Ready (Inr bs), i')"
    and name: "name = sanitize_peer_name uni (case from_utf8 bs of None \<Rightarrow> [] | Some s \<Rightarrow> s)"
    by (auto simp: read_handshake_def Let_def split: prod.splits poll.splits sum.splits if_splits)
  from u obtain hd where h: "read_exact 4 [] i = (Ready (Inr hd), i1)" and n: "n = from_be_bytes hd"
    by (auto simp: read_u32_def split: prod.splits poll.splits sum.splits)
  from read_exact_length [OF h] have "length hd = 4" by simp
  with to_from_be_bytes [where 'a = 32, of hd] have "hd = to_be_bytes 4 n" by (simp add: n)
  moreover from read_exact_length [OF b] have "length bs = unat n" by simp
  ultimately have "accepted_handshake uni (hd @ bs) name"
    using len name unfolding accepted_handshake_def by (intro exI [of _ n] exI [of _ bs]) simp
  moreover have "inbox_bytes i = (hd @ bs) @ inbox_bytes i'"
    using read_exact_conserves [OF h] read_exact_conserves [OF b] by simp
  ultimately show ?thesis by blast
qed

lemma recv_handshake_accepted:
  assumes "recv_handshake uni expired i = (Ready (Inr name), i')"
  shows "\<exists>hs. accepted_handshake uni hs name \<and> inbox_bytes i = hs @ inbox_bytes i'"
  using assms by (auto simp: recv_handshake_def split: prod.splits poll.splits if_splits
      dest: read_handshake_accepted)

lemma recv_handshake_size:
  assumes "recv_handshake uni expired i = (Ready (Inr name), i')"
  shows "inbox_size i' < inbox_size i"
proof -
  from recv_handshake_accepted [OF assms] obtain hs where hs: "accepted_handshake uni hs name"
    "inbox_bytes i = hs @ inbox_bytes i'" by blast
  from hs(1) have "0 < length hs" by (auto simp: accepted_handshake_def)
  with arg_cong [OF hs(2), of length] show ?thesis by (simp add: length_inbox_bytes)
qed

text \<open>Of the bytes a client writes, only its own handshake can be accepted.\<close>

lemma accepted_wire:
  assumes "accepted_handshake uni hs name" and "hs @ x = wire_handshake node @ y"
  shows "hs = wire_handshake node \<and> x = y
    \<and> name = sanitize_peer_name uni (case from_utf8 (wire_name node) of None \<Rightarrow> [] | Some s \<Rightarrow> s)"
proof -
  let ?m = "of_nat (length (wire_name node)) :: u32"
  from assms(1) obtain n :: u32 and bs where hs: "hs = to_be_bytes 4 n @ bs" and n: "unat n = length bs"
    and name: "name = sanitize_peer_name uni (case from_utf8 bs of None \<Rightarrow> [] | Some s \<Rightarrow> s)"
    by (auto simp: accepted_handshake_def)
  have eq: "to_be_bytes 4 n @ (bs @ x) = to_be_bytes 4 ?m @ (wire_name node @ y)"
    using assms(2) by (simp add: hs wire_handshake_def)
  have "length (to_be_bytes 4 n) = length (to_be_bytes 4 ?m)" by (simp only: length_to_be_bytes)
  from iffD1 [OF append_eq_append_conv [OF disjI1 [OF this]] eq]
  have bytes: "to_be_bytes 4 n = to_be_bytes 4 ?m" and rest: "bs @ x = wire_name node @ y" by blast+
  have exact: "from_be_bytes (to_be_bytes 4 k) = k" for k :: u32
    by (rule from_to_be_bytes_exact) simp
  from bytes exact have "n = ?m" by metis
  moreover have "unat ?m = length (wire_name node)"
    using wire_name_length [of node] by (simp add: unat_of_nat take_bit_nat_eq_self)
  ultimately have "length bs = length (wire_name node)" using n by simp
  with rest have "bs = wire_name node" "x = y" by simp_all
  with name hs \<open>n = ?m\<close> show ?thesis by (simp add: wire_handshake_def)
qed

text \<open>A handshake in one segment, read at any time.\<close>

lemma wire_handshake_n1: "wire_handshake [110, 49] = [0, 0, 0, 2, 110, 49]"
proof -
  have "to_be_bytes 4 (2 :: u32) = [0, 0, 0, 2]" by code_simp
  then show ?thesis
    by (simp add: wire_handshake_def wire_name_def as_bytes_ascii byte_of_def MAX_HANDSHAKE_NAME_LEN_def)
qed

lemma handshake_n1:
  "recv_handshake uni expired [Arrive [0, 0, 0, 2, 110, 49]] = (Ready (Inr [110, 49]), [])"
  by (simp add: recv_handshake_def read_handshake_def read_u32_def read_exact.simps from_be_bytes_def
      MAX_HANDSHAKE_NAME_LEN_def from_utf8.simps decode_char_def sanitize_peer_name_def name_char_ok_def
      is_alphanumeric_def is_ascii_alphanumeric_def MAX_PEER_NAME_CHARS_def Let_def)

text \<open>What one side sends as its handshake the other side reads back.\<close>

lemma handshake_read_back:
  assumes "valid_str name" and "name \<noteq> []"
    and "length (as_bytes name) \<le> MAX_HANDSHAKE_NAME_LEN \<or> list_all (\<lambda>c. c < 128) name"
    and "send_handshake name fresh_wstream = (Inr (), w)"
    and "only_arrivals i" and "inbox_bytes i = sent w @ rest"
  shows "\<exists>i'. recv_handshake uni expired i =
      (Ready (Inr (sanitize_peer_name uni (take MAX_HANDSHAKE_NAME_LEN name))), i')
    \<and> only_arrivals i' \<and> inbox_bytes i' = rest"
proof -
  have "wire_name name = as_bytes (take MAX_HANDSHAKE_NAME_LEN name)"
    using assms(3) length_as_bytes_ge [of name] by (auto simp: wire_name_def take_as_bytes_ascii)
  moreover have "valid_str (take MAX_HANDSHAKE_NAME_LEN name)"
    using assms(1) by (auto simp: valid_str_def list_all_iff dest: in_set_takeD)
  ultimately have "from_utf8 (wire_name name) = Some (take MAX_HANDSHAKE_NAME_LEN name)" by simp
  moreover have "inbox_bytes i = wire_handshake name @ rest"
    using send_handshake_wire [OF assms(4)] assms(6) by (simp add: fresh_wstream_def)
  ultimately show ?thesis
    using read_handshake_wire [OF assms(5), of name rest uni] assms(2)
    by (auto simp: recv_handshake_def)
qed

section \<open>Properties\<close>

text \<open>
  C27. The packet format is a bijection between heartbeats and 16-byte sequences: encoding puts
  the sequence number and then the bits of the timestamp in big-endian order, decoding gives
  both back bit for bit, and re-encoding what was decoded from any 16 bytes gives those bytes.
\<close>

theorem packet_bijection:
  assumes "length b = PACKET_SIZE"
  shows "encode_packet s ts = to_be_bytes 8 s @ to_be_bytes 8 (to_bits ts)
    \<and> decode_packet (encode_packet s ts) = \<lparr>hb_seq = s, hb_timestamp = ts\<rparr>
    \<and> encode_packet (hb_seq (decode_packet b)) (hb_timestamp (decode_packet b)) = b"
  using assms by (simp add: encode_packet_eq [of s ts] encode_decode_packet)
    (simp add: encode_packet_eq [of s ts, symmetric])

theorem packet_bijection_witness:
  "encode_packet (hb_seq (decode_packet [0, 0, 0, 0, 0, 0, 1, 2, 65, 217, 0, 0, 0, 0, 255, 7]))
     (hb_timestamp (decode_packet [0, 0, 0, 0, 0, 0, 1, 2, 65, 217, 0, 0, 0, 0, 255, 7]))
   = [0, 0, 0, 0, 0, 0, 1, 2, 65, 217, 0, 0, 0, 0, 255, 7]"
  by (rule packet_bijection [THEN conjunct2, THEN conjunct2]) (simp add: PACKET_SIZE_def)

text \<open>
  C20. Handshake round trip. What \<open>send_handshake\<close> writes for a name that fits in 256 bytes, or
  for a longer name in ASCII, is read back by \<open>recv_handshake\<close> however the bytes are cut into
  segments: the server gets the sanitised name (cut to 256 characters) and leaves the bytes
  that follow in the stream.
\<close>

theorem handshake_roundtrip:
  assumes "valid_str name" and "name \<noteq> []"
    and "length (as_bytes name) \<le> MAX_HANDSHAKE_NAME_LEN \<or> list_all (\<lambda>c. c < 128) name"
    and "send_handshake name fresh_wstream = (Inr (), w)"
    and "only_arrivals i" and "inbox_bytes i = sent w @ rest"
  shows "\<exists>i'. recv_handshake uni expired i =
      (Ready (Inr (sanitize_peer_name uni (take MAX_HANDSHAKE_NAME_LEN name))), i')
    \<and> only_arrivals i' \<and> inbox_bytes i' = rest"
  by (rule handshake_read_back [OF assms])

theorem handshake_roundtrip_witness:
  "\<exists>i'. recv_handshake (\<lambda>_. False) False [Arrive [0, 0], Arrive [0, 2, 110], Arrive [49, 7]] =
      (Ready (Inr (lit ''n1'')), i') \<and> only_arrivals i' \<and> inbox_bytes i' = [7]"
proof -
  have name: "lit ''n1'' = [110, 49]" by (simp add: lit_def of_char_def horner_sum_simps)
  have bytes: "as_bytes [110, 49] = [110, 49]"
    by (simp add: as_bytes_ascii byte_of_def)
  have "send_handshake [110, 49] fresh_wstream = (Inr (), \<lparr>sent = [0, 0, 0, 2, 110, 49], wfaults = []\<rparr>)"
    by (simp add: send_handshake_fresh wire_handshake_n1)
  then have "\<exists>i'. recv_handshake (\<lambda>_. False) False [Arrive [0, 0], Arrive [0, 2, 110], Arrive [49, 7]] =
      (Ready (Inr (sanitize_peer_name (\<lambda>_. False) (take MAX_HANDSHAKE_NAME_LEN [110, 49]))), i')
      \<and> only_arrivals i' \<and> inbox_bytes i' = [7]"
    by (rule handshake_roundtrip [rotated 3])
      (simp_all add: valid_str_def scalar_value_def bytes MAX_HANDSHAKE_NAME_LEN_def)
  moreover have "sanitize_peer_name (\<lambda>_. False) (take MAX_HANDSHAKE_NAME_LEN [110, 49]) = lit ''n1''"
    by (simp add: name sanitize_peer_name_def MAX_HANDSHAKE_NAME_LEN_def MAX_PEER_NAME_CHARS_def name_char_ok_def
        is_alphanumeric_def is_ascii_alphanumeric_def)
  ultimately show ?thesis by simp
qed

text \<open>
  C21. The cut at 256 bytes is not a cut at a character: when the limit falls inside a multi-byte
  character of the name, the bytes sent are not UTF-8 any more, and the server labels the peer
  "unknown" instead of with the name's first characters.
\<close>

theorem handshake_split_char:
  assumes "valid_str (s @ c # r)" and "length (as_bytes s) < MAX_HANDSHAKE_NAME_LEN"
    and "MAX_HANDSHAKE_NAME_LEN < length (as_bytes (s @ [c]))"
    and "send_handshake (s @ c # r) fresh_wstream = (Inr (), w)"
    and "only_arrivals i" and "inbox_bytes i = sent w @ rest"
  shows "fst (recv_handshake uni expired i) = Ready (Inr (lit ''unknown''))"
proof -
  let ?k = "MAX_HANDSHAKE_NAME_LEN - length (as_bytes s)"
  have k: "0 < ?k" "?k < length (utf8_char c)" using assms(2,3) by (simp_all add: as_bytes_def)
  have "wire_name (s @ c # r) = as_bytes s @ take ?k (utf8_char c)"
    using assms(2) k by (simp add: wire_name_def as_bytes_def)
  moreover have "from_utf8 (take ?k (utf8_char c)) = None"
    using assms(1) k decode_char_cut [of c ?k] by (simp add: from_utf8_step valid_str_def)
  ultimately have "from_utf8 (wire_name (s @ c # r)) = None"
    using assms(1) by (simp add: from_utf8_append valid_str_def)
  then show ?thesis
    using read_handshake_wire [OF assms(5), of "s @ c # r" rest uni] send_handshake_wire [OF assms(4)] assms(6)
    by (auto simp: recv_handshake_def sanitize_peer_name_def fresh_wstream_def)
qed

theorem handshake_split_char_witness:
  "\<exists>w. send_handshake (replicate 255 0x61 @ [0xE9]) fresh_wstream = (Inr (), w)
     \<and> fst (recv_handshake (\<lambda>_. True) False [Arrive (sent w)]) = Ready (Inr (lit ''unknown''))"
proof -
  let ?w = "\<lparr>sent = wire_handshake (replicate 255 0x61 @ [0xE9]), wfaults = []\<rparr>"
  have w: "send_handshake (replicate 255 0x61 @ 0xE9 # []) fresh_wstream = (Inr (), ?w)"
    by (rule send_handshake_fresh)
  have "as_bytes (replicate 255 0x61) = replicate 255 (byte_of 0x61)"
    by (subst as_bytes_ascii) (simp_all add: list_all_iff)
  then have "length (as_bytes (replicate 255 0x61)) < MAX_HANDSHAKE_NAME_LEN"
    "MAX_HANDSHAKE_NAME_LEN < length (as_bytes (replicate 255 0x61 @ [0xE9]))"
    by (simp_all add: as_bytes_def MAX_HANDSHAKE_NAME_LEN_def utf8_char_def)
  from handshake_split_char [OF _ this w, of "[Arrive (sent ?w)]" "[]"] w show ?thesis
    by (auto simp: valid_str_def list_all_iff scalar_value_def)
qed

text \<open>
  C22. The handshake read, completely, on any stream: it needs the 4-byte length, rejects a length
  of 0 or above 256 as \<open>InvalidData\<close> without waiting for more, needs exactly that many bytes
  otherwise, and then returns the sanitised name, that of an empty string where the bytes are
  not UTF-8. Where the bytes it needs are not there, it waits if the stream is open, and fails with
  \<open>UnexpectedEof\<close> if it was closed and with the error of the stream if it broke.
\<close>

theorem handshake_outcome:
  "fst (read_handshake uni i) =
    (let bytes = arrived_bytes i; n = unat (from_be_bytes (take 4 bytes) :: u32) in
     if length bytes < 4 then short_read i
     else if n = 0 \<or> 256 < n then Ready (Inl InvalidData)
     else if length bytes < 4 + n then short_read i
     else Ready (Inr (sanitize_peer_name uni
            (case from_utf8 (take n (drop 4 bytes)) of None \<Rightarrow> [] | Some s \<Rightarrow> s))))"
proof (cases "length (arrived_bytes i) < 4")
  case True
  then have "fst (read_exact 4 [] i) = short_read i" by (intro read_exact_ends) simp
  then show ?thesis using True
    by (cases "read_exact 4 [] i")
      (simp add: read_handshake_def read_u32_def Let_def short_read_def split: option.splits)
next
  case False
  let ?n = "from_be_bytes (take 4 (arrived_bytes i)) :: u32"
  from read_exact_enough [of "[]" 4 i] False obtain i1 where u: "read_u32 i = (Ready (Inr ?n), i1)"
    "arrived_bytes i1 = drop 4 (arrived_bytes i)" "stream_end i1 = stream_end i"
    by (auto simp: read_u32_def)
  from u(3) have short: "short_read i1 = short_read i" by (simp add: short_read_def)
  show ?thesis
  proof (cases "unat ?n \<noteq> 0 \<and> unat ?n \<le> 256 \<and> length (arrived_bytes i) < 4 + unat ?n")
    case True
    then have "fst (read_exact (unat ?n) [] i1) = short_read i"
      unfolding short [symmetric] using u(2) False by (intro read_exact_ends) auto
    with u(1) True False show ?thesis
      by (cases "read_exact (unat ?n) [] i1")
        (simp add: read_handshake_def Let_def MAX_HANDSHAKE_NAME_LEN_def short_read_def split: option.splits)
  next
    case whole: False
    show ?thesis
    proof (cases "unat ?n = 0 \<or> 256 < unat ?n")
      case True
      with u False show ?thesis by (simp add: read_handshake_def Let_def MAX_HANDSHAKE_NAME_LEN_def)
    next
      case ok: False
      with whole u(2) have "unat ?n \<le> length ([] :: u8 list) + length (arrived_bytes i1)" by auto
      with read_exact_enough [of "[]" "unat ?n" i1] u(2) obtain i2 where
        "read_exact (unat ?n) [] i1 = (Ready (Inr (take (unat ?n) (drop 4 (arrived_bytes i)))), i2)" by auto
      with u(1) False ok whole show ?thesis by (simp add: read_handshake_def Let_def MAX_HANDSHAKE_NAME_LEN_def)
    qed
  qed
qed

theorem handshake_outcome_witness:
  "fst (read_handshake (\<lambda>_. False) [Arrive [0, 0], Arrive [1, 1], Eof]) = Ready (Inl InvalidData)
   \<and> fst (read_handshake (\<lambda>_. False) [Arrive [0, 0, 0, 3, 97]]) = Pending
   \<and> fst (read_handshake (\<lambda>_. False) [Arrive [0, 0, 0, 3, 97], Eof]) = Ready (Inl UnexpectedEof)
   \<and> fst (read_handshake (\<lambda>_. False) [Arrive [0, 0], RdErr ConnectionReset]) = Ready (Inl ConnectionReset)"
  unfolding handshake_outcome by (simp add: from_be_bytes_def Let_def short_read_def)

text \<open>
  C23. \<open>sanitize_peer_name\<close> is a normal form: its result is never empty, has at most 64
  characters, each alphanumeric or one of \<open>- _ .\<close>, and it changes a name exactly when the name
  is not of that form already.
\<close>

theorem sanitize_normal_form:
  "safe_name uni (sanitize_peer_name uni name)
   \<and> (sanitize_peer_name uni name = name \<longleftrightarrow> safe_name uni name)
   \<and> sanitize_peer_name uni (sanitize_peer_name uni name) = sanitize_peer_name uni name"
  using safe_sanitize sanitize_safe by metis

end
