(* ===== verification/Reader.thy ===== *)
theory Reader
  imports Protocol
begin

text \<open>
  \<open>HeartbeatReader\<close> of \<open>src/protocol.rs\<close>: a reader that keeps a partly received packet in
  itself, so that a \<open>recv\<close> dropped by a timeout loses nothing. \<open>held\<close> abstracts it to the
  bytes of the packet under way; \<open>recv_conserves\<close> says that a call neither loses nor invents
  a byte, and the later lemmas build on that.
\<close>

section \<open>The reader\<close>

record heartbeat_reader =
  rd_buf :: "u8 list"
  rd_filled :: nat

definition reader_new :: heartbeat_reader where
  "reader_new = \<lparr>rd_buf = replicate PACKET_SIZE 0, rd_filled = 0\<rparr>"

text \<open>\<open>stream.read(unfilled)\<close> writes into the unfilled part, then \<open>filled\<close> grows.\<close>

definition reader_store :: "heartbeat_reader \<Rightarrow> u8 list \<Rightarrow> heartbeat_reader" where
  "reader_store r bs =
     r\<lparr>rd_buf := take (rd_filled r) (rd_buf r) @ bs @ drop (rd_filled r + length bs) (rd_buf r),
       rd_filled := rd_filled r + length bs\<rparr>"

function recv :: "heartbeat_reader \<Rightarrow> inbox \<Rightarrow> heartbeat io_result poll \<times> heartbeat_reader \<times> inbox" where
  "recv r i =
     (if rd_filled r < PACKET_SIZE then
        (case stream_read (length (drop (rd_filled r) (rd_buf r))) i of
           (Pending, i') \<Rightarrow> (Pending, r, i')
         | (Ready (Inl e), i') \<Rightarrow> (Ready (Inl e), r, i')
         | (Ready (Inr bs), i') \<Rightarrow>
             if bs = [] then (Ready (Inl UnexpectedEof), r, i')
             else recv (reader_store r bs) i')
      else (Ready (Inr (decode_packet (rd_buf r))), r\<lparr>rd_filled := 0\<rparr>, i))"
  by pat_completeness auto
termination
  by (relation "measure (\<lambda>(r, i). inbox_size i)") (auto dest: stream_read_progress [OF sym])

declare recv.simps [simp del]

text \<open>\<open>recv_heartbeat\<close>: a fresh reader for one packet, dropped with what it holds.\<close>

definition recv_heartbeat :: "inbox \<Rightarrow> heartbeat io_result poll \<times> inbox" where
  "recv_heartbeat i = (case recv reader_new i of (res, _, i') \<Rightarrow> (res, i'))"

definition send_heartbeat :: "u64 \<Rightarrow> sys_time \<Rightarrow> wstream \<Rightarrow> f64 io_result \<times> wstream" where
  "send_heartbeat s now w =
     (let ts = now_f64 now
      in case write_all (encode_packet s ts) w of
           (Inl e, w) \<Rightarrow> (Inl e, w)
         | (Inr _, w) \<Rightarrow> (Inr ts, w))"

section \<open>Invariant and abstraction\<close>

definition reader_inv :: "heartbeat_reader \<Rightarrow> bool" where
  "reader_inv r \<longleftrightarrow> length (rd_buf r) = PACKET_SIZE \<and> rd_filled r \<le> PACKET_SIZE"

text \<open>Between two calls the packet under way is incomplete.\<close>

definition reader_idle :: "heartbeat_reader \<Rightarrow> bool" where
  "reader_idle r \<longleftrightarrow> length (rd_buf r) = PACKET_SIZE \<and> rd_filled r < PACKET_SIZE"

definition held :: "heartbeat_reader \<Rightarrow> u8 list" where
  "held r = take (rd_filled r) (rd_buf r)"

lemma reader_new_idle [simp]: "reader_idle reader_new" "held reader_new = []"
  by (simp_all add: reader_idle_def reader_new_def held_def PACKET_SIZE_def)

lemma idle_inv: "reader_idle r \<Longrightarrow> reader_inv r"
  by (simp add: reader_idle_def reader_inv_def)

lemma length_held: "reader_inv r \<Longrightarrow> length (held r) = rd_filled r"
  by (simp add: held_def reader_inv_def)

lemma reader_store_inv:
  assumes "reader_inv r" and "rd_filled r + length bs \<le> PACKET_SIZE"
  shows "reader_inv (reader_store r bs)" "held (reader_store r bs) = held r @ bs"
  using assms by (simp_all add: reader_inv_def reader_store_def held_def)

lemma held_full: "reader_inv r \<Longrightarrow> \<not> rd_filled r < PACKET_SIZE \<Longrightarrow> held r = rd_buf r"
  by (simp add: held_def reader_inv_def)

text \<open>A read never returns more bytes than the buffer has room for.\<close>

lemma stream_read_bound: "stream_read n i = (Ready (Inr bs), i') \<Longrightarrow> length bs \<le> n"
  by (induction n i rule: stream_read.induct) (auto split: if_splits)

lemma recv_full:
  "\<not> rd_filled r < PACKET_SIZE \<Longrightarrow>
     recv r i = (Ready (Inr (decode_packet (rd_buf r))), r\<lparr>rd_filled := 0\<rparr>, i)"
  by (simp add: recv.simps)

text \<open>The bytes of the packet a call returned, if it returned one.\<close>

definition packet_bytes :: "heartbeat io_result poll \<Rightarrow> u8 list" where
  "packet_bytes res = (case res of Ready (Inr hb) \<Rightarrow> encode_heartbeat hb | _ \<Rightarrow> [])"

lemma packet_bytes_simps [simp]:
  "packet_bytes Pending = []" "packet_bytes (Ready (Inl e)) = []"
  "packet_bytes (Ready (Inr hb)) = encode_heartbeat hb"
  by (simp_all add: packet_bytes_def)

text \<open>
  Whatever a call comes to, every byte that went in is part of the returned packet, held by
  the reader or still unread, and the reader is ready for the next call.
\<close>

lemma recv_conserves:
  assumes "recv r i = (res, r', i')" and "reader_inv r"
  shows "reader_idle r' \<and> (\<forall>hb. res = Ready (Inr hb) \<longrightarrow> held r' = [])
    \<and> held r @ inbox_bytes i = packet_bytes res @ held r' @ inbox_bytes i'"
  using assms
proof (induction r i rule: recv.induct)
  case (1 r i)
  let ?n = "length (drop (rd_filled r) (rd_buf r))"
  show ?case
  proof (cases "rd_filled r < PACKET_SIZE")
    case False
    with "1.prems"(2) have "held r = rd_buf r" "length (rd_buf r) = PACKET_SIZE"
      by (simp_all add: held_full reader_inv_def)
    with "1.prems" False show ?thesis
      by (auto simp: recv_full reader_idle_def held_def pkt.enc_dec PACKET_SIZE_def)
  next
    case True
    with "1.prems"(2) have idle: "reader_idle r" by (simp add: reader_idle_def reader_inv_def)
    obtain rd i1 where rd: "stream_read ?n i = (rd, i1)" by (cases "stream_read ?n i")
    note c = stream_read_conserves [OF rd]
    show ?thesis
    proof (cases "\<exists>bs. rd = Ready (Inr bs) \<and> bs \<noteq> []")
      case False
      with "1.prems"(1) True rd c idle show ?thesis
        by (auto simp: recv.simps [of r i] read_bytes_def split: poll.splits sum.splits if_splits)
    next
      case more: True
      then obtain bs where s: "stream_read ?n i = (Ready (Inr bs), i1)" "bs \<noteq> []" using rd by blast
      from stream_read_bound [OF s(1)] "1.prems"(2) True
      have "rd_filled r + length bs \<le> PACKET_SIZE" by (simp add: reader_inv_def)
      with "1.prems"(2) have st: "reader_inv (reader_store r bs)" "held (reader_store r bs) = held r @ bs"
        by (rule reader_store_inv)+
      from "1.prems"(1) True s have "recv (reader_store r bs) i1 = (res, r', i')"
        by (simp add: recv.simps [of r i])
      from "1.IH" [OF True s(1) [symmetric] refl refl s(2) this st(1)] st(2) stream_read_conserves [OF s(1)]
      show ?thesis by (simp add: read_bytes_def)
    qed
  qed
qed

lemma recv_heartbeat_conserves:
  assumes "recv_heartbeat i = (Ready (Inr hb), i')"
  shows "inbox_bytes i = encode_heartbeat hb @ inbox_bytes i'"
proof -
  from assms obtain r' where "recv reader_new i = (Ready (Inr hb), r', i')"
    by (auto simp: recv_heartbeat_def split: prod.splits)
  from recv_conserves [OF this] show ?thesis by (simp add: idle_inv)
qed

lemma recv_size: "recv r i = (res, r', i') \<Longrightarrow> inbox_size i' \<le> inbox_size i"
proof (induction r i rule: recv.induct)
  case (1 r i)
  obtain rd i1 where rd: "stream_read (length (drop (rd_filled r) (rd_buf r))) i = (rd, i1)"
    by (cases "stream_read (length (drop (rd_filled r) (rd_buf r))) i")
  from stream_read_size [OF rd] 1 rd show ?case
    by (fastforce simp: recv.simps [of r i] split: if_splits poll.splits sum.splits)
qed

text \<open>A packet costs at least one byte that had not been read before.\<close>

lemma recv_packet_size:
  assumes "recv r i = (Ready (Inr hb), r', i')" and "reader_idle r"
  shows "inbox_size i' < inbox_size i"
proof -
  from recv_conserves [OF assms(1) idle_inv [OF assms(2)]]
  have "length (held r @ inbox_bytes i) = length (encode_heartbeat hb @ inbox_bytes i')" by simp
  moreover have "length (held r) < PACKET_SIZE" using assms(2) by (simp add: length_held idle_inv) (simp add: reader_idle_def)
  ultimately show ?thesis by (simp add: pkt.length_enc length_inbox_bytes)
qed

lemma recv_heartbeat_size: "recv_heartbeat i = (Ready (Inr hb), i') \<Longrightarrow> inbox_size i' < inbox_size i"
  by (auto simp: recv_heartbeat_def split: prod.splits intro: recv_packet_size)

section \<open>What one call does on a stream that delivers bytes\<close>

text \<open>
  With a whole packet available, counting what the reader holds, a call returns the packet
  made of the next 16 bytes; otherwise it takes in everything and waits.
\<close>

lemma recv_arrivals:
  assumes "only_arrivals i" and "reader_inv r"
  defines "bytes \<equiv> held r @ inbox_bytes i"
  shows "(PACKET_SIZE \<le> length bytes \<and> (\<exists>r' i'. recv r i = (Ready (Inr (decode_packet (take PACKET_SIZE bytes))), r', i')
             \<and> reader_idle r' \<and> held r' = [] \<and> only_arrivals i' \<and> inbox_bytes i' = drop PACKET_SIZE bytes))
       \<or> (length bytes < PACKET_SIZE \<and> (\<exists>r'. recv r i = (Pending, r', []) \<and> reader_idle r' \<and> held r' = bytes))"
  using assms(1,2) unfolding bytes_def
proof (induction r i rule: recv.induct)
  case (1 r i)
  let ?n = "length (drop (rd_filled r) (rd_buf r))"
  show ?case
  proof (cases "rd_filled r < PACKET_SIZE")
    case False
    with "1.prems" have "held r = rd_buf r" "length (rd_buf r) = PACKET_SIZE"
      by (simp_all add: held_full reader_inv_def)
    with False "1.prems" show ?thesis
      by (auto simp: recv_full reader_idle_def held_def PACKET_SIZE_def)
  next
    case True
    with "1.prems" have pos: "0 < ?n" and n: "rd_filled r + ?n = PACKET_SIZE"
      and idle: "reader_idle r"
      by (simp_all add: reader_inv_def reader_idle_def)
    from stream_read_arrivals [OF "1.prems"(1) pos]
    consider "inbox_bytes i = []" "stream_read ?n i = (Pending, [])"
      | bs i' where "stream_read ?n i = (Ready (Inr bs), i')" "bs \<noteq> []" "length bs \<le> ?n"
          "inbox_bytes i = bs @ inbox_bytes i'" "only_arrivals i'" by blast
    then show ?thesis
    proof cases
      case 1
      moreover have "length (held r) < PACKET_SIZE"
        using length_held [OF \<open>reader_inv r\<close>] True by simp
      ultimately show ?thesis
        using True idle by (simp add: recv.simps [of r i])
    next
      case (2 bs i')
      note "1.prems"(2)
      moreover from n 2(3) have "rd_filled r + length bs \<le> PACKET_SIZE" by linarith
      ultimately have st: "reader_inv (reader_store r bs)" "held (reader_store r bs) = held r @ bs"
        by (rule reader_store_inv)+
      from True 2 have "recv r i = recv (reader_store r bs) i'"
        by (simp add: recv.simps [of r i])
      with "1.IH" [OF True 2(1) [symmetric] refl refl 2(2,5) st(1)] st(2) 2(4) show ?thesis
        by simp
    qed
  qed
qed

lemma packet_first:
  assumes "only_arrivals i" and "reader_inv r"
    and "held r @ inbox_bytes i = concat (map encode_heartbeat (hb # hbs)) @ rest"
  shows "\<exists>r' i'. recv r i = (Ready (Inr hb), r', i') \<and> reader_idle r' \<and> only_arrivals i'
    \<and> held r' = [] \<and> inbox_bytes i' = concat (map encode_heartbeat hbs) @ rest"
proof -
  have bytes: "held r @ inbox_bytes i = encode_heartbeat hb @ concat (map encode_heartbeat hbs) @ rest" using assms(3) by simp
  have "PACKET_SIZE \<le> length (held r @ inbox_bytes i)" unfolding bytes by (simp add: pkt.length_enc)
  moreover have "take PACKET_SIZE (held r @ inbox_bytes i) = encode_heartbeat hb"
    "drop PACKET_SIZE (held r @ inbox_bytes i) = concat (map encode_heartbeat hbs) @ rest"
    unfolding bytes by (simp_all add: pkt.length_enc)
  ultimately show ?thesis using recv_arrivals [OF assms(1,2)] by (auto simp: pkt.dec_enc)
qed

section \<open>A sequence of calls, some of them cut off\<close>

text \<open>
  A session calls \<open>recv\<close> again and again on one reader. Between two calls more bytes may have
  arrived; a call that waits is cut off by its timeout and contributes nothing.
\<close>

fun recv_calls ::
    "heartbeat_reader \<Rightarrow> inbox \<Rightarrow> inbox list \<Rightarrow> heartbeat list \<times> heartbeat_reader \<times> inbox" where
  "recv_calls r i [] = ([], r, i)"
| "recv_calls r i (a # as) =
     (case recv r (i @ a) of
        (Ready (Inr hb), r', i') \<Rightarrow>
          (case recv_calls r' i' as of (hbs, r'', i'') \<Rightarrow> (hb # hbs, r'', i''))
      | (_, r', i') \<Rightarrow> recv_calls r' i' as)"

lemma recv_calls_conserves:
  assumes "recv_calls r i as = (hbs, r', i')" and "reader_inv r"
  shows "reader_inv r' \<and>
    held r @ inbox_bytes i @ concat (map inbox_bytes as)
      = concat (map encode_heartbeat hbs) @ held r' @ inbox_bytes i'"
  using assms
proof (induction as arbitrary: r i hbs)
  case Nil
  then show ?case by simp
next
  case (Cons a as)
  obtain res r1 i1 where r: "recv r (i @ a) = (res, r1, i1)" by (metis prod_cases3)
  note c = recv_conserves [OF r Cons.prems(2)]
  obtain hbs1 where rest: "recv_calls r1 i1 as = (hbs1, r', i')"
    and hbs: "concat (map encode_heartbeat hbs) = packet_bytes res @ concat (map encode_heartbeat hbs1)"
    using Cons.prems(1) r by (auto split: prod.splits poll.splits sum.splits)
  from Cons.IH [OF rest] c
  have "reader_inv r' \<and> held r1 @ inbox_bytes i1 @ concat (map inbox_bytes as)
      = concat (map encode_heartbeat hbs1) @ held r' @ inbox_bytes i'"
    by (simp add: idle_inv)
  with c show ?case by (simp add: hbs) (metis append.assoc)
qed

text \<open>Once everything has arrived, each further call returns the next packet.\<close>

lemma recv_calls_drain:
  assumes "only_arrivals i" and "reader_idle r"
    and "held r @ inbox_bytes i = concat (map encode_heartbeat hbs)"
  shows "\<exists>r' i'. recv_calls r i (replicate (length hbs) []) = (hbs, r', i')
    \<and> held r' = [] \<and> inbox_bytes i' = []"
  using assms
proof (induction hbs arbitrary: r i)
  case Nil
  then show ?case by simp
next
  case (Cons hb hbs)
  let ?bytes = "held r @ inbox_bytes i"
  have b: "?bytes = encode_heartbeat hb @ concat (map encode_heartbeat hbs)" using Cons.prems by simp
  have "PACKET_SIZE \<le> length ?bytes" unfolding b by (simp add: pkt.length_enc)
  with recv_arrivals [OF Cons.prems(1) idle_inv [OF Cons.prems(2)]]
  obtain r1 i1 where r1: "recv r i = (Ready (Inr (decode_packet (take PACKET_SIZE ?bytes))), r1, i1)"
    "reader_idle r1" "held r1 = []" "only_arrivals i1" "inbox_bytes i1 = drop PACKET_SIZE ?bytes" by auto
  have hd: "decode_packet (take PACKET_SIZE ?bytes) = hb"
    and tl: "drop PACKET_SIZE ?bytes = concat (map encode_heartbeat hbs)"
    unfolding b by (simp_all add: pkt.length_enc pkt.dec_enc)
  from Cons.IH [OF r1(4,2)] r1(3,5) tl
  obtain r' i' where "recv_calls r1 i1 (replicate (length hbs) []) = (hbs, r', i')"
    "held r' = []" "inbox_bytes i' = []" by auto
  with r1(1) hd show ?case by simp
qed

lemma recv_calls_append:
  "recv_calls r i (as @ bs) =
     (case recv_calls r i as of (hbs, r', i') \<Rightarrow>
        (case recv_calls r' i' bs of (hbs', r'', i'') \<Rightarrow> (hbs @ hbs', r'', i'')))"
  by (induction as arbitrary: r i) (auto split: prod.splits poll.splits sum.splits)

lemma recv_calls_only_arrivals:
  assumes "recv_calls r i as = (hbs, r', i')" and "reader_idle r"
    and "only_arrivals i" and "list_all only_arrivals as"
  shows "reader_idle r' \<and> only_arrivals i'"
  using assms
proof (induction as arbitrary: r i hbs)
  case (Cons a as)
  obtain res r1 i1 where r: "recv r (i @ a) = (res, r1, i1)" by (metis prod_cases3)
  obtain hbs1 where rest: "recv_calls r1 i1 as = (hbs1, r', i')"
    using Cons.prems(1) r by (auto split: prod.splits poll.splits sum.splits)
  have "only_arrivals (i @ a)" using Cons.prems by simp
  from recv_arrivals [OF this idle_inv [OF Cons.prems(2)]] r
  have "reader_idle r1 \<and> only_arrivals i1" by auto
  with Cons.IH [OF rest] Cons.prems(4) show ?case by simp
qed simp

text \<open>A packet in one segment, and a closed stream.\<close>

lemma recv_packet:
  "\<exists>r. recv reader_new [Arrive (encode_packet s ts)] = (Ready (Inr \<lparr>hb_seq = s, hb_timestamp = ts\<rparr>), r, [])"
proof -
  have "encode_packet s ts \<noteq> []"
    by (metis PACKET_SIZE_def length_0_conv length_encode_packet zero_neq_numeral)
  then show ?thesis
    by (simp add: recv.simps reader_new_def reader_store_def) (simp add: PACKET_SIZE_def)
qed

lemma recv_heartbeat_packet:
  "recv_heartbeat [Arrive (encode_packet s ts)] = (Ready (Inr \<lparr>hb_seq = s, hb_timestamp = ts\<rparr>), [])"
  using recv_packet [of s ts] by (auto simp: recv_heartbeat_def)

lemma recv_heartbeat_eof: "recv_heartbeat [Eof] = (Ready (Inl UnexpectedEof), [Eof])"
  by (simp add: recv_heartbeat_def recv.simps reader_new_def PACKET_SIZE_def)

section \<open>Properties\<close>

text \<open>
  C2. The heartbeat stream survives every segmentation and every cut-off. The bytes of the
  packets \<open>hbs\<close> reach the reader in arbitrary pieces, and after each piece one \<open>recv\<close> call is
  made, which is dropped by its timeout when it would have to wait. Then the packets returned
  are the first ones sent, in order, and calling \<open>recv\<close> once more for each missing packet
  returns exactly the rest.
\<close>

theorem heartbeat_stream:
  assumes "list_all only_arrivals as"
    and "concat (map inbox_bytes as) = concat (map encode_heartbeat hbs)"
  shows "\<exists>n \<le> length hbs. fst (recv_calls reader_new [] as) = take n hbs
    \<and> fst (recv_calls reader_new [] (as @ replicate (length hbs - n) [])) = hbs"
proof -
  obtain got r i where run: "recv_calls reader_new [] as = (got, r, i)" by (metis prod_cases3)
  from recv_calls_conserves [OF run] assms(2)
  have all: "concat (map encode_heartbeat got) @ held r @ inbox_bytes i = concat (map encode_heartbeat hbs)"
    by (simp add: idle_inv)
  from pkt.stream_prefix [OF all] have got: "got = take (length got) hbs" .
  define n where "n = length got"
  from got have n: "n \<le> length hbs" unfolding n_def by (metis length_take min.cobounded1)
  have "concat (map encode_heartbeat hbs) = concat (map encode_heartbeat got) @ concat (map encode_heartbeat (drop n hbs))"
    using got unfolding n_def by (metis append_take_drop_id concat_append map_append)
  with all have rest: "held r @ inbox_bytes i = concat (map encode_heartbeat (drop n hbs))" by simp
  from recv_calls_only_arrivals [OF run] assms(1) have "reader_idle r" "only_arrivals i" by simp_all
  from recv_calls_drain [OF this(2,1) rest]
  have "fst (recv_calls reader_new [] (as @ replicate (length hbs - n) [])) = got @ drop n hbs"
    using run by (auto simp: recv_calls_append split: prod.splits)
  with got n run show ?thesis unfolding n_def by (metis append_take_drop_id fst_conv)
qed

theorem heartbeat_stream_witness:
  "\<exists>n \<le> length [\<lparr>hb_seq = 7, hb_timestamp = from_bits 5\<rparr>, \<lparr>hb_seq = 8, hb_timestamp = from_bits 6\<rparr>].
     fst (recv_calls reader_new [] [[Arrive (take 5 (encode_packet 7 (from_bits 5)))],
            [Arrive (drop 5 (encode_packet 7 (from_bits 5))), Arrive (encode_packet 8 (from_bits 6))]])
       = take n [\<lparr>hb_seq = 7, hb_timestamp = from_bits 5\<rparr>, \<lparr>hb_seq = 8, hb_timestamp = from_bits 6\<rparr>]
     \<and> fst (recv_calls reader_new [] ([[Arrive (take 5 (encode_packet 7 (from_bits 5)))],
            [Arrive (drop 5 (encode_packet 7 (from_bits 5))), Arrive (encode_packet 8 (from_bits 6))]]
            @ replicate (length [\<lparr>hb_seq = 7, hb_timestamp = from_bits 5\<rparr>, \<lparr>hb_seq = 8, hb_timestamp = from_bits 6\<rparr>] - n) []))
       = [\<lparr>hb_seq = 7, hb_timestamp = from_bits 5\<rparr>, \<lparr>hb_seq = 8, hb_timestamp = from_bits 6\<rparr>]"
  by (rule heartbeat_stream) (simp_all add: encode_heartbeat_def append_assoc [symmetric] del: append_assoc)

text \<open>
  C25. One call of \<open>recv\<close>, whatever it comes to (a packet, an error, or a wait that the caller
  may give up), neither loses nor invents a byte: what the reader held and the stream had is
  the returned packet, what the reader holds now, and what the stream still has, in order.
  After a returned packet the reader is empty, and it is always ready for the next call.
\<close>

theorem recv_loses_nothing:
  assumes "recv r i = (res, r', i')" and "reader_inv r"
  shows "held r @ inbox_bytes i = packet_bytes res @ held r' @ inbox_bytes i'
    \<and> reader_idle r' \<and> (\<forall>hb. res = Ready (Inr hb) \<longrightarrow> held r' = [])"
  using recv_conserves [OF assms] by blast

theorem recv_loses_nothing_witness:
  "\<exists>res r' i'. recv reader_new [Arrive [1, 2, 3], RdErr ConnectionReset, Arrive [4]] = (res, r', i')
     \<and> [1, 2, 3, 4] = packet_bytes res @ held r' @ inbox_bytes i'"
proof -
  obtain res r' i' where r: "recv reader_new [Arrive [1, 2, 3], RdErr ConnectionReset, Arrive [4]] = (res, r', i')"
    by (metis prod_cases3)
  from recv_loses_nothing [OF r] show ?thesis using r by (simp add: idle_inv)
qed

text \<open>
  C26. \<open>recv_heartbeat\<close> is not safe to cut off, as its documentation warns: a call that is
  dropped while it waits for the rest of a packet has consumed what had arrived, and the next
  call reads its packet from whatever arrives afterwards.
\<close>

theorem recv_heartbeat_drops:
  assumes "only_arrivals i" and "length (inbox_bytes i) < PACKET_SIZE"
    and "only_arrivals a" and "PACKET_SIZE \<le> length (inbox_bytes a)"
  shows "recv_heartbeat i = (Pending, [])
    \<and> fst (recv_heartbeat (snd (recv_heartbeat i) @ a)) = Ready (Inr (decode_packet (take PACKET_SIZE (inbox_bytes a))))"
  using recv_arrivals [OF assms(1) idle_inv [OF reader_new_idle(1)]] assms(2)
    recv_arrivals [OF assms(3) idle_inv [OF reader_new_idle(1)]] assms(4)
  by (auto simp: recv_heartbeat_def)

theorem recv_heartbeat_drops_witness:
  "fst (recv_heartbeat (snd (recv_heartbeat [Arrive [0, 0, 0, 0]]) @ [Arrive [0, 0, 0, 1, 0, 0, 0, 0, 0, 0, 0, 0, 0, 0, 0, 2]]))
   = Ready (Inr (decode_packet [0, 0, 0, 1, 0, 0, 0, 0, 0, 0, 0, 0, 0, 0, 0, 2]))"
  using recv_heartbeat_drops [of "[Arrive [0, 0, 0, 0]]" "[Arrive [0, 0, 0, 1, 0, 0, 0, 0, 0, 0, 0, 0, 0, 0, 0, 2]]"]
  by (simp add: PACKET_SIZE_def) (metis append_Nil snd_conv)

end
