(* ===== verification/Addr.thy ===== *)
theory Addr
  imports Utf8
begin

text \<open>
  Socket addresses of the Rust standard library: \<open>str::parse::<SocketAddr>()\<close>, the parser
  that \<open>config::bind_addr\<close> runs on \<open>host:port\<close>. A parser takes the text to the value read
  and the text left, or fails and consumes nothing. \<open>stops_at c P\<close> says that the parser \<open>P\<close>
  never looks past a character \<open>c\<close>; with it, \<open>parse_socket_addr_port\<close> shows that a host
  accepted with one port is accepted with every port.
\<close>

section \<open>Parser combinators\<close>

type_synonym 'a parser = "rstr \<Rightarrow> ('a \<times> rstr) option"

definition p_return :: "'a \<Rightarrow> 'a parser" where
  "p_return v s = Some (v, s)"

definition p_fail :: "'a parser" where
  "p_fail s = None"

definition p_bind :: "'a parser \<Rightarrow> ('a \<Rightarrow> 'b parser) \<Rightarrow> 'b parser" where
  "p_bind p q s = (case p s of None \<Rightarrow> None | Some (v, r) \<Rightarrow> q v r)"

text \<open>Run the parser; when it fails, carry on from the same place with \<open>None\<close>.\<close>

definition p_try :: "'a parser \<Rightarrow> 'a option parser" where
  "p_try p s = (case p s of None \<Rightarrow> Some (None, s) | Some (v, r) \<Rightarrow> Some (Some v, r))"

definition read_given_char :: "rchar \<Rightarrow> unit parser" where
  "read_given_char c s =
     (case s of [] \<Rightarrow> None | x # r \<Rightarrow> if x = c then Some ((), r) else None)"

definition read_separator :: "rchar \<Rightarrow> nat \<Rightarrow> 'a parser \<Rightarrow> 'a parser" where
  "read_separator c i p =
     (if 0 < i then p_bind (read_given_char c) (\<lambda>_. p) else p)"

section \<open>Numbers\<close>

definition to_digit :: "nat \<Rightarrow> rchar \<Rightarrow> nat option" where
  "to_digit radix c =
     (let d = if 0x30 \<le> c \<and> c \<le> 0x39 then c - 0x30
              else if 0x61 \<le> c \<and> c \<le> 0x7A then c - 0x61 + 10
              else if 0x41 \<le> c \<and> c \<le> 0x5A then c - 0x41 + 10
              else radix
      in if d < radix then Some d else None)"

definition is_digit_of :: "nat \<Rightarrow> rchar \<Rightarrow> bool" where
  "is_digit_of radix c \<longleftrightarrow> to_digit radix c \<noteq> None"

definition digits_value :: "nat \<Rightarrow> rstr \<Rightarrow> nat" where
  "digits_value radix ds = foldl (\<lambda>acc c. acc * radix + the (to_digit radix c)) 0 ds"

text \<open>
  \<open>read_number(radix, max_digits, allow_zero_prefix)\<close>: all digits that follow; none, too many,
  a forbidden leading zero and a value of the result type or above \<open>bound\<close> all fail.
\<close>

definition read_number :: "nat \<Rightarrow> nat option \<Rightarrow> bool \<Rightarrow> nat \<Rightarrow> nat parser" where
  "read_number radix max_digits allow_zero_prefix bound s =
     (let ds = takeWhile (is_digit_of radix) s;
          r = dropWhile (is_digit_of radix) s
      in if ds = [] then None
         else if (case max_digits of Some m \<Rightarrow> m < length ds | None \<Rightarrow> False) then None
         else if \<not> allow_zero_prefix \<and> hd ds = 0x30 \<and> 1 < length ds then None
         else if bound \<le> digits_value radix ds then None
         else Some (digits_value radix ds, r))"

section \<open>Addresses\<close>

datatype ip_addr = V4 "nat list" | V6 "nat list" nat

record socket_addr =
  sa_ip :: ip_addr
  sa_port :: nat

definition dot :: rchar where "dot = 0x2E"
definition colon :: rchar where "colon = 0x3A"
definition lbracket :: rchar where "lbracket = 0x5B"
definition rbracket :: rchar where "rbracket = 0x5D"
definition percent :: rchar where "percent = 0x25"

lemmas char_defs = dot_def colon_def lbracket_def rbracket_def percent_def

definition read_octet :: "nat \<Rightarrow> nat parser" where
  "read_octet i = read_separator dot i (read_number 10 (Some 3) False 256)"

definition read_ipv4_addr :: "nat list parser" where
  "read_ipv4_addr =
     p_bind (read_octet 0) (\<lambda>a. p_bind (read_octet 1) (\<lambda>b.
     p_bind (read_octet 2) (\<lambda>c. p_bind (read_octet 3) (\<lambda>d. p_return [a, b, c, d]))))"

text \<open>
  \<open>read_groups\<close> from group \<open>i\<close> on, \<open>k\<close> groups left to try: the groups read and whether the
  last two came from an embedded IPv4 address.
\<close>

fun read_groups :: "nat \<Rightarrow> nat \<Rightarrow> (nat list \<times> bool) parser" where
  "read_groups 0 i = p_return ([], False)"
| "read_groups (Suc k) i =
     p_bind (if 0 < k then p_try (read_separator colon i read_ipv4_addr) else p_return None)
       (\<lambda>v4. case v4 of
          Some os \<Rightarrow> p_return ([os ! 0 * 256 + os ! 1, os ! 2 * 256 + os ! 3], True)
        | None \<Rightarrow>
            p_bind (p_try (read_separator colon i (read_number 16 (Some 4) True 65536)))
              (\<lambda>g. case g of
                 None \<Rightarrow> p_return ([], False)
               | Some g \<Rightarrow> p_bind (read_groups k (Suc i)) (\<lambda>(gs, b). p_return (g # gs, b))))"

definition read_ipv6_addr :: "nat list parser" where
  "read_ipv6_addr =
     p_bind (read_groups 8 0) (\<lambda>(head, head_ipv4).
       if length head = 8 then p_return head
       else if head_ipv4 then p_fail
       else p_bind (read_given_char colon) (\<lambda>_. p_bind (read_given_char colon) (\<lambda>_.
            p_bind (read_groups (8 - (length head + 1)) 0) (\<lambda>(tail, _).
              p_return (head @ replicate (8 - length head - length tail) 0 @ tail)))))"

definition read_port :: "nat parser" where
  "read_port = p_bind (read_given_char colon) (\<lambda>_. read_number 10 None True 65536)"

definition read_scope_id :: "nat parser" where
  "read_scope_id = p_bind (read_given_char percent) (\<lambda>_. read_number 10 None True (2 ^ 32))"

text \<open>The address part of \<open>[v6%scope]\<close>, up to and with the closing bracket.\<close>

definition read_bracketed :: "ip_addr parser" where
  "read_bracketed =
     p_bind (read_given_char lbracket) (\<lambda>_. p_bind read_ipv6_addr (\<lambda>ip.
     p_bind (p_try read_scope_id) (\<lambda>sc. p_bind (read_given_char rbracket) (\<lambda>_.
       p_return (V6 ip (case sc of None \<Rightarrow> 0 | Some n \<Rightarrow> n))))))"

definition read_host :: "bool \<Rightarrow> ip_addr parser" where
  "read_host v6 = (if v6 then read_bracketed else p_bind read_ipv4_addr (\<lambda>os. p_return (V4 os)))"

definition read_sock :: "bool \<Rightarrow> socket_addr parser" where
  "read_sock v6 =
     p_bind (read_host v6) (\<lambda>ip. p_bind read_port (\<lambda>p. p_return \<lparr>sa_ip = ip, sa_port = p\<rparr>))"

definition read_socket_addr :: "socket_addr parser" where
  "read_socket_addr s = (case read_sock False s of Some x \<Rightarrow> Some x | None \<Rightarrow> read_sock True s)"

definition parse_socket_addr :: "rstr \<Rightarrow> socket_addr option" where
  "parse_socket_addr s =
     (case read_socket_addr s of Some (a, []) \<Rightarrow> Some a | _ \<Rightarrow> None)"

lemmas parser_defs =
  parse_socket_addr_def read_socket_addr_def read_sock_def p_bind_def p_return_def read_host_def
  read_ipv4_addr_def read_octet_def read_separator_def read_number_def is_digit_of_def to_digit_def
  digits_value_def char_defs read_given_char_def read_port_def

section \<open>Decimal text\<close>

text \<open>\<open>{port}\<close> in a format string.\<close>

fun show_nat :: "nat \<Rightarrow> rstr" where
  "show_nat n = (if n < 10 then [0x30 + n] else show_nat (n div 10) @ [0x30 + n mod 10])"

declare show_nat.simps [simp del]

lemma show_nat_nonempty [simp]: "show_nat n \<noteq> []"
  by (subst show_nat.simps) simp

lemma to_digit_decimal [simp]: "d < 10 \<Longrightarrow> to_digit 10 (0x30 + d) = Some d"
  by (simp add: to_digit_def)

lemma is_digit_decimal [simp]: "d < 10 \<Longrightarrow> is_digit_of 10 (0x30 + d)"
  by (simp add: is_digit_of_def)

lemma show_nat_digits: "list_all (is_digit_of 10) (show_nat n)"
proof (induction n rule: show_nat.induct)
  case (1 n)
  then show ?case
    by (subst show_nat.simps) auto
qed

lemma digits_value_snoc [simp]:
  "digits_value radix (ds @ [c]) = digits_value radix ds * radix + the (to_digit radix c)"
  by (simp add: digits_value_def)

lemma digits_value_show_nat: "digits_value 10 (show_nat n) = n"
proof (induction n rule: show_nat.induct)
  case (1 n)
  show ?case
  proof (cases "n < 10")
    case True
    then show ?thesis by (subst show_nat.simps) (simp add: digits_value_def)
  next
    case False
    with 1 have "digits_value 10 (show_nat (n div 10)) = n div 10" by simp
    with False show ?thesis by (subst show_nat.simps) simp
  qed
qed

lemma takeWhile_all: "list_all P xs \<Longrightarrow> takeWhile P xs = xs" "list_all P xs \<Longrightarrow> dropWhile P xs = []"
  by (auto simp: takeWhile_eq_all_conv dropWhile_eq_Nil_conv list_all_iff)

lemma read_port_show:
  assumes "p < 65536"
  shows "read_port (colon # show_nat p) = Some (p, [])"
  using assms show_nat_digits [of p]
  by (simp add: read_port_def p_bind_def read_given_char_def read_number_def takeWhile_all
      digits_value_show_nat Let_def)

section \<open>Parsers that stop at a character\<close>

text \<open>
  On a text with \<open>c\<close> in it the parser's outcome depends on what stands before \<open>c\<close> only.
\<close>

definition stops_at :: "rchar \<Rightarrow> 'a parser \<Rightarrow> bool" where
  "stops_at c p \<longleftrightarrow>
     (\<forall>u. \<exists>res. (\<forall>v t. res = Some (v, t) \<longrightarrow> set t \<subseteq> set u)
        \<and> (\<forall>r. p (u @ c # r) = map_option (\<lambda>(v, t). (v, t @ c # r)) res))"

lemma stops_atE:
  assumes "stops_at c p"
  obtains (fails) "\<And>r. p (u @ c # r) = None"
    | (reads) v t where "set t \<subseteq> set u" "\<And>r. p (u @ c # r) = Some (v, t @ c # r)"
proof -
  from assms obtain res where res: "\<And>v t. res = Some (v, t) \<Longrightarrow> set t \<subseteq> set u"
    "\<And>r. p (u @ c # r) = map_option (\<lambda>(v, t). (v, t @ c # r)) res"
    unfolding stops_at_def by metis
  show ?thesis
  proof (cases res)
    case None
    with res show ?thesis by (auto intro: fails)
  next
    case (Some vt)
    obtain v t where "vt = (v, t)" by (cases vt)
    with Some res show ?thesis by (intro reads) auto
  qed
qed

lemma stops_atI:
  assumes "\<And>u. (\<forall>r. p (u @ c # r) = None) \<or>
    (\<exists>v t. set t \<subseteq> set u \<and> (\<forall>r. p (u @ c # r) = Some (v, t @ c # r)))"
  shows "stops_at c p"
  unfolding stops_at_def
proof
  fix u
  from assms [of u] show "\<exists>res. (\<forall>v t. res = Some (v, t) \<longrightarrow> set t \<subseteq> set u)
      \<and> (\<forall>r. p (u @ c # r) = map_option (\<lambda>(v, t). (v, t @ c # r)) res)"
  proof
    assume "\<forall>r. p (u @ c # r) = None"
    then show ?thesis by (intro exI [of _ None]) simp
  next
    assume "\<exists>v t. set t \<subseteq> set u \<and> (\<forall>r. p (u @ c # r) = Some (v, t @ c # r))"
    then obtain v t where "set t \<subseteq> set u" "\<forall>r. p (u @ c # r) = Some (v, t @ c # r)" by blast
    then show ?thesis by (intro exI [of _ "Some (v, t)"]) simp
  qed
qed

lemma stops_return: "stops_at c (p_return v)"
  by (rule stops_atI) (auto simp: p_return_def)

lemma stops_fail: "stops_at c p_fail"
  by (rule stops_atI) (simp add: p_fail_def)

lemma stops_given: "d \<noteq> c \<Longrightarrow> stops_at c (read_given_char d)"
proof (rule stops_atI)
  fix u :: rstr
  assume "d \<noteq> c"
  then show "(\<forall>r. read_given_char d (u @ c # r) = None) \<or>
    (\<exists>v t. set t \<subseteq> set u \<and> (\<forall>r. read_given_char d (u @ c # r) = Some (v, t @ c # r)))"
    by (cases u) (auto simp: read_given_char_def)
qed

lemma stops_bind:
  assumes p: "stops_at c p" and q: "\<And>v. stops_at c (q v)"
  shows "stops_at c (p_bind p q)"
proof (rule stops_atI)
  fix u :: rstr
  from p show "(\<forall>r. p_bind p q (u @ c # r) = None) \<or>
    (\<exists>v t. set t \<subseteq> set u \<and> (\<forall>r. p_bind p q (u @ c # r) = Some (v, t @ c # r)))"
  proof (cases rule: stops_atE [of _ _ u])
    case fails
    then show ?thesis by (simp add: p_bind_def)
  next
    case (reads v t)
    from q [of v] show ?thesis
      by (cases rule: stops_atE [of _ _ t]) (use reads in \<open>auto simp: p_bind_def\<close>)
  qed
qed

lemma stops_try:
  assumes "stops_at c p"
  shows "stops_at c (p_try p)"
proof (rule stops_atI)
  fix u :: rstr
  from assms show "(\<forall>r. p_try p (u @ c # r) = None) \<or>
    (\<exists>v t. set t \<subseteq> set u \<and> (\<forall>r. p_try p (u @ c # r) = Some (v, t @ c # r)))"
    by (cases rule: stops_atE [of _ _ u]) (auto simp: p_try_def)
qed

lemma stops_separator: "d \<noteq> c \<Longrightarrow> stops_at c p \<Longrightarrow> stops_at c (read_separator d i p)"
  by (simp add: read_separator_def stops_bind stops_given)

lemma stops_number:
  assumes "\<not> is_digit_of radix c"
  shows "stops_at c (read_number radix m z b)"
proof (rule stops_atI)
  fix u :: rstr
  have tw: "takeWhile (is_digit_of radix) (u @ c # r) = takeWhile (is_digit_of radix) u"
    and dw: "dropWhile (is_digit_of radix) (u @ c # r) = dropWhile (is_digit_of radix) u @ c # r" for r
    using assms by (induction u) auto
  have "set (dropWhile (is_digit_of radix) u) \<subseteq> set u" by (auto dest: set_dropWhileD)
  then show "(\<forall>r. read_number radix m z b (u @ c # r) = None) \<or>
    (\<exists>v t. set t \<subseteq> set u \<and> (\<forall>r. read_number radix m z b (u @ c # r) = Some (v, t @ c # r)))"
    unfolding read_number_def tw dw Let_def by (auto split: option.splits)
qed

lemmas stops_intros =
  stops_return stops_fail stops_given stops_bind stops_try stops_separator stops_number

lemma stops_ipv4:
  assumes "c \<noteq> dot" and "\<not> is_digit_of 10 c"
  shows "stops_at c read_ipv4_addr"
  unfolding read_ipv4_addr_def read_octet_def using assms by (intro stops_intros) auto

lemma bracket_chars:
  "rbracket \<noteq> dot" "rbracket \<noteq> colon" "rbracket \<noteq> percent" "colon \<noteq> dot"
  "\<not> is_digit_of 10 rbracket" "\<not> is_digit_of 16 rbracket" "\<not> is_digit_of 10 colon"
  by (simp_all add: char_defs is_digit_of_def to_digit_def)

lemma stops_groups: "stops_at rbracket (read_groups k i)"
proof (induction k i rule: read_groups.induct)
  case (1 i)
  then show ?case by (simp add: stops_return)
next
  case (2 k i)
  show ?case
    unfolding read_groups.simps
    using bracket_chars 2 by (intro stops_bind) (auto intro!: stops_intros stops_ipv4 split: option.splits)
qed

lemma stops_ipv6: "stops_at rbracket read_ipv6_addr"
  unfolding read_ipv6_addr_def using bracket_chars stops_groups
  by (intro stops_bind) (auto intro!: stops_intros split: prod.splits)

text \<open>Parsers only ever drop characters from the front.\<close>

definition shrinks :: "'a parser \<Rightarrow> bool" where
  "shrinks p \<longleftrightarrow> (\<forall>s v t. p s = Some (v, t) \<longrightarrow> set t \<subseteq> set s)"

lemma shrinksD: "shrinks p \<Longrightarrow> p s = Some (v, t) \<Longrightarrow> set t \<subseteq> set s"
  by (simp add: shrinks_def)

lemma shrinks_basic: "shrinks (p_return v)" "shrinks p_fail" "shrinks (read_given_char c)"
  "shrinks (read_number radix m z b)"
  by (auto simp: shrinks_def p_return_def p_fail_def read_given_char_def read_number_def Let_def
      split: list.splits if_splits dest: set_dropWhileD)

lemma shrinks_bind: "shrinks p \<Longrightarrow> (\<And>v. shrinks (q v)) \<Longrightarrow> shrinks (p_bind p q)"
  unfolding shrinks_def p_bind_def by (fastforce split: option.splits)

lemma shrinks_try: "shrinks p \<Longrightarrow> shrinks (p_try p)"
  by (auto simp: shrinks_def p_try_def split: option.splits)

lemma shrinks_separator: "shrinks p \<Longrightarrow> shrinks (read_separator c i p)"
  by (simp add: read_separator_def shrinks_bind shrinks_basic)

lemmas shrinks_intros = shrinks_basic shrinks_bind shrinks_try shrinks_separator

lemma shrinks_ipv4: "shrinks read_ipv4_addr"
  unfolding read_ipv4_addr_def read_octet_def by (intro shrinks_intros)

lemma shrinks_groups: "shrinks (read_groups k i)"
proof (induction k i rule: read_groups.induct)
  case (2 k i)
  then show ?case
    unfolding read_groups.simps
    by (intro shrinks_bind) (auto intro!: shrinks_intros shrinks_ipv4 split: option.splits)
qed (simp add: shrinks_intros)

lemma shrinks_ipv6: "shrinks read_ipv6_addr"
  unfolding read_ipv6_addr_def
  by (intro shrinks_bind shrinks_groups) (auto intro!: shrinks_intros shrinks_groups split: prod.splits)

section \<open>The port is read independently of the host\<close>

lemma read_port_all:
  assumes "read_port s = Some (p, [])"
  obtains ds where "s = colon # ds" and "list_all (is_digit_of 10) ds"
proof -
  from assms obtain ds where s: "s = colon # ds" and "read_number 10 None True 65536 ds = Some (p, [])"
    by (auto simp: read_port_def p_bind_def read_given_char_def split: list.splits if_splits option.splits)
  then have "dropWhile (is_digit_of 10) ds = []"
    by (auto simp: read_number_def Let_def split: if_splits)
  then have "list_all (is_digit_of 10) ds" by (simp add: dropWhile_eq_Nil_conv list_all_iff)
  with s show ?thesis by (rule that)
qed

lemma read_port_last_colon:
  assumes "read_port (t @ colon # ds) = Some (p, [])"
  shows "t = []"
proof (rule ccontr)
  assume "t \<noteq> []"
  obtain ds' where "t @ colon # ds = colon # ds'" "list_all (is_digit_of 10) ds'"
    using assms by (rule read_port_all)
  with \<open>t \<noteq> []\<close> have "is_digit_of 10 colon"
    by (cases t) (auto simp: list_all_iff)
  with bracket_chars show False by simp
qed

text \<open>
  A host that is read off in front of one port is read off in front of any text that starts
  with a colon.
\<close>

lemma stops_at_colon:
  assumes "stops_at colon p" and "p (h @ colon # ds) = Some (v, s)" and "read_port s = Some (n, [])"
  shows "p (h @ colon # ds') = Some (v, colon # ds')"
  using assms(1)
proof (cases rule: stops_atE [of _ _ h])
  case (reads v' t)
  with assms(2) have s: "s = t @ colon # ds" "v' = v" by auto
  with assms(3) have "t = []" by (simp add: read_port_last_colon)
  with reads s show ?thesis by simp
qed (use assms(2) in simp)

text \<open>The address and the scope between the brackets.\<close>

definition bracket_body :: "ip_addr parser" where
  "bracket_body = p_bind read_ipv6_addr (\<lambda>ip. p_bind (p_try read_scope_id) (\<lambda>sc.
     p_return (V6 ip (case sc of None \<Rightarrow> 0 | Some n \<Rightarrow> n))))"

lemma read_bracketed_eq:
  "read_bracketed s = p_bind (read_given_char lbracket) (\<lambda>_. p_bind bracket_body (\<lambda>ip.
     p_bind (read_given_char rbracket) (\<lambda>_. p_return ip))) s"
  by (auto simp: read_bracketed_def bracket_body_def p_bind_def p_return_def split: option.splits)

lemma bracket_body_stops: "stops_at rbracket bracket_body"
  unfolding bracket_body_def read_scope_id_def using bracket_chars by (intro stops_intros stops_ipv6) auto

lemma bracket_body_shrinks: "shrinks bracket_body"
  unfolding bracket_body_def read_scope_id_def by (intro shrinks_intros shrinks_ipv6)

lemma read_bracketed_any_port:
  assumes host: "read_bracketed (h @ colon # ds) = Some (ip, s)"
    and port: "read_port s = Some (p, [])" and ds: "list_all (is_digit_of 10) ds"
  shows "read_bracketed (h @ colon # ds') = Some (ip, colon # ds')"
proof -
  from host obtain h' where h: "h = lbracket # h'" and b: "bracket_body (h' @ colon # ds) = Some (ip, rbracket # s)"
    by (cases h) (auto simp: read_bracketed_eq p_bind_def p_return_def read_given_char_def char_defs
        split: option.splits list.splits if_splits)
  with bracket_body_shrinks have "rbracket \<in> set (h' @ colon # ds)" by (force dest: shrinksD)
  then have "rbracket \<in> set h'"
    using ds bracket_chars by (auto simp: list_all_iff)
  then obtain u w where h': "h' = u @ rbracket # w" and first: "rbracket \<notin> set u"
    by (auto dest: split_list_first)
  from bracket_body_stops show ?thesis
  proof (cases rule: stops_atE [of _ _ u])
    case fails
    with b h' show ?thesis by simp
  next
    case (reads v t)
    with b h' first have s: "v = ip" "t = []" "s = w @ colon # ds"
      by (auto simp: append_eq_Cons_conv Cons_eq_append_conv)
    with port have "w = []" by (simp add: read_port_last_colon)
    with s reads(2) [of "colon # ds'"] h h' show ?thesis
      by (simp add: read_bracketed_eq p_bind_def p_return_def read_given_char_def)
  qed
qed

lemma read_host_any_port:
  assumes "read_host v6 (h @ colon # ds) = Some (ip, s)"
    and "read_port s = Some (p, [])" and "list_all (is_digit_of 10) ds"
  shows "read_host v6 (h @ colon # ds') = Some (ip, colon # ds')"
proof (cases v6)
  case False
  have "stops_at colon (read_host v6)"
    unfolding read_host_def using False bracket_chars by (auto intro!: stops_intros stops_ipv4)
  from stops_at_colon [OF this assms(1,2)] show ?thesis .
next
  case True
  with assms read_bracketed_any_port [of h ds ip s p] show ?thesis by (simp add: read_host_def)
qed

lemma read_sock_iff:
  "read_sock v6 s = Some (a, r) \<longleftrightarrow>
     (\<exists>ip t p. read_host v6 s = Some (ip, t) \<and> read_port t = Some (p, r) \<and> a = \<lparr>sa_ip = ip, sa_port = p\<rparr>)"
  by (auto simp: read_sock_def p_bind_def p_return_def split: option.splits)

text \<open>A bracketed address is not read as IPv4, whatever follows.\<close>

lemma read_bracketed_head: "read_host True (c # s) = Some x \<Longrightarrow> c = lbracket"
  by (simp add: read_host_def read_bracketed_def p_bind_def read_given_char_def split: if_splits)

lemma not_ipv4_bracket: "read_sock False (lbracket # s) = None"
proof -
  have "\<not> is_digit_of 10 lbracket" by (simp add: char_defs is_digit_of_def to_digit_def)
  then have "read_octet 0 (lbracket # s) = None"
    by (simp add: read_octet_def read_separator_def read_number_def)
  then show ?thesis
    by (simp add: read_sock_def read_host_def read_ipv4_addr_def p_bind_def)
qed

lemma bracket_not_ipv4:
  assumes "read_host True (h @ r) = Some x" and "h \<noteq> []"
  shows "read_sock False (h @ r') = None"
  using assms by (cases h) (auto dest: read_bracketed_head simp: not_ipv4_bracket)

lemma parse_socket_addr_port:
  assumes "parse_socket_addr (h @ colon # show_nat p) = Some a" and "q < 65536"
  shows "parse_socket_addr (h @ colon # show_nat q) = Some (a\<lparr>sa_port := q\<rparr>)"
proof -
  from assms(1) have "read_socket_addr (h @ colon # show_nat p) = Some (a, [])"
    by (auto simp: parse_socket_addr_def split: option.splits list.splits)
  then obtain v6 where r: "read_sock v6 (h @ colon # show_nat p) = Some (a, [])"
    and v6: "v6 \<Longrightarrow> read_sock False (h @ colon # show_nat p) = None"
    by (auto simp: read_socket_addr_def split: option.splits)
  from r obtain ip t p' where host: "read_host v6 (h @ colon # show_nat p) = Some (ip, t)"
    and port: "read_port t = Some (p', [])" and a: "a = \<lparr>sa_ip = ip, sa_port = p'\<rparr>"
    by (auto simp: read_sock_iff)
  from read_host_any_port [OF host port show_nat_digits]
  have q: "read_sock v6 (h @ colon # show_nat q) = Some (a\<lparr>sa_port := q\<rparr>, [])"
    using read_port_show [OF assms(2)] by (simp add: read_sock_iff a)
  have "h \<noteq> []" if v6
    using host that by (auto simp: read_host_def read_bracketed_def p_bind_def read_given_char_def char_defs
        split: if_splits)
  with host have "read_sock False (h @ colon # show_nat q) = None" if v6
    using that bracket_not_ipv4 by (metis (full_types))
  with q have "read_socket_addr (h @ colon # show_nat q) = Some (a\<lparr>sa_port := q\<rparr>, [])"
    by (cases v6) (simp_all add: read_socket_addr_def)
  then show ?thesis by (simp add: parse_socket_addr_def)
qed

end
