(* ===== verification/Config.thy ===== *)
theory Config
  imports Addr Float64
begin

text \<open>
  \<open>src/config.rs\<close>: the configuration records, the defaults of omitted fields, the validation
  rules, and \<open>parse\<close> and \<open>load\<close>. The TOML reader is a parameter: a function from the text to
  an error message or the fields present in the file (\<open>raw_config\<close>). \<open>config_ok\<close> is the
  abstract statement of the rules that \<open>validate\<close> decides.
\<close>

section \<open>The configuration\<close>

record node_config =
  nc_name :: rstr

record server_config =
  sc_bind :: rstr
  sc_heartbeat_port :: u16
  sc_metrics_port :: u16
  sc_probe_port :: u16
  sc_heartbeat_recv_timeout :: u64
  sc_probe_idle_timeout :: u64

record client_config =
  cc_heartbeat_interval :: u64
  cc_max_misses :: u32
  cc_reconnect_delay :: u64

record peer_config =
  pc_name :: rstr
  pc_host :: rstr
  pc_heartbeat_port :: u16

record config =
  cfg_node :: node_config
  cfg_server :: server_config
  cfg_client :: "client_config option"
  cfg_peers :: "peer_config list"

definition default_peer_heartbeat_port :: u16 where
  "default_peer_heartbeat_port = 9700"

definition default_heartbeat_interval :: u64 where
  "default_heartbeat_interval = 30"

definition default_max_misses :: u32 where
  "default_max_misses = 3"

definition default_reconnect_delay :: u64 where
  "default_reconnect_delay = 10"

definition MAX_SECONDS :: u64 where
  "MAX_SECONDS = 86400"

section \<open>Fields as they stand in the file\<close>

text \<open>A field with a serde default is optional here; the others are always present.\<close>

record raw_client =
  rc_heartbeat_interval :: "u64 option"
  rc_max_misses :: "u32 option"
  rc_reconnect_delay :: "u64 option"

record raw_peer =
  rp_name :: rstr
  rp_host :: rstr
  rp_heartbeat_port :: "u16 option"

record raw_config =
  raw_node :: node_config
  raw_server :: server_config
  raw_clientsec :: "raw_client option"
  raw_peers :: "raw_peer list option"

definition or_default :: "'a option \<Rightarrow> 'a \<Rightarrow> 'a" where
  "or_default x d = (case x of None \<Rightarrow> d | Some v \<Rightarrow> v)"

definition fill_client :: "raw_client \<Rightarrow> client_config" where
  "fill_client c =
     \<lparr>cc_heartbeat_interval = or_default (rc_heartbeat_interval c) default_heartbeat_interval,
      cc_max_misses = or_default (rc_max_misses c) default_max_misses,
      cc_reconnect_delay = or_default (rc_reconnect_delay c) default_reconnect_delay\<rparr>"

definition fill_peer :: "raw_peer \<Rightarrow> peer_config" where
  "fill_peer p =
     \<lparr>pc_name = rp_name p, pc_host = rp_host p,
      pc_heartbeat_port = or_default (rp_heartbeat_port p) default_peer_heartbeat_port\<rparr>"

definition fill_config :: "raw_config \<Rightarrow> config" where
  "fill_config r =
     \<lparr>cfg_node = raw_node r, cfg_server = raw_server r,
      cfg_client = map_option fill_client (raw_clientsec r),
      cfg_peers = map fill_peer (or_default (raw_peers r) [])\<rparr>"

section \<open>Validation\<close>

datatype config_error =
    ReadFailed rstr io_kind
  | ParseFailed rstr
  | EmptyNodeName
  | BindNotIp rstr
  | SharedPort string string u16
  | BelowMin string u64
  | AboveMax string
  | EmptyPeerName
  | EmptyPeerHost rstr
  | DuplicatePeer rstr
  | InFile rstr config_error

definition bind_addr :: "rstr \<Rightarrow> u16 \<Rightarrow> config_error + socket_addr" where
  "bind_addr host port =
     (case parse_socket_addr (host @ colon # show_nat (unat port)) of
        Some a \<Rightarrow> Inr a
      | None \<Rightarrow> Inl (BindNotIp host))"

fun check_ports :: "(string \<times> u16) list \<Rightarrow> config_error + unit" where
  "check_ports [] = Inr ()"
| "check_ports ((name_a, port_a) # rest) =
     (case find (\<lambda>(name_b, port_b). port_a = port_b) rest of
        Some (name_b, _) \<Rightarrow> Inl (SharedPort name_a name_b port_a)
      | None \<Rightarrow> check_ports rest)"

fun check_timings :: "(string \<times> u64 \<times> u64) list \<Rightarrow> config_error + unit" where
  "check_timings [] = Inr ()"
| "check_timings ((field, value, mn) # rest) =
     (if value < mn then Inl (BelowMin field mn)
      else if value > MAX_SECONDS then Inl (AboveMax field)
      else check_timings rest)"

fun check_peers :: "rstr set \<Rightarrow> peer_config list \<Rightarrow> config_error + unit" where
  "check_peers seen [] = Inr ()"
| "check_peers seen (peer # rest) =
     (if pc_name peer = [] then Inl EmptyPeerName
      else if pc_host peer = [] then Inl (EmptyPeerHost (pc_name peer))
      else if pc_name peer \<in> seen then Inl (DuplicatePeer (pc_name peer))
      else check_peers (insert (pc_name peer) seen) rest)"

definition config_timings :: "config \<Rightarrow> (string \<times> u64 \<times> u64) list" where
  "config_timings c =
     [(''server.heartbeat_recv_timeout'', sc_heartbeat_recv_timeout (cfg_server c), 1),
      (''server.probe_idle_timeout'', sc_probe_idle_timeout (cfg_server c), 0)] @
     (case cfg_client c of
        None \<Rightarrow> []
      | Some cl \<Rightarrow>
          [(''client.heartbeat_interval'', cc_heartbeat_interval cl, 1),
           (''client.reconnect_delay'', cc_reconnect_delay cl, 1)])"

definition validate :: "config \<Rightarrow> config_error + unit" where
  "validate c =
     (if nc_name (cfg_node c) = [] then Inl EmptyNodeName
      else case bind_addr (sc_bind (cfg_server c)) 0 of
        Inl e \<Rightarrow> Inl e
      | Inr _ \<Rightarrow>
          (case check_ports
                  [(''heartbeat_port'', sc_heartbeat_port (cfg_server c)),
                   (''metrics_port'', sc_metrics_port (cfg_server c)),
                   (''probe_port'', sc_probe_port (cfg_server c))] of
             Inl e \<Rightarrow> Inl e
           | Inr _ \<Rightarrow>
               (case check_timings (config_timings c) of
                  Inl e \<Rightarrow> Inl e
                | Inr _ \<Rightarrow> check_peers {} (cfg_peers c))))"

definition parse :: "(rstr \<Rightarrow> rstr + raw_config) \<Rightarrow> rstr \<Rightarrow> config_error + config" where
  "parse from_toml text =
     (case from_toml text of
        Inl e \<Rightarrow> Inl (ParseFailed e)
      | Inr raw \<Rightarrow>
          (let cfg = fill_config raw
           in case validate cfg of Inl e \<Rightarrow> Inl e | Inr _ \<Rightarrow> Inr cfg))"

definition load ::
    "(rstr \<Rightarrow> rstr io_result) \<Rightarrow> (rstr \<Rightarrow> rstr + raw_config) \<Rightarrow> rstr \<Rightarrow> config_error + config" where
  "load read_file from_toml path =
     (case read_file path of
        Inl k \<Rightarrow> Inl (ReadFailed path k)
      | Inr text \<Rightarrow>
          (case parse from_toml text of Inl e \<Rightarrow> Inl (InFile path e) | Inr cfg \<Rightarrow> Inr cfg))"

section \<open>The rules, abstractly\<close>

definition timing_ok :: "u64 \<Rightarrow> u64 \<Rightarrow> bool" where
  "timing_ok mn v \<longleftrightarrow> mn \<le> v \<and> v \<le> MAX_SECONDS"

definition client_ok :: "client_config \<Rightarrow> bool" where
  "client_ok c \<longleftrightarrow> timing_ok 1 (cc_heartbeat_interval c) \<and> timing_ok 1 (cc_reconnect_delay c)"

definition server_ok :: "server_config \<Rightarrow> bool" where
  "server_ok s \<longleftrightarrow>
     parse_socket_addr (sc_bind s @ lit '':0'') \<noteq> None
     \<and> distinct [sc_heartbeat_port s, sc_metrics_port s, sc_probe_port s]
     \<and> timing_ok 1 (sc_heartbeat_recv_timeout s) \<and> timing_ok 0 (sc_probe_idle_timeout s)"

definition peers_ok :: "peer_config list \<Rightarrow> bool" where
  "peers_ok ps \<longleftrightarrow>
     distinct (map pc_name ps) \<and> (\<forall>p \<in> set ps. pc_name p \<noteq> [] \<and> pc_host p \<noteq> [])"

definition config_ok :: "config \<Rightarrow> bool" where
  "config_ok c \<longleftrightarrow>
     nc_name (cfg_node c) \<noteq> [] \<and> server_ok (cfg_server c)
     \<and> (case cfg_client c of None \<Rightarrow> True | Some cl \<Rightarrow> client_ok cl) \<and> peers_ok (cfg_peers c)"

section \<open>Lemmas\<close>

lemma find_port:
  "find (\<lambda>(name_b, port_b). p = port_b) ps = None \<longleftrightarrow> p \<notin> snd ` set ps"
  by (induction ps) auto

lemma check_ports_iff: "check_ports ps = Inr () \<longleftrightarrow> distinct (map snd ps)"
proof (induction ps rule: check_ports.induct)
  case (2 na pa rest)
  show ?case
  proof (cases "find (\<lambda>(name_b, port_b). pa = port_b) rest")
    case None
    then have "pa \<notin> snd ` set rest" by (simp only: find_port simp_thms)
    with None 2 show ?thesis by simp
  next
    case (Some x)
    then have "pa \<in> snd ` set rest" using find_port [of pa rest] by simp
    with Some show ?thesis by (simp split: prod.splits)
  qed
qed simp

lemma check_timings_iff:
  "check_timings ts = Inr () \<longleftrightarrow> (\<forall>(f, v, mn) \<in> set ts. timing_ok mn v)"
  by (induction ts rule: check_timings.induct) (auto simp: timing_ok_def)

lemma check_peers_iff:
  "check_peers seen ps = Inr () \<longleftrightarrow> peers_ok ps \<and> set (map pc_name ps) \<inter> seen = {}"
  by (induction seen ps rule: check_peers.induct) (auto simp: peers_ok_def)

lemma show_nat_0: "show_nat 0 = lit ''0''"
  by (simp add: show_nat.simps lit_def of_char_def horner_sum_simps)

lemma colon_zero: "colon # show_nat 0 = lit '':0''"
  by (simp add: show_nat_0 lit_def colon_def of_char_def horner_sum_simps)

lemma bind_addr_zero:
  "(\<exists>a. bind_addr h 0 = Inr a) \<longleftrightarrow> parse_socket_addr (h @ lit '':0'') \<noteq> None"
  by (simp add: bind_addr_def colon_zero split: option.splits)

text \<open>
  A host accepted with port 0 can be combined with every port, with the same IP address: binding
  the listeners of a validated configuration never fails on the address text.
\<close>

lemma bind_addr_any_port:
  assumes "bind_addr h 0 = Inr a"
  shows "bind_addr h p = Inr (a\<lparr>sa_port := unat p\<rparr>)"
proof -
  have p: "unat p < 65536" using unsigned_less [of p] by simp
  from assms have "parse_socket_addr (h @ colon # show_nat 0) = Some a"
    by (simp add: bind_addr_def split: option.splits)
  from parse_socket_addr_port [OF this p] show ?thesis by (simp add: bind_addr_def)
qed

lemma sum_unit_iff: "(x :: 'e + unit) = Inr () \<longleftrightarrow> (\<exists>u. x = Inr u)"
  by (cases x) auto

lemma validate_steps:
  "validate c = Inr () \<longleftrightarrow>
     nc_name (cfg_node c) \<noteq> [] \<and> (\<exists>a. bind_addr (sc_bind (cfg_server c)) 0 = Inr a)
     \<and> check_ports
         [(''heartbeat_port'', sc_heartbeat_port (cfg_server c)),
          (''metrics_port'', sc_metrics_port (cfg_server c)),
          (''probe_port'', sc_probe_port (cfg_server c))] = Inr ()
     \<and> check_timings (config_timings c) = Inr () \<and> check_peers {} (cfg_peers c) = Inr ()"
  by (auto simp: validate_def simp del: check_ports.simps split: sum.splits if_splits)

lemma validate_iff_ok: "validate c = Inr () \<longleftrightarrow> config_ok c"
  unfolding validate_steps bind_addr_zero check_ports_iff check_timings_iff check_peers_iff
  by (auto simp: config_ok_def server_ok_def client_ok_def config_timings_def split: option.splits)

lemma parse_ok: "parse from_toml text = Inr c \<Longrightarrow> config_ok c"
  by (auto simp: parse_def Let_def validate_iff_ok [symmetric] split: sum.splits)

lemma load_ok: "load read_file from_toml path = Inr c \<Longrightarrow> config_ok c"
  by (auto simp: load_def parse_ok split: sum.splits)

text \<open>Timing fields of a valid configuration are small enough for timer arithmetic.\<close>

lemma MAX_SECONDS_unat: "unat MAX_SECONDS = 86400"
  by (simp add: MAX_SECONDS_def)

lemma timing_ok_unat: "timing_ok mn v \<Longrightarrow> unat v \<le> 86400"
  unfolding timing_ok_def word_le_nat_alt MAX_SECONDS_unat by simp

lemma timing_ok_pos: "timing_ok 1 v \<Longrightarrow> 0 < unat v"
  by (auto simp: timing_ok_def word_le_nat_alt)

text \<open>The wildcard address of the example configuration is accepted.\<close>

lemma bind_any_ipv4: "bind_addr (lit ''0.0.0.0'') 0 = Inr \<lparr>sa_ip = V4 [0, 0, 0, 0], sa_port = 0\<rparr>"
  by (simp add: bind_addr_def show_nat_0 lit_def of_char_def horner_sum_simps parser_defs Let_def)

text \<open>The settings of \<open>config.example.toml\<close>, with one peer.\<close>

definition example_server :: server_config where
  "example_server =
     \<lparr>sc_bind = lit ''0.0.0.0'', sc_heartbeat_port = 9700, sc_metrics_port = 9702, sc_probe_port = 9701,
      sc_heartbeat_recv_timeout = 90, sc_probe_idle_timeout = 30\<rparr>"

definition example_client :: client_config where
  "example_client = \<lparr>cc_heartbeat_interval = 30, cc_max_misses = 3, cc_reconnect_delay = 10\<rparr>"

definition example_peer :: peer_config where
  "example_peer = \<lparr>pc_name = lit ''n2'', pc_host = lit ''n2.example'', pc_heartbeat_port = 9700\<rparr>"

definition example_config :: config where
  "example_config =
     \<lparr>cfg_node = \<lparr>nc_name = lit ''n1''\<rparr>, cfg_server = example_server,
      cfg_client = Some example_client, cfg_peers = [example_peer]\<rparr>"

lemma example_config_ok: "config_ok example_config"
proof -
  have "parse_socket_addr (lit ''0.0.0.0'' @ lit '':0'') \<noteq> None"
    using bind_addr_zero [of "lit ''0.0.0.0''"] bind_any_ipv4 by blast
  then show ?thesis
    by (simp add: config_ok_def example_config_def server_ok_def example_server_def client_ok_def example_client_def
        peers_ok_def example_peer_def timing_ok_def MAX_SECONDS_def lit_def)
qed

section \<open>Properties\<close>

text \<open>
  C15. \<open>validate\<close> accepts exactly the configurations that satisfy the documented rules: a node
  name, a bind address that is an IP address, three different ports, timing values within
  their minimum and one day, and peers with distinct non-empty names and non-empty hosts.
\<close>

theorem validate_complete: "validate c = Inr () \<longleftrightarrow> config_ok c"
  by (rule validate_iff_ok)

end
