(* ===== verification/World.thy ===== *)
theory World
  imports Metrics Reader Config
begin

text \<open>
  What all tasks of one process share: the clocks and the metrics. \<open>w_mono\<close> is tokio's
  monotonic \<open>Instant\<close> in nanoseconds, \<open>w_wall\<close> the \<open>SystemTime\<close> that \<open>now_f64\<close> reads; the
  two advance independently, since the wall clock may be stepped either way.
\<close>

type_synonym instant = nat

record world =
  w_mono :: instant
  w_wall :: sys_time
  w_metrics :: metrics

definition w_emit :: "metric_call list \<Rightarrow> world \<Rightarrow> world" where
  "w_emit cs w = w\<lparr>w_metrics := emit cs (w_metrics w)\<rparr>"

definition w_tick :: "nat \<Rightarrow> sys_time \<Rightarrow> world \<Rightarrow> world" where
  "w_tick d t w = w\<lparr>w_mono := w_mono w + d, w_wall := t\<rparr>"

definition w_now :: "world \<Rightarrow> f64" where
  "w_now w = now_f64 (w_wall w)"

abbreviation w_calls :: "world \<Rightarrow> metric_call list" where
  "w_calls w \<equiv> calls (w_metrics w)"

abbreviation w_peers :: "world \<Rightarrow> rstr set" where
  "w_peers w \<equiv> server_peers (w_metrics w)"

text \<open>The state at the start of the process, with the wall clock at a given time.\<close>

definition fresh_world :: "sys_time \<Rightarrow> world" where
  "fresh_world t = \<lparr>w_mono = 0, w_wall = t, w_metrics = metrics_new\<rparr>"

lemma fresh_world_simps [simp]:
  "w_mono (fresh_world t) = 0" "w_wall (fresh_world t) = t" "w_metrics (fresh_world t) = metrics_new"
  by (simp_all add: fresh_world_def)

lemma w_emit_simps [simp]:
  "w_mono (w_emit cs w) = w_mono w" "w_wall (w_emit cs w) = w_wall w" "w_now (w_emit cs w) = w_now w"
  "calls (w_metrics (w_emit cs w)) = w_calls w @ cs" "server_peers (w_metrics (w_emit cs w)) = w_peers w"
  "registry (w_metrics (w_emit cs w)) = registry (w_metrics w)"
  by (simp_all add: w_emit_def w_now_def)

lemma w_tick_simps [simp]:
  "w_mono (w_tick d t w) = w_mono w + d" "w_wall (w_tick d t w) = t" "w_metrics (w_tick d t w) = w_metrics w"
  by (simp_all add: w_tick_def)

end
