(* ===== verification/Connection.thy ===== *)
theory Connection
  imports World
begin

text \<open>
  One inbound heartbeat connection of \<open>src/server.rs\<close>: \<open>handle_connection\<close> and
  \<open>drive_session\<close> as a machine that runs from one \<open>await\<close> to the next. \<open>cn_pc\<close> says where it
  is: not polled yet, waiting for the handshake, for a heartbeat or for an echo to be written,
  or done. A poll of a waiting future takes effect when the future is ready or its timeout has
  passed; until then there is no step, and the bytes stay in the inbox.
\<close>

section \<open>State\<close>

definition HANDSHAKE_TIMEOUT_SECS :: u64 where
  "HANDSHAKE_TIMEOUT_SECS = 5"

datatype conn_pc =
    CStart
  | CHandshake
  | CRecv
  | CWrite heartbeat
  | CDone "string option"

record conn =
  cn_pc :: conn_pc
  cn_inbox :: inbox
  cn_out :: wstream
  cn_node :: rstr
  cn_timeout :: u64
  cn_peer :: rstr
  cn_start :: f64
  cn_deadline :: instant

datatype conn_event =
    CTick nat sys_time
  | CArrives inbox
  | CPoll

type_synonym conn_state = "world \<times> conn"

text \<open>A connection as the accept loop hands it over; \<open>faults\<close> are the write errors to come.\<close>

definition conn_spawn :: "rstr \<Rightarrow> u64 \<Rightarrow> (nat \<times> io_kind) option list \<Rightarrow> conn" where
  "conn_spawn node_name heartbeat_recv_timeout faults =
     \<lparr>cn_pc = CStart, cn_inbox = [], cn_out = \<lparr>sent = [], wfaults = faults\<rparr>,
      cn_node = node_name, cn_timeout = heartbeat_recv_timeout,
      cn_peer = [], cn_start = from_bits 0,
      cn_deadline = 0\<rparr>"

section \<open>Metrics of a session\<close>

definition conn_label :: "conn \<Rightarrow> peer_label" where
  "conn_label c = \<lparr>pl_node = cn_node c, pl_peer = cn_peer c\<rparr>"

definition server_start_calls :: "peer_label \<Rightarrow> f64 \<Rightarrow> metric_call list" where
  "server_start_calls label start_ts =
     [GaugeSet server_session_active label 1,
      FloatSet server_session_start label start_ts,
      CounterInc server_sessions_total label]"

definition server_beat_calls :: "peer_label \<Rightarrow> f64 \<Rightarrow> f64 \<Rightarrow> metric_call list" where
  "server_beat_calls label start_ts now =
     [CounterInc server_heartbeats_rx label,
      FloatSet server_last_heartbeat label now,
      FloatSet server_session_duration label (f64_sub now start_ts)]"

definition server_end_calls :: "peer_label \<Rightarrow> f64 \<Rightarrow> string \<Rightarrow> metric_call list" where
  "server_end_calls label duration reason =
     [GaugeSet server_session_active label 0,
      FloatSet server_session_duration label duration,
      DisconnectInc server_disconnects (reason_label (pl_node label) (pl_peer label) reason)]"

section \<open>Steps\<close>

fun recv_error_reason :: "io_kind \<Rightarrow> string" where
  "recv_error_reason ConnectionReset = ''connection_reset''"
| "recv_error_reason UnexpectedEof = ''remote_close''"
| "recv_error_reason BrokenPipe = ''remote_close''"
| "recv_error_reason _ = ''local_error''"

fun write_error_reason :: "io_kind \<Rightarrow> string" where
  "write_error_reason BrokenPipe = ''connection_reset''"
| "write_error_reason ConnectionReset = ''connection_reset''"
| "write_error_reason _ = ''local_error''"

text \<open>The next turn of the receive loop: a fresh timeout around \<open>recv_heartbeat\<close>.\<close>

definition conn_await :: "conn_state \<Rightarrow> conn_state" where
  "conn_await s =
     (case s of (w, c) \<Rightarrow>
        (w, c\<lparr>cn_pc := CRecv, cn_deadline := w_mono w + from_secs (cn_timeout c)\<rparr>))"

definition conn_finish :: "string \<Rightarrow> conn_state \<Rightarrow> conn_state" where
  "conn_finish reason s =
     (case s of (w, c) \<Rightarrow>
        (w_emit (server_end_calls (conn_label c) (f64_sub (w_now w) (cn_start c)) reason) w,
         c\<lparr>cn_pc := CDone (Some reason)\<rparr>))"

text \<open>After a handshake: the peer cap, the labels, the start metrics, the first wait.\<close>

definition conn_admit :: "rstr \<Rightarrow> conn_state \<Rightarrow> conn_state" where
  "conn_admit peer_name s =
     (case s of (w, c) \<Rightarrow>
        (case try_register peer_name (w_peers w) of
           (False, seen) \<Rightarrow> (w, c\<lparr>cn_pc := CDone None\<rparr>)
         | (True, seen) \<Rightarrow>
             (let w = w\<lparr>w_metrics := (w_metrics w)\<lparr>server_peers := seen\<rparr>\<rparr>;
                  c = c\<lparr>cn_peer := peer_name, cn_start := w_now w\<rparr>
              in conn_await
                   (w_emit (init_calls (cn_node c) peer_name
                              @ server_start_calls (conn_label c) (cn_start c)) w, c))))"

definition conn_poll :: "(rchar \<Rightarrow> bool) \<Rightarrow> conn_state \<Rightarrow> conn_state option" where
  "conn_poll uni s =
     (case s of (w, c) \<Rightarrow>
        (case cn_pc c of
           CStart \<Rightarrow>
             Some (w, c\<lparr>cn_pc := CHandshake, cn_deadline := w_mono w + from_secs HANDSHAKE_TIMEOUT_SECS\<rparr>)
         | CHandshake \<Rightarrow>
             (case recv_handshake uni (cn_deadline c \<le> w_mono w) (cn_inbox c) of
                (Pending, _) \<Rightarrow> None
              | (Ready (Inl _), i) \<Rightarrow> Some (w, c\<lparr>cn_inbox := i, cn_pc := CDone None\<rparr>)
              | (Ready (Inr peer_name), i) \<Rightarrow> Some (conn_admit peer_name (w, c\<lparr>cn_inbox := i\<rparr>)))
         | CRecv \<Rightarrow>
             (case recv_heartbeat (cn_inbox c) of
                (Pending, i) \<Rightarrow>
                  if cn_deadline c \<le> w_mono w
                  then Some (conn_finish ''timeout'' (w, c\<lparr>cn_inbox := i\<rparr>)) else None
              | (Ready (Inl e), i) \<Rightarrow>
                  Some (conn_finish (recv_error_reason e) (w, c\<lparr>cn_inbox := i\<rparr>))
              | (Ready (Inr hb), i) \<Rightarrow>
                  Some (w_emit (server_beat_calls (conn_label c) (cn_start c) (w_now w)) w,
                        c\<lparr>cn_inbox := i, cn_pc := CWrite hb\<rparr>))
         | CWrite hb \<Rightarrow>
             (case write_all (encode_packet (hb_seq hb) (hb_timestamp hb)) (cn_out c) of
                (Inl e, out) \<Rightarrow> Some (conn_finish (write_error_reason e) (w, c\<lparr>cn_out := out\<rparr>))
              | (Inr _, out) \<Rightarrow> Some (conn_await (w, c\<lparr>cn_out := out\<rparr>)))
         | CDone _ \<Rightarrow> None))"

definition conn_step :: "(rchar \<Rightarrow> bool) \<Rightarrow> conn_state \<Rightarrow> conn_event \<Rightarrow> conn_state option" where
  "conn_step uni s e =
     (case e of
        CTick d t \<Rightarrow> Some (w_tick d t (fst s), snd s)
      | CArrives i \<Rightarrow> Some (fst s, (snd s)\<lparr>cn_inbox := cn_inbox (snd s) @ i\<rparr>)
      | CPoll \<Rightarrow> conn_poll uni s)"

section \<open>What a connection has done so far\<close>

text \<open>The calls of a session that has recorded heartbeats at the times \<open>nows\<close>.\<close>

definition session_calls :: "conn \<Rightarrow> f64 list \<Rightarrow> metric_call list" where
  "session_calls c nows =
     init_calls (cn_node c) (cn_peer c) @ server_start_calls (conn_label c) (cn_start c)
     @ concat (map (server_beat_calls (conn_label c) (cn_start c)) nows)"

lemma session_calls_snoc:
  "session_calls c (nows @ [t]) = session_calls c nows @ server_beat_calls (conn_label c) (cn_start c) t"
  by (simp add: session_calls_def)

definition conn_bytes :: "conn_event \<Rightarrow> u8 list" where
  "conn_bytes e = (case e of CArrives i \<Rightarrow> inbox_bytes i | _ \<Rightarrow> [])"

text \<open>
  What an admitted connection has done: \<open>base\<close> are the metric calls before it, \<open>arrived\<close> the bytes
  that reached it. Of these it has consumed its handshake, echoed what followed and left \<open>rest\<close>;
  it has recorded heartbeats at the times \<open>nows\<close> and then made the calls \<open>ending\<close>.
\<close>

definition conn_log ::
    "(rchar \<Rightarrow> bool) \<Rightarrow> metric_call list \<Rightarrow> u8 list \<Rightarrow> conn_state \<Rightarrow> f64 list \<Rightarrow> u8 list \<Rightarrow> metric_call list \<Rightarrow> bool"
  where
  "conn_log uni base arrived s nows rest ending =
     (case s of (w, c) \<Rightarrow>
        (\<exists>hs. accepted_handshake uni hs (cn_peer c) \<and> arrived = hs @ sent (cn_out c) @ rest
           \<and> w_calls w = base @ session_calls c nows @ ending))"

text \<open>
  How many bytes are echoed after so many recorded heartbeats: all of them while the session
  waits for the next one, all but the last packet while that is being written, and after the
  end all of them unless a write failed.
\<close>

fun echoed :: "conn_pc \<Rightarrow> nat \<Rightarrow> nat \<Rightarrow> bool" where
  "echoed CRecv beats bytes \<longleftrightarrow> bytes = PACKET_SIZE * beats"
| "echoed (CWrite _) beats bytes \<longleftrightarrow> bytes + PACKET_SIZE = PACKET_SIZE * beats"
| "echoed (CDone (Some reason)) beats bytes \<longleftrightarrow>
     bytes = PACKET_SIZE * beats
     \<or> bytes \<le> PACKET_SIZE * beats \<and> reason \<in> {''connection_reset'', ''local_error''}"
| "echoed _ beats bytes \<longleftrightarrow> False"

declare echoed.simps [simp del]

definition conn_inv :: "(rchar \<Rightarrow> bool) \<Rightarrow> metric_call list \<Rightarrow> u8 list \<times> conn_state \<Rightarrow> bool" where
  "conn_inv uni base s =
     (case s of (arrived, w, c) \<Rightarrow>
        (case cn_pc c of
           CStart \<Rightarrow> w_calls w = base \<and> sent (cn_out c) = [] \<and> arrived = inbox_bytes (cn_inbox c)
         | CHandshake \<Rightarrow> w_calls w = base \<and> sent (cn_out c) = [] \<and> arrived = inbox_bytes (cn_inbox c)
         | CRecv \<Rightarrow>
             (\<exists>nows. conn_log uni base arrived (w, c) nows (inbox_bytes (cn_inbox c)) []
                \<and> echoed CRecv (length nows) (length (sent (cn_out c))))
         | CWrite hb \<Rightarrow>
             (\<exists>nows. conn_log uni base arrived (w, c) nows (encode_heartbeat hb @ inbox_bytes (cn_inbox c)) []
                \<and> echoed (CWrite hb) (length nows) (length (sent (cn_out c))))
         | CDone None \<Rightarrow> w_calls w = base \<and> sent (cn_out c) = []
         | CDone (Some reason) \<Rightarrow>
             reason \<in> set SERVER_DISCONNECT_REASONS
             \<and> (\<exists>nows dur rest.
                  conn_log uni base arrived (w, c) nows rest (server_end_calls (conn_label c) dur reason)
                  \<and> echoed (CDone (Some reason)) (length nows) (length (sent (cn_out c))))))"

lemma reasons_documented:
  "recv_error_reason e \<in> set SERVER_DISCONNECT_REASONS"
  "write_error_reason e \<in> set SERVER_DISCONNECT_REASONS"
  "''timeout'' \<in> set SERVER_DISCONNECT_REASONS"
  by (cases e; simp add: SERVER_DISCONNECT_REASONS_def)+

text \<open>The session's calls depend on who the peer is and when it started only.\<close>

lemma session_calls_cong:
  "cn_node c' = cn_node c \<Longrightarrow> cn_peer c' = cn_peer c \<Longrightarrow> cn_start c' = cn_start c \<Longrightarrow>
     session_calls c' nows = session_calls c nows"
  by (simp add: session_calls_def conn_label_def)

lemma session_calls_update [simp]:
  "session_calls (c\<lparr>cn_pc := p\<rparr>) nows = session_calls c nows"
  "session_calls (c\<lparr>cn_inbox := i\<rparr>) nows = session_calls c nows"
  "session_calls (c\<lparr>cn_out := out\<rparr>) nows = session_calls c nows"
  "session_calls (c\<lparr>cn_deadline := d\<rparr>) nows = session_calls c nows"
  by (rule session_calls_cong; simp)+

lemma conn_log_update [simp]:
  "conn_log uni base arrived (w, c\<lparr>cn_pc := p\<rparr>) nows rest ending = conn_log uni base arrived (w, c) nows rest ending"
  "conn_log uni base arrived (w, c\<lparr>cn_inbox := i\<rparr>) nows rest ending = conn_log uni base arrived (w, c) nows rest ending"
  "conn_log uni base arrived (w, c\<lparr>cn_deadline := d\<rparr>) nows rest ending = conn_log uni base arrived (w, c) nows rest ending"
  by (simp_all add: conn_log_def)

lemma conn_label_update [simp]:
  "conn_label (c\<lparr>cn_pc := p\<rparr>) = conn_label c"
  "conn_label (c\<lparr>cn_inbox := i\<rparr>) = conn_label c"
  "conn_label (c\<lparr>cn_out := out\<rparr>) = conn_label c"
  "conn_label (c\<lparr>cn_deadline := d\<rparr>) = conn_label c"
  by (simp_all add: conn_label_def)

text \<open>One lemma per kind of step.\<close>

lemma inv_admit:
  assumes "accepted_handshake uni hs peer_name" and "w_calls w = base" and "sent (cn_out c) = []"
    and "arrived = hs @ inbox_bytes (cn_inbox c)"
  shows "conn_inv uni base (arrived, conn_admit peer_name (w, c))"
proof (cases "try_register peer_name (w_peers w)")
  case (Pair ok seen)
  show ?thesis
  proof (cases ok)
    case False
    with Pair assms show ?thesis by (simp add: conn_admit_def conn_inv_def)
  next
    case True
    with Pair assms show ?thesis
      by (auto simp: conn_admit_def conn_inv_def conn_await_def conn_log_def Let_def session_calls_def conn_label_def
          w_now_def echoed.simps intro!: exI [of _ "[]"] exI [of _ hs])
  qed
qed

lemma inv_beat:
  assumes "conn_log uni base arrived (w, c) nows (encode_heartbeat hb @ inbox_bytes i) []"
    and "echoed CRecv (length nows) (length (sent (cn_out c)))"
  shows "conn_inv uni base (arrived, w_emit (server_beat_calls (conn_label c) (cn_start c) now) w,
    c\<lparr>cn_inbox := i, cn_pc := CWrite hb\<rparr>)"
  using assms
  by (auto simp: conn_inv_def conn_log_def session_calls_snoc echoed.simps intro!: exI [of _ "nows @ [now]"])

lemma inv_finish:
  assumes "conn_log uni base arrived (w, c) nows rest []" and "reason \<in> set SERVER_DISCONNECT_REASONS"
    and "echoed (CDone (Some reason)) (length nows) (length (sent (cn_out c)))"
  shows "conn_inv uni base (arrived, conn_finish reason (w, c))"
proof -
  let ?calls = "server_end_calls (conn_label c) (f64_sub (w_now w) (cn_start c)) reason"
  from assms(1) have "conn_log uni base arrived (w_emit ?calls w, c) nows rest ?calls" by (auto simp: conn_log_def)
  with assms(2,3) show ?thesis by (auto simp: conn_finish_def conn_inv_def)
qed

lemma inv_write:
  assumes log: "conn_log uni base arrived (w, c) nows (encode_heartbeat hb @ inbox_bytes (cn_inbox c)) []"
    and beats: "echoed (CWrite hb) (length nows) (length (sent (cn_out c)))"
    and wr: "write_all (encode_packet (hb_seq hb) (hb_timestamp hb)) (cn_out c) = (res, out)"
  shows "conn_inv uni base (arrived, case res of
      Inl e \<Rightarrow> conn_finish (write_error_reason e) (w, c\<lparr>cn_out := out\<rparr>) | Inr _ \<Rightarrow> conn_await (w, c\<lparr>cn_out := out\<rparr>))"
proof (cases res)
  case (Inr u)
  with wr have "sent out = sent (cn_out c) @ encode_heartbeat hb"
    using write_all_ok [of "encode_heartbeat hb" "cn_out c" out] by (simp add: encode_heartbeat_def)
  with Inr log beats show ?thesis
    by (auto simp: conn_await_def conn_inv_def conn_log_def echoed.simps pkt.length_enc)
next
  case (Inl e)
  from write_all_prefix [OF wr] obtain k where k: "sent out = sent (cn_out c) @ take k (encode_heartbeat hb)"
    by (auto simp: encode_heartbeat_def)
  have "take k (encode_heartbeat hb) @ drop k (encode_heartbeat hb) @ inbox_bytes (cn_inbox c)
      = encode_heartbeat hb @ inbox_bytes (cn_inbox c)" by simp
  with log k have "conn_log uni base arrived (w, c\<lparr>cn_out := out\<rparr>) nows
      (drop k (encode_heartbeat hb) @ inbox_bytes (cn_inbox c)) []"
    by (auto simp: conn_log_def)
  moreover have "echoed (CDone (Some (write_error_reason e))) (length nows) (length (sent out))"
    using beats k by (cases e) (auto simp: echoed.simps pkt.length_enc min_def)
  ultimately show ?thesis using Inl by (auto intro!: inv_finish simp: reasons_documented)
qed

lemma inv_recv:
  assumes log: "conn_log uni base arrived (w, c) nows (inbox_bytes (cn_inbox c)) []"
    and beats: "echoed CRecv (length nows) (length (sent (cn_out c)))"
    and pc: "cn_pc c = CRecv" and poll: "conn_poll uni (w, c) = Some s'"
  shows "conn_inv uni base (arrived, s')"
proof -
  obtain res i where r: "recv_heartbeat (cn_inbox c) = (res, i)" by (cases "recv_heartbeat (cn_inbox c)")
  have finish: "conn_inv uni base (arrived, conn_finish reason (w, c\<lparr>cn_inbox := i\<rparr>))"
    if "reason \<in> set SERVER_DISCONNECT_REASONS" for reason
    using that log beats
    by (intro inv_finish [where nows = nows and rest = "inbox_bytes (cn_inbox c)"]) (simp_all add: echoed.simps)
  show ?thesis
  proof (cases "\<exists>hb. res = Ready (Inr hb)")
    case True
    then obtain hb where hb: "res = Ready (Inr hb)" by blast
    with r log have "conn_log uni base arrived (w, c) nows (encode_heartbeat hb @ inbox_bytes i) []"
      by (simp add: recv_heartbeat_conserves)
    from inv_beat [OF this beats] poll pc r hb show ?thesis by (auto simp: conn_poll_def)
  next
    case False
    with poll pc r finish show ?thesis
      by (auto simp: conn_poll_def reasons_documented split: poll.splits sum.splits if_splits)
  qed
qed

lemma inv_poll:
  assumes "conn_inv uni base (arrived, w, c)" and "conn_poll uni (w, c) = Some s'"
  shows "conn_inv uni base (arrived, s')"
proof (cases "cn_pc c")
  case CStart
  with assms show ?thesis by (auto simp: conn_poll_def conn_inv_def)
next
  case CHandshake
  with assms show ?thesis
    by (auto simp: conn_poll_def split: prod.splits poll.splits sum.splits
        dest!: recv_handshake_accepted intro!: inv_admit)
      (auto simp: conn_inv_def)
next
  case CRecv
  with assms(1) obtain nows where "conn_log uni base arrived (w, c) nows (inbox_bytes (cn_inbox c)) []"
    "echoed CRecv (length nows) (length (sent (cn_out c)))" by (auto simp: conn_inv_def)
  from inv_recv [OF this CRecv assms(2)] show ?thesis .
next
  case (CWrite hb)
  with assms(1) obtain nows where "conn_log uni base arrived (w, c) nows (encode_heartbeat hb @ inbox_bytes (cn_inbox c)) []"
    "echoed (CWrite hb) (length nows) (length (sent (cn_out c)))" by (auto simp: conn_inv_def)
  from inv_write [OF this] assms(2) CWrite show ?thesis
    by (auto simp: conn_poll_def split: prod.splits sum.splits)
next
  case (CDone x)
  with assms(2) show ?thesis by (simp add: conn_poll_def)
qed

lemma inv_env:
  assumes "conn_inv uni base (arrived, w, c)" and "calls (w_metrics w') = w_calls w"
  shows "conn_inv uni base (arrived @ inbox_bytes i, w', c\<lparr>cn_inbox := cn_inbox c @ i\<rparr>)"
  using assms unfolding conn_inv_def
  by (auto simp: conn_log_def split: conn_pc.splits option.splits) fastforce+

interpretation conn_machine: stepper "with_history (conn_step uni) conn_bytes" "conn_inv uni base"
  for uni base
proof
  fix s s' :: "u8 list \<times> conn_state" and e
  assume step: "with_history (conn_step uni) conn_bytes s e = Some s'" and inv: "conn_inv uni base s"
  obtain arrived w c where s: "s = (arrived, w, c)" by (cases s)
  show "conn_inv uni base s'"
  proof (cases e)
    case (CTick d t)
    with step s inv inv_env [of uni base arrived w c "w_tick d t w" "[]"] show ?thesis
      by (auto simp: with_history_def with_ghost_def conn_step_def conn_bytes_def)
  next
    case (CArrives i)
    with step s inv inv_env [of uni base arrived w c w i] show ?thesis
      by (auto simp: with_history_def with_ghost_def conn_step_def conn_bytes_def)
  next
    case CPoll
    with step s inv show ?thesis
      by (auto simp: with_history_def with_ghost_def conn_step_def conn_bytes_def intro: inv_poll)
  qed
qed

lemma conn_inv_spawn:
  "conn_inv uni (w_calls w) ([], w, conn_spawn node t faults)"
  by (simp add: conn_inv_def conn_spawn_def)

lemma conn_run_inv:
  assumes "run_steps (conn_step uni) (w, conn_spawn node t faults) es = Some (w', c')"
  shows "conn_inv uni (w_calls w) (concat (map conn_bytes es), w', c')"
proof -
  have "run_steps (with_history (conn_step uni) conn_bytes) ([], w, conn_spawn node t faults) es
      = Some (concat (map conn_bytes es), w', c')"
    by (simp add: run_with_history assms)
  then show ?thesis by (rule conn_machine.inv_run) (rule conn_inv_spawn)
qed

text \<open>Nothing happened yet, or there is a log, with the echoes and the end that the state implies.\<close>

lemma conn_invE:
  assumes "conn_inv uni base (arrived, w, c)"
  obtains "\<not> (\<exists>reason. cn_pc c = CDone (Some reason))" "w_calls w = base" "sent (cn_out c) = []"
  | nows rest ending where "conn_log uni base arrived (w, c) nows rest ending"
      "echoed (cn_pc c) (length nows) (length (sent (cn_out c)))"
      "case cn_pc c of
         CDone (Some reason) \<Rightarrow> reason \<in> set SERVER_DISCONNECT_REASONS
           \<and> (\<exists>duration. ending = server_end_calls (conn_label c) duration reason)
       | _ \<Rightarrow> ending = []"
proof (cases "cn_pc c")
  case (CDone x)
  with assms that show thesis by (cases x) (auto simp: conn_inv_def)
qed (use assms that in \<open>auto simp: conn_inv_def\<close>)

lemma echoed_le: "echoed pc beats bytes \<Longrightarrow> bytes \<le> PACKET_SIZE * beats"
  by (induction pc beats bytes rule: echoed.induct) (auto simp: echoed.simps)

lemma conn_step_timeout: "conn_step uni (w, c) e = Some (w', c') \<Longrightarrow> cn_timeout c' = cn_timeout c"
  by (cases e; cases "cn_pc c")
    (auto simp: conn_step_def conn_poll_def conn_admit_def conn_await_def conn_finish_def Let_def
      split: prod.splits poll.splits sum.splits bool.splits if_splits)

lemma run_step_timeout:
  "run_steps (conn_step uni) (w, c) es = Some (w', c') \<Longrightarrow> cn_timeout c' = cn_timeout c"
proof (induction es arbitrary: w c)
  case (Cons e es)
  then obtain w1 c1 where "conn_step uni (w, c) e = Some (w1, c1)" "run_steps (conn_step uni) (w1, c1) es = Some (w', c')"
    by (auto split: option.splits)
  with Cons.IH conn_step_timeout show ?case by metis
qed simp

text \<open>A session that starts to wait sets its deadline one receive timeout ahead.\<close>

lemma poll_waits:
  assumes "conn_step uni (w, c) CPoll = Some (w', c')" and "cn_pc c' = CRecv"
  shows "cn_deadline c' = w_mono w' + from_secs (cn_timeout c')"
  using assms
  by (auto simp: conn_step_def conn_poll_def conn_finish_def conn_admit_def conn_await_def w_emit_def Let_def
      split: conn_pc.splits prod.splits poll.splits sum.splits bool.splits if_splits)

text \<open>While it is not polled, only the inbox changes.\<close>

lemma unpolled_run:
  assumes "run_steps (conn_step uni) (w, c) es = Some (w', c')" and "CPoll \<notin> set es"
  shows "\<exists>i. c' = c\<lparr>cn_inbox := i\<rparr> \<and> w_calls w' = w_calls w"
  using assms
proof (induction es arbitrary: w c)
  case Nil
  then show ?case by (intro exI [of _ "cn_inbox c'"]) simp
next
  case (Cons e es)
  then obtain w1 c1 where s: "conn_step uni (w, c) e = Some (w1, c1)" and r: "run_steps (conn_step uni) (w1, c1) es = Some (w', c')"
    by (auto split: option.splits)
  from s Cons.prems(2) have "\<exists>i. c1 = c\<lparr>cn_inbox := i\<rparr> \<and> w_calls w1 = w_calls w"
    by (cases e) (auto simp: conn_step_def w_tick_def intro!: exI [of _ "cn_inbox c1"])
  with Cons.IH [OF r] Cons.prems(2) show ?case by auto
qed

lemmas conn_run_simps =
  conn_step_def conn_poll_def conn_spawn_def handshake_n1 recv_heartbeat_packet recv_heartbeat_eof
  conn_admit_def try_register_def MAX_UNIQUE_SERVER_PEERS_def Let_def conn_await_def conn_finish_def

section \<open>Properties\<close>

text \<open>
  C3. The life of an inbound connection, for every order of arriving bytes, passing time and
  polls, every segmentation and every write error. Before the handshake is accepted nothing is
  recorded or sent. From then on the metric calls are the labels of the peer, the start of the
  session, one block per heartbeat read, and at the end one block with a documented reason; the
  bytes echoed are the bytes received after the handshake, for as many packets as heartbeats
  are recorded: all of them while the session waits for the next one, and at the end all of them
  unless the last write failed.
\<close>

theorem connection_history:
  assumes "run_steps (conn_step uni) (w, conn_spawn node timeout faults) es = Some (w', c)"
  shows "(\<not> (\<exists>reason. cn_pc c = CDone (Some reason)) \<and> w_calls w' = w_calls w \<and> sent (cn_out c) = [])
    \<or> (\<exists>hs nows rest ending. accepted_handshake uni hs (cn_peer c)
         \<and> concat (map conn_bytes es) = hs @ sent (cn_out c) @ rest
         \<and> echoed (cn_pc c) (length nows) (length (sent (cn_out c)))
         \<and> w_calls w' = w_calls w @ session_calls c nows @ ending
         \<and> (case cn_pc c of
              CDone (Some reason) \<Rightarrow> reason \<in> set SERVER_DISCONNECT_REASONS
                \<and> (\<exists>duration. ending = server_end_calls (conn_label c) duration reason)
            | _ \<Rightarrow> ending = []))"
proof (rule conn_invE [OF conn_run_inv [OF assms]], goal_cases)
  case (2 nows rest ending)
  then show ?case by (simp add: conn_log_def) blast
qed simp

theorem connection_history_witness:
  "\<exists>w' c. run_steps (conn_step (\<lambda>_. False)) (fresh_world 0, conn_spawn [110, 50] 30 [])
       [CPoll, CArrives [Arrive [0, 0, 0, 2, 110, 49]], CPoll, CArrives [Arrive (encode_packet 0 (from_bits 5))],
        CPoll, CPoll, CArrives [Eof], CPoll] = Some (w', c)
     \<and> sent (cn_out c) = encode_packet 0 (from_bits 5)
     \<and> (\<exists>hs nows rest duration. accepted_handshake (\<lambda>_. False) hs (cn_peer c)
          \<and> [0, 0, 0, 2, 110, 49] @ encode_packet 0 (from_bits 5) = hs @ sent (cn_out c) @ rest
          \<and> PACKET_SIZE * length nows = PACKET_SIZE
          \<and> w_calls w' = session_calls c nows @ server_end_calls (conn_label c) duration ''remote_close'')"
proof -
  let ?es = "[CPoll, CArrives [Arrive [0, 0, 0, 2, 110, 49]], CPoll, CArrives [Arrive (encode_packet 0 (from_bits 5))],
        CPoll, CPoll, CArrives [Eof], CPoll]"
  have "\<exists>w' c. run_steps (conn_step (\<lambda>_. False)) (fresh_world 0, conn_spawn [110, 50] 30 []) ?es
      = Some (w', c) \<and> cn_pc c = CDone (Some ''remote_close'') \<and> sent (cn_out c) = encode_packet 0 (from_bits 5)"
    by (simp add: conn_run_simps)
  then obtain w' c where r: "run_steps (conn_step (\<lambda>_. False)) (fresh_world 0, conn_spawn [110, 50] 30 []) ?es
      = Some (w', c)" and c: "cn_pc c = CDone (Some ''remote_close'')" "sent (cn_out c) = encode_packet 0 (from_bits 5)"
    by blast
  have "concat (map conn_bytes ?es) = [0, 0, 0, 2, 110, 49] @ encode_packet 0 (from_bits 5)"
    by (simp add: conn_bytes_def)
  with connection_history [OF r] c obtain hs nows rest duration where
    "accepted_handshake (\<lambda>_. False) hs (cn_peer c)"
    "[0, 0, 0, 2, 110, 49] @ encode_packet 0 (from_bits 5) = hs @ sent (cn_out c) @ rest"
    "PACKET_SIZE * length nows = PACKET_SIZE"
    "w_calls w' = session_calls c nows @ server_end_calls (conn_label c) duration ''remote_close''"
    by (auto simp: echoed.simps PACKET_SIZE_def)
  with r c show ?thesis by blast
qed

text \<open>
  C30. A client that goes silent is given up after exactly the receive timeout of its connection.
  Take any poll, at time \<open>w_mono w\<close>, after which the session waits for a heartbeat, be it the first
  or the next. As long as less than a packet has arrived since, a poll before the timeout has
  passed does nothing, and a poll from then on ends the session with reason \<open>timeout\<close> and
  records just that.
\<close>

theorem silent_client_times_out:
  assumes "run_steps (conn_step uni) (w0, conn_spawn node timeout faults) es = Some (w1, c1)"
    and "conn_step uni (w1, c1) CPoll = Some (w, c)" and "cn_pc c = CRecv"
    and "run_steps (conn_step uni) (w, c) fs = Some (w', c')" and "CPoll \<notin> set fs"
    and "only_arrivals (cn_inbox c')" and "length (inbox_bytes (cn_inbox c')) < PACKET_SIZE"
  shows "if w_mono w' < w_mono w + from_secs timeout then conn_step uni (w', c') CPoll = None
    else \<exists>w'' c''. conn_step uni (w', c') CPoll = Some (w'', c'') \<and> cn_pc c'' = CDone (Some ''timeout'')
      \<and> w_calls w'' = w_calls w @ server_end_calls (conn_label c) (f64_sub (w_now w') (cn_start c)) ''timeout''"
proof -
  from run_step_timeout [OF assms(1)] conn_step_timeout [OF assms(2)] have "cn_timeout c = timeout"
    by (simp add: conn_spawn_def)
  with poll_waits [OF assms(2,3)] have d: "cn_deadline c = w_mono w + from_secs timeout" by simp
  from unpolled_run [OF assms(4,5)] obtain i where c': "c' = c\<lparr>cn_inbox := i\<rparr>" and calls: "w_calls w' = w_calls w" by blast
  from recv_arrivals [OF assms(6) idle_inv [OF reader_new_idle(1)]] assms(7)
  have "recv_heartbeat (cn_inbox c') = (Pending, [])" by (auto simp: recv_heartbeat_def)
  with assms(3) d calls show ?thesis
    by (auto simp: conn_step_def conn_poll_def conn_finish_def c')
qed

theorem silent_client_times_out_witness:
  "\<exists>w0 c0 w' c' w'' c''. run_steps (conn_step (\<lambda>_. False)) (fresh_world 0, conn_spawn [110, 50] 30 [])
       [CPoll, CArrives [Arrive [0, 0, 0, 2, 110, 49]], CPoll] = Some (w0, c0)
     \<and> run_steps (conn_step (\<lambda>_. False)) (w0, c0) [CTick 29 0, CArrives [Arrive [0, 0]], CTick (30 * nanos_per_sec) 0] = Some (w', c')
     \<and> conn_step (\<lambda>_. False) (w', c') CPoll = Some (w'', c'') \<and> cn_pc c'' = CDone (Some ''timeout'')"
proof -
  let ?step = "conn_step (\<lambda>_. False)"
  have "\<exists>w1 c1 w c. run_steps ?step (fresh_world 0, conn_spawn [110, 50] 30 []) [CPoll, CArrives [Arrive [0, 0, 0, 2, 110, 49]]]
      = Some (w1, c1) \<and> ?step (w1, c1) CPoll = Some (w, c) \<and> cn_pc c = CRecv \<and> cn_inbox c = []"
    by (simp add: conn_run_simps)
  then obtain w1 c1 w c where r: "run_steps ?step (fresh_world 0, conn_spawn [110, 50] 30 []) [CPoll, CArrives [Arrive [0, 0, 0, 2, 110, 49]]]
      = Some (w1, c1)" "?step (w1, c1) CPoll = Some (w, c)" "cn_pc c = CRecv" "cn_inbox c = []" by blast
  let ?w' = "w_tick (30 * nanos_per_sec) 0 (w_tick 29 0 w)" and ?c' = "c\<lparr>cn_inbox := [Arrive [0, 0]]\<rparr>"
  have f: "run_steps ?step (w, c) [CTick 29 0, CArrives [Arrive [0, 0]], CTick (30 * nanos_per_sec) 0] = Some (?w', ?c')"
    using r(4) by (simp add: conn_step_def)
  from silent_client_times_out [OF r(1-3) f] have "\<exists>w'' c''. ?step (?w', ?c') CPoll = Some (w'', c'')
      \<and> cn_pc c'' = CDone (Some ''timeout'')"
    by (auto simp: PACKET_SIZE_def from_secs_def w_tick_def split: if_splits)
  moreover from r(1,2) have "run_steps ?step (fresh_world 0, conn_spawn [110, 50] 30 [])
      [CPoll, CArrives [Arrive [0, 0, 0, 2, 110, 49]], CPoll] = Some (w, c)"
    using run_steps_appendI [OF r(1), of "[CPoll]"] by simp
  ultimately show ?thesis using f by blast
qed
lemma echo_one:
  assumes "cn_pc c = CRecv" and "only_arrivals (cn_inbox c)" and "wfaults (cn_out c) = []"
    and "inbox_bytes (cn_inbox c) = concat (map encode_heartbeat (hb # hbs)) @ rest"
  obtains w' i where "run_steps (conn_step uni) (w, c) [CPoll, CPoll] = Some (w',
      c\<lparr>cn_inbox := i, cn_out := \<lparr>sent = sent (cn_out c) @ encode_heartbeat hb, wfaults = []\<rparr>, cn_pc := CRecv,
        cn_deadline := w_mono w + from_secs (cn_timeout c)\<rparr>)"
    "only_arrivals i" "inbox_bytes i = concat (map encode_heartbeat hbs) @ rest"
    "w' = w_emit (server_beat_calls (conn_label c) (cn_start c) (w_now w)) w"
proof -
  from packet_first [OF assms(2), of reader_new hb hbs rest] assms(4) obtain r' i where
    r: "recv reader_new (cn_inbox c) = (Ready (Inr hb), r', i)" "only_arrivals i"
      "inbox_bytes i = concat (map encode_heartbeat hbs) @ rest" by (auto simp: idle_inv)
  then have "recv_heartbeat (cn_inbox c) = (Ready (Inr hb), i)" by (simp add: recv_heartbeat_def)
  moreover have "write_all (encode_packet (hb_seq hb) (hb_timestamp hb)) (cn_out c)
      = (Inr (), \<lparr>sent = sent (cn_out c) @ encode_heartbeat hb, wfaults = []\<rparr>)"
    using assms(3) by (cases "cn_out c") (simp add: write_all_def encode_heartbeat_def)
  ultimately have "run_steps (conn_step uni) (w, c) [CPoll, CPoll]
      = Some (w_emit (server_beat_calls (conn_label c) (cn_start c) (w_now w)) w,
      c\<lparr>cn_inbox := i, cn_out := \<lparr>sent = sent (cn_out c) @ encode_heartbeat hb, wfaults = []\<rparr>, cn_pc := CRecv,
        cn_deadline := w_mono w + from_secs (cn_timeout c)\<rparr>)"
    using assms(1) by (simp add: conn_step_def conn_poll_def conn_await_def)
  from that [OF this r(2,3) refl] show thesis .
qed

text \<open>
  C24. What arrives is echoed. When the bytes of the packets \<open>hbs\<close> have reached a waiting session, in
  any segmentation, and the peer can be written to, two polls per packet record each of them and
  send it back unchanged and in order; a partial packet after them stays in the stream.
\<close>

theorem arrived_heartbeats_echoed:
  assumes "cn_pc c = CRecv" and "only_arrivals (cn_inbox c)" and "wfaults (cn_out c) = []"
    and "inbox_bytes (cn_inbox c) = concat (map encode_heartbeat hbs) @ rest"
  shows "\<exists>w' c'. run_steps (conn_step uni) (w, c) (concat (replicate (length hbs) [CPoll, CPoll])) = Some (w', c')
    \<and> cn_pc c' = CRecv \<and> sent (cn_out c') = sent (cn_out c) @ concat (map encode_heartbeat hbs)
    \<and> inbox_bytes (cn_inbox c') = rest
    \<and> w_calls w' = w_calls w
         @ concat (replicate (length hbs) (server_beat_calls (conn_label c) (cn_start c) (w_now w)))"
  using assms
proof (induction hbs arbitrary: w c)
  case Nil
  then show ?case by simp
next
  case (Cons hb hbs)
  from echo_one [OF Cons.prems, of uni w] obtain w1 i where
    one: "run_steps (conn_step uni) (w, c) [CPoll, CPoll] = Some (w1,
      c\<lparr>cn_inbox := i, cn_out := \<lparr>sent = sent (cn_out c) @ encode_heartbeat hb, wfaults = []\<rparr>, cn_pc := CRecv,
        cn_deadline := w_mono w + from_secs (cn_timeout c)\<rparr>)" (is "_ = Some (_, ?c)")
    and i: "only_arrivals i" "inbox_bytes i = concat (map encode_heartbeat hbs) @ rest"
    and w1: "w1 = w_emit (server_beat_calls (conn_label c) (cn_start c) (w_now w)) w" by metis
  from Cons.IH [of ?c w1] i obtain w' c' where
    "run_steps (conn_step uni) (w1, ?c) (concat (replicate (length hbs) [CPoll, CPoll])) = Some (w', c')"
    "cn_pc c' = CRecv" "sent (cn_out c') = sent (cn_out c) @ encode_heartbeat hb @ concat (map encode_heartbeat hbs)"
    "inbox_bytes (cn_inbox c') = rest"
    "w_calls w' = w_calls w1 @ concat (replicate (length hbs) (server_beat_calls (conn_label c) (cn_start c) (w_now w1)))"
    by (auto simp: conn_label_def)
  with run_steps_appendI [OF one] show ?case by (auto simp: w1 w_now_def)
qed

theorem arrived_heartbeats_echoed_witness:
  "\<exists>w' c'. run_steps (conn_step (\<lambda>_. False))
       (fresh_world 0, (conn_spawn [110, 50] 30 [])\<lparr>cn_pc := CRecv,
          cn_inbox := [Arrive (encode_packet 0 (from_bits 5)), Arrive (encode_packet 1 (from_bits 6) @ [0])]\<rparr>)
       [CPoll, CPoll, CPoll, CPoll] = Some (w', c')
     \<and> sent (cn_out c') = encode_packet 0 (from_bits 5) @ encode_packet 1 (from_bits 6) \<and> inbox_bytes (cn_inbox c') = [0]"
proof -
  let ?hbs = "[\<lparr>hb_seq = 0, hb_timestamp = from_bits 5\<rparr>, \<lparr>hb_seq = 1, hb_timestamp = from_bits 6\<rparr>]"
  let ?c = "(conn_spawn [110, 50] 30 [])\<lparr>cn_pc := CRecv,
    cn_inbox := [Arrive (encode_packet 0 (from_bits 5)), Arrive (encode_packet 1 (from_bits 6) @ [0])]\<rparr>"
  have "cn_pc ?c = CRecv" "only_arrivals (cn_inbox ?c)" "wfaults (cn_out ?c) = []"
    "inbox_bytes (cn_inbox ?c) = concat (map encode_heartbeat ?hbs) @ [0]"
    by (simp_all add: conn_spawn_def encode_heartbeat_def)
  from arrived_heartbeats_echoed [OF this, of "\<lambda>_. False" "fresh_world 0"] show ?thesis
    by (auto simp: conn_spawn_def encode_heartbeat_def)
qed

end
