(* ===== verification/Server.thy ===== *)
theory Server
  imports Connection
begin

text \<open>
  The server side of \<open>src/server.rs\<close> around the single connection: binding the listeners, the
  two accept loops with their connection caps, the probe connections, the config watcher and
  the \<open>run\<close> function that supervises the three tasks. The state of the server is one record,
  its tasks are stepped one event at a time in any order.
\<close>

section \<open>Listeners\<close>

definition MAX_CONNECTIONS :: nat where
  "MAX_CONNECTIONS = 128"

definition MAX_PROBE_CONNECTIONS :: nat where
  "MAX_PROBE_CONNECTIONS = 32"

definition PROBE_BANNER :: "u8 list" where
  "PROBE_BANNER = map of_char ''TCP-MONITOR OK'' @ [13, 10]"

datatype bind_error =
    BadAddress config_error
  | BindFailed string socket_addr io_kind

text \<open>\<open>os_bind\<close> is the operating system: the error of binding an address, if any.\<close>

definition bind_one ::
    "(socket_addr \<Rightarrow> io_kind option) \<Rightarrow> rstr \<Rightarrow> u16 \<Rightarrow> string \<Rightarrow> bind_error + socket_addr" where
  "bind_one os_bind host port what =
     (case bind_addr host port of
        Inl e \<Rightarrow> Inl (BadAddress e)
      | Inr addr \<Rightarrow>
          (case os_bind addr of None \<Rightarrow> Inr addr | Some k \<Rightarrow> Inl (BindFailed what addr k)))"

record listeners =
  ls_heartbeat :: socket_addr
  ls_probe :: socket_addr

definition listeners_bind ::
    "(socket_addr \<Rightarrow> io_kind option) \<Rightarrow> server_config \<Rightarrow> bind_error + listeners" where
  "listeners_bind os_bind cfg =
     (case bind_one os_bind (sc_bind cfg) (sc_heartbeat_port cfg) ''heartbeat_port'' of
        Inl e \<Rightarrow> Inl e
      | Inr heartbeat \<Rightarrow>
          (case bind_one os_bind (sc_bind cfg) (sc_probe_port cfg) ''probe_port'' of
             Inl e \<Rightarrow> Inl e
           | Inr probe \<Rightarrow> Inr \<lparr>ls_heartbeat = heartbeat, ls_probe = probe\<rparr>))"

section \<open>Probe connections\<close>

datatype probe_pc = PBanner | PDrain | PDone

record probe =
  pb_pc :: probe_pc
  pb_inbox :: inbox
  pb_out :: wstream
  pb_idle :: u64
  pb_deadline :: instant

definition probe_spawn :: "u64 \<Rightarrow> (nat \<times> io_kind) option list \<Rightarrow> probe" where
  "probe_spawn idle_secs faults =
     \<lparr>pb_pc = PBanner, pb_inbox = [], pb_out = \<lparr>sent = [], wfaults = faults\<rparr>,
      pb_idle = idle_secs, pb_deadline = 0\<rparr>"

text \<open>The drain loop reads into 64 bytes until the peer closes: has it ended, and what is left.\<close>

function probe_drain :: "inbox \<Rightarrow> bool \<times> inbox" where
  "probe_drain i =
     (case stream_read 64 i of
        (Pending, i') \<Rightarrow> (False, i')
      | (Ready (Inl _), i') \<Rightarrow> (True, i')
      | (Ready (Inr bs), i') \<Rightarrow> if bs = [] then (True, i') else probe_drain i')"
  by pat_completeness auto
termination
  by (relation "measure inbox_size") (auto dest: stream_read_progress [OF sym])

declare probe_drain.simps [simp del]

definition probe_poll :: "instant \<Rightarrow> probe \<Rightarrow> probe option" where
  "probe_poll now p =
     (case pb_pc p of
        PBanner \<Rightarrow>
          (case write_all PROBE_BANNER (pb_out p) of
             (Inl _, out) \<Rightarrow> Some (p\<lparr>pb_out := out, pb_pc := PDone\<rparr>)
           | (Inr _, out) \<Rightarrow>
               Some (p\<lparr>pb_out := out, pb_pc := PDrain, pb_deadline := now + from_secs (pb_idle p)\<rparr>))
      | PDrain \<Rightarrow>
          (case probe_drain (pb_inbox p) of
             (True, i) \<Rightarrow> Some (p\<lparr>pb_inbox := i, pb_pc := PDone\<rparr>)
           | (False, i) \<Rightarrow>
               if pb_deadline p \<le> now then Some (p\<lparr>pb_inbox := i, pb_pc := PDone\<rparr>) else None)
      | PDone \<Rightarrow> None)"

section \<open>The server\<close>

datatype server_warning = BindPortChanged | ProbePortChanged

record server =
  sv_initial :: server_config
  sv_node :: rstr
  sv_recv_timeout :: u64
  sv_probe_timeout :: u64
  sv_conns :: "conn list"
  sv_probes :: "probe list"
  sv_accept_at :: instant
  sv_probe_at :: instant
  sv_accepting :: bool
  sv_probing :: bool
  sv_watching :: bool
  sv_cancelled :: bool
  sv_warnings :: "server_warning list"

type_synonym server_state = "world \<times> server"

datatype server_event =
    SvTick nat sys_time
  | SvAccept "(nat \<times> io_kind) option list"
  | SvAcceptError io_kind
  | SvConnArrives nat inbox
  | SvConnPoll nat
  | SvProbeAccept "(nat \<times> io_kind) option list"
  | SvProbeAcceptError io_kind
  | SvProbeArrives nat inbox
  | SvProbePoll nat
  | SvConfig config
  | SvConfigGone
  | SvCancel
  | SvAcceptCancelled
  | SvProbeCancelled
  | SvWatchCancelled

definition server_start :: "server_config \<Rightarrow> rstr \<Rightarrow> server" where
  "server_start config node_name =
     \<lparr>sv_initial = config, sv_node = node_name,
      sv_recv_timeout = sc_heartbeat_recv_timeout config,
      sv_probe_timeout = sc_probe_idle_timeout config,
      sv_conns = [], sv_probes = [], sv_accept_at = 0, sv_probe_at = 0,
      sv_accepting = True, sv_probing = True, sv_watching = True,
      sv_cancelled = False, sv_warnings = []\<rparr>"

definition conn_live :: "conn \<Rightarrow> bool" where
  "conn_live c = (case cn_pc c of CDone _ \<Rightarrow> False | _ \<Rightarrow> True)"

definition probe_live :: "probe \<Rightarrow> bool" where
  "probe_live p \<longleftrightarrow> pb_pc p \<noteq> PDone"

text \<open>A permit of the semaphore is held by each session task until the task ends.\<close>

definition conn_permits :: "server \<Rightarrow> nat" where
  "conn_permits s = length (filter conn_live (sv_conns s))"

definition probe_permits :: "server \<Rightarrow> nat" where
  "probe_permits s = length (filter probe_live (sv_probes s))"

text \<open>\<open>heartbeat_accept_loop\<close>: one turn for an accepted stream, an accept error, or \<open>cancel\<close>.\<close>

definition accept_conn :: "(nat \<times> io_kind) option list \<Rightarrow> server_state \<Rightarrow> server_state option" where
  "accept_conn faults s =
     (case s of (w, sv) \<Rightarrow>
        if \<not> sv_accepting sv \<or> w_mono w < sv_accept_at sv then None
        else if MAX_CONNECTIONS \<le> conn_permits sv then Some (w, sv)
        else Some (w, sv\<lparr>sv_conns := sv_conns sv
                         @ [conn_spawn (sv_node sv) (sv_recv_timeout sv) faults]\<rparr>))"

definition accept_error :: "server_state \<Rightarrow> server_state option" where
  "accept_error s =
     (case s of (w, sv) \<Rightarrow>
        if \<not> sv_accepting sv \<or> w_mono w < sv_accept_at sv then None
        else Some (w, sv\<lparr>sv_accept_at := w_mono w + from_secs 1\<rparr>))"

text \<open>\<open>probe_accept_loop\<close>, likewise.\<close>

definition accept_probe :: "(nat \<times> io_kind) option list \<Rightarrow> server_state \<Rightarrow> server_state option" where
  "accept_probe faults s =
     (case s of (w, sv) \<Rightarrow>
        if \<not> sv_probing sv \<or> w_mono w < sv_probe_at sv then None
        else if MAX_PROBE_CONNECTIONS \<le> probe_permits sv then Some (w, sv)
        else Some (w, sv\<lparr>sv_probes := sv_probes sv @ [probe_spawn (sv_probe_timeout sv) faults]\<rparr>))"

definition accept_probe_error :: "server_state \<Rightarrow> server_state option" where
  "accept_probe_error s =
     (case s of (w, sv) \<Rightarrow>
        if \<not> sv_probing sv \<or> w_mono w < sv_probe_at sv then None
        else Some (w, sv\<lparr>sv_probe_at := w_mono w + from_secs 1\<rparr>))"

text \<open>\<open>watch_config\<close>: a reload warns about what needs a restart and stores the timeouts.\<close>

definition config_warnings :: "server_config \<Rightarrow> server_config \<Rightarrow> server_warning list" where
  "config_warnings initial srv =
     (if sc_bind srv \<noteq> sc_bind initial \<or> sc_heartbeat_port srv \<noteq> sc_heartbeat_port initial
      then [BindPortChanged] else [])
     @ (if sc_probe_port srv \<noteq> sc_probe_port initial then [ProbePortChanged] else [])"

definition watch_config :: "config \<Rightarrow> server \<Rightarrow> server" where
  "watch_config cfg sv =
     (let srv = cfg_server cfg
      in sv\<lparr>sv_warnings := sv_warnings sv @ config_warnings (sv_initial sv) srv,
            sv_recv_timeout := sc_heartbeat_recv_timeout srv,
            sv_probe_timeout := sc_probe_idle_timeout srv\<rparr>)"

definition step_conn :: "(rchar \<Rightarrow> bool) \<Rightarrow> nat \<Rightarrow> conn_event \<Rightarrow> server_state \<Rightarrow> server_state option" where
  "step_conn uni k e s =
     (case s of (w, sv) \<Rightarrow>
        if length (sv_conns sv) \<le> k then None
        else case conn_step uni (w, sv_conns sv ! k) e of
               None \<Rightarrow> None
             | Some (w', c') \<Rightarrow> Some (w', sv\<lparr>sv_conns := (sv_conns sv)[k := c']\<rparr>))"

definition server_step ::
    "(rchar \<Rightarrow> bool) \<Rightarrow> server_state \<Rightarrow> server_event \<Rightarrow> server_state option" where
  "server_step uni s e =
     (case s of (w, sv) \<Rightarrow>
        (case e of
           SvTick d t \<Rightarrow> Some (w_tick d t w, sv)
         | SvAccept faults \<Rightarrow> accept_conn faults s
         | SvAcceptError k \<Rightarrow> accept_error s
         | SvConnArrives k i \<Rightarrow> step_conn uni k (CArrives i) s
         | SvConnPoll k \<Rightarrow> step_conn uni k CPoll s
         | SvProbeAccept faults \<Rightarrow> accept_probe faults s
         | SvProbeAcceptError k \<Rightarrow> accept_probe_error s
         | SvProbeArrives k i \<Rightarrow>
             if length (sv_probes sv) \<le> k then None
             else (let p = sv_probes sv ! k
                   in Some (w, sv\<lparr>sv_probes := (sv_probes sv)[k := p\<lparr>pb_inbox := pb_inbox p @ i\<rparr>]\<rparr>))
         | SvProbePoll k \<Rightarrow>
             if length (sv_probes sv) \<le> k then None
             else (case probe_poll (w_mono w) (sv_probes sv ! k) of
                     None \<Rightarrow> None
                   | Some p \<Rightarrow> Some (w, sv\<lparr>sv_probes := (sv_probes sv)[k := p]\<rparr>))
         | SvConfig cfg \<Rightarrow> if sv_watching sv then Some (w, watch_config cfg sv) else None
         | SvConfigGone \<Rightarrow> if sv_watching sv then Some (w, sv\<lparr>sv_watching := False\<rparr>) else None
         | SvCancel \<Rightarrow> Some (w, sv\<lparr>sv_cancelled := True\<rparr>)
         | SvAcceptCancelled \<Rightarrow>
             if sv_cancelled sv \<and> sv_accepting sv \<and> sv_accept_at sv \<le> w_mono w
             then Some (w, sv\<lparr>sv_accepting := False\<rparr>) else None
         | SvProbeCancelled \<Rightarrow>
             if sv_cancelled sv \<and> sv_probing sv \<and> sv_probe_at sv \<le> w_mono w
             then Some (w, sv\<lparr>sv_probing := False\<rparr>) else None
         | SvWatchCancelled \<Rightarrow>
             if sv_cancelled sv \<and> sv_watching sv then Some (w, sv\<lparr>sv_watching := False\<rparr>) else None))"

text \<open>
  The biased \<open>select!\<close> of \<open>run\<close>: not returned yet, returned because of \<open>cancel\<close>, or returned
  because the named task stopped.
\<close>

datatype run_outcome = Running | Cancelled | Stopped string

definition run_result :: "server \<Rightarrow> run_outcome" where
  "run_result sv =
     (if sv_cancelled sv then Cancelled
      else if \<not> sv_accepting sv then Stopped ''heartbeat accept loop''
      else if \<not> sv_probing sv then Stopped ''probe accept loop''
      else if \<not> sv_watching sv then Stopped ''config watcher''
      else Running)"

section \<open>What a connection's step does to the shared state\<close>

text \<open>The labels of a metric call.\<close>

fun call_peer :: "metric_call \<Rightarrow> rstr" where
  "call_peer (GaugeSet _ l _) = pl_peer l"
| "call_peer (FloatSet _ l _) = pl_peer l"
| "call_peer (CounterInc _ l) = pl_peer l"
| "call_peer (DisconnectTouch _ l) = dl_peer l"
| "call_peer (DisconnectInc _ l) = dl_peer l"

definition call_peers :: "metric_call list \<Rightarrow> rstr set" where
  "call_peers cs = call_peer ` set cs"

definition conn_session :: "conn \<Rightarrow> bool" where
  "conn_session c = (case cn_pc c of CRecv \<Rightarrow> True | CWrite _ \<Rightarrow> True | _ \<Rightarrow> False)"

lemma call_peers_simps [simp]:
  "call_peers [] = {}" "call_peers (c # cs) = insert (call_peer c) (call_peers cs)"
  "call_peers (cs @ ds) = call_peers cs \<union> call_peers ds"
  by (auto simp: call_peers_def)

lemma call_peers_session:
  "call_peers (init_calls node peer) = {peer}"
  "call_peers (server_start_calls l t) = {pl_peer l}"
  "call_peers (server_beat_calls l t n) = {pl_peer l}"
  "call_peers (server_end_calls l d r) = {pl_peer l}"
  by (simp_all add: call_peers_def init_calls_def SERVER_DISCONNECT_REASONS_def CLIENT_DISCONNECT_REASONS_def
      server_start_calls_def server_beat_calls_def server_end_calls_def reason_label_def)

text \<open>
  The five ways a step of a connection can go: nothing shared changes, a peer is admitted, a
  heartbeat is recorded, the session waits again after an echo, or it ends.
\<close>

inductive conn_effect :: "(rchar \<Rightarrow> bool) \<Rightarrow> conn_state \<Rightarrow> conn_state \<Rightarrow> bool" for uni where
  quiet: "\<lbrakk>w_metrics w' = w_metrics w; conn_session c' \<longleftrightarrow> conn_session c; conn_live c' \<longrightarrow> conn_live c;
           conn_label c' = conn_label c\<rbrakk> \<Longrightarrow> conn_effect uni (w, c) (w', c')"
| admit: "\<lbrakk>\<not> conn_session c; conn_live c; conn_session c'; safe_name uni (cn_peer c') \<and> valid_str (cn_peer c');
           try_register (cn_peer c') (w_peers w) = (True, seen);
           w_metrics w' = emit (init_calls (cn_node c') (cn_peer c')
                                  @ server_start_calls (conn_label c') t) ((w_metrics w)\<lparr>server_peers := seen\<rparr>)\<rbrakk>
          \<Longrightarrow> conn_effect uni (w, c) (w', c')"
| beat: "\<lbrakk>conn_session c; conn_live c; conn_session c'; conn_label c' = conn_label c;
          w_metrics w' = emit (server_beat_calls (conn_label c) t n) (w_metrics w)\<rbrakk>
         \<Longrightarrow> conn_effect uni (w, c) (w', c')"
| finish: "\<lbrakk>conn_session c; conn_live c; \<not> conn_live c'; \<not> conn_session c';
            w_metrics w' = emit (server_end_calls (conn_label c) d reason) (w_metrics w)\<rbrakk>
           \<Longrightarrow> conn_effect uni (w, c) (w', c')"

lemma session_live: "conn_session c \<Longrightarrow> conn_live c"
  by (simp add: conn_session_def conn_live_def split: conn_pc.splits)

lemma finish_effect:
  assumes "conn_session c" and "conn_label c1 = conn_label c"
  shows "conn_effect uni (w, c) (conn_finish reason (w, c1))"
  using assms session_live [OF assms(1)]
  by (auto simp: conn_finish_def conn_session_def conn_live_def w_emit_def intro!: conn_effect.finish)

lemma admit_effect:
  assumes "cn_pc c = CHandshake" and "safe_name uni peer" and "valid_str peer"
  shows "conn_effect uni (w, c) (conn_admit peer (w, c\<lparr>cn_inbox := i\<rparr>))"
proof (cases "try_register peer (w_peers w)")
  case (Pair ok seen)
  show ?thesis
  proof (cases ok)
    case False
    with Pair assms show ?thesis
      by (auto simp: conn_admit_def conn_session_def conn_live_def conn_label_def intro!: conn_effect.quiet)
  next
    case True
    with Pair assms show ?thesis
      by (auto simp: conn_admit_def conn_await_def Let_def conn_session_def conn_live_def conn_label_def
          w_emit_def w_now_def intro!: conn_effect.admit)
  qed
qed

lemma poll_effect:
  assumes "conn_poll uni (w, c) = Some s'"
  shows "conn_effect uni (w, c) s'"
proof (cases "cn_pc c")
  case CStart
  with assms show ?thesis
    by (auto simp: conn_poll_def conn_session_def conn_live_def conn_label_def intro!: conn_effect.quiet)
next
  case CHandshake
  then have *: "conn_live c" "\<not> conn_session c" by (simp_all add: conn_live_def conn_session_def)
  from assms CHandshake show ?thesis
    by (auto simp: conn_poll_def split: prod.splits poll.splits sum.splits
        dest: recv_handshake_safe recv_handshake_valid intro!: admit_effect)
      (auto simp: conn_session_def conn_live_def conn_label_def CHandshake intro!: conn_effect.quiet)
next
  case CRecv
  then have *: "conn_live c" "conn_session c" by (simp_all add: conn_live_def conn_session_def)
  from assms CRecv show ?thesis
    by (auto simp: conn_poll_def * split: prod.splits poll.splits sum.splits if_splits intro!: finish_effect)
      (auto simp: conn_session_def conn_live_def w_emit_def * intro!: conn_effect.beat)
next
  case (CWrite hb)
  then have *: "conn_live c" "conn_session c" by (simp_all add: conn_live_def conn_session_def)
  from assms CWrite show ?thesis
    by (auto simp: conn_poll_def * split: prod.splits poll.splits sum.splits if_splits intro!: finish_effect)
      (auto simp: conn_session_def conn_live_def conn_await_def * intro!: conn_effect.quiet)
next
  case (CDone x)
  with assms show ?thesis by (simp add: conn_poll_def)
qed

lemma step_effect: "conn_step uni (w, c) e = Some s' \<Longrightarrow> conn_effect uni (w, c) s'"
  by (cases e) (auto simp: conn_step_def poll_effect conn_session_def conn_live_def intro!: conn_effect.quiet)

section \<open>Invariant of the server\<close>

text \<open>
  \<open>base\<close> are the metric calls made before. The caps on connections and peer names hold, only
  admitted names label what the server records, and a session belongs to an admitted name.
\<close>

definition names_inv :: "(rchar \<Rightarrow> bool) \<Rightarrow> metric_call list \<Rightarrow> server_state \<Rightarrow> bool" where
  "names_inv uni base s =
     (case s of (w, sv) \<Rightarrow>
        finite (w_peers w) \<and> card (w_peers w) \<le> MAX_UNIQUE_SERVER_PEERS
        \<and> (\<forall>p \<in> w_peers w. safe_name uni p \<and> valid_str p)
        \<and> (\<forall>c \<in> set (sv_conns sv). conn_session c \<longrightarrow> cn_peer c \<in> w_peers w)
        \<and> (\<exists>cs. w_calls w = base @ cs \<and> call_peers cs \<subseteq> w_peers w))"

definition probe_inv :: "probe \<Rightarrow> bool" where
  "probe_inv p =
     (case pb_pc p of
        PBanner \<Rightarrow> sent (pb_out p) = []
      | PDrain \<Rightarrow> sent (pb_out p) = PROBE_BANNER
      | PDone \<Rightarrow> \<exists>n. sent (pb_out p) = take n PROBE_BANNER)"

definition caps_inv :: "server_state \<Rightarrow> bool" where
  "caps_inv s \<longleftrightarrow> conn_permits (snd s) \<le> MAX_CONNECTIONS"

definition probes_inv :: "server_state \<Rightarrow> bool" where
  "probes_inv s \<longleftrightarrow>
     probe_permits (snd s) \<le> MAX_PROBE_CONNECTIONS \<and> (\<forall>p \<in> set (sv_probes (snd s)). probe_inv p)"

text \<open>A gauge that shows 1 belongs to a session that is open.\<close>

definition gauge_inv :: "server_state \<Rightarrow> bool" where
  "gauge_inv s \<longleftrightarrow>
     (\<forall>l. gauge_value (w_metrics (fst s)) server_session_active l = Some 1
        \<longrightarrow> (\<exists>c \<in> set (sv_conns (snd s)). conn_session c \<and> conn_label c = l))"

text \<open>The tasks stop on \<open>cancel\<close> only, the config watcher also when the sender is gone.\<close>

definition tasks_inv :: "server_state \<Rightarrow> bool" where
  "tasks_inv s \<longleftrightarrow> sv_cancelled (snd s) \<or> sv_accepting (snd s) \<and> sv_probing (snd s)"

text \<open>How a server step looks: on one connection, or elsewhere.\<close>

lemma step_connE:
  assumes "step_conn uni k e (w, sv) = Some (w', sv')"
  obtains c' where "k < length (sv_conns sv)" "conn_effect uni (w, sv_conns sv ! k) (w', c')"
    "sv' = sv\<lparr>sv_conns := (sv_conns sv)[k := c']\<rparr>"
  using assms that by (auto simp: step_conn_def split: if_splits option.splits dest: step_effect)

lemma server_step_env:
  assumes "server_step uni (w, sv) e = Some (w', sv')"
    and "case e of SvConnArrives _ _ \<Rightarrow> False | SvConnPoll _ \<Rightarrow> False | SvAccept _ \<Rightarrow> False | _ \<Rightarrow> True"
  shows "w_metrics w' = w_metrics w" "sv_conns sv' = sv_conns sv"
  using assms
  by (cases e; auto simp: server_step_def accept_error_def accept_probe_def accept_probe_error_def
      watch_config_def Let_def split: if_splits option.splits)+

lemma server_step_accept:
  assumes "server_step uni (w, sv) (SvAccept faults) = Some (w', sv')"
  shows "w' = w" "sv' = sv \<or> (conn_permits sv < MAX_CONNECTIONS
     \<and> sv' = sv\<lparr>sv_conns := sv_conns sv @ [conn_spawn (sv_node sv) (sv_recv_timeout sv) faults]\<rparr>)"
  using assms by (auto simp: server_step_def accept_conn_def split: if_splits)

lemma server_step_cases:
  assumes "server_step uni (w, sv) e = Some (w', sv')"
  obtains (conn) k c' where "k < length (sv_conns sv)" "conn_effect uni (w, sv_conns sv ! k) (w', c')"
      "sv' = sv\<lparr>sv_conns := (sv_conns sv)[k := c']\<rparr>"
  | (accept) c where "w' = w" "sv' = sv\<lparr>sv_conns := sv_conns sv @ [c]\<rparr>" "cn_pc c = CStart"
      "conn_permits sv < MAX_CONNECTIONS"
  | (env) "w_metrics w' = w_metrics w" "sv_conns sv' = sv_conns sv"
proof -
  consider k i where "e = SvConnArrives k i" | k where "e = SvConnPoll k" | faults where "e = SvAccept faults"
    | "case e of SvConnArrives _ _ \<Rightarrow> False | SvConnPoll _ \<Rightarrow> False | SvAccept _ \<Rightarrow> False | _ \<Rightarrow> True"
    by (cases e) simp_all
  then show ?thesis
  proof cases
    case (1 k i)
    with assms have "step_conn uni k (CArrives i) (w, sv) = Some (w', sv')" by (simp add: server_step_def)
    then show ?thesis by (rule step_connE) (rule conn)
  next
    case (2 k)
    with assms have "step_conn uni k CPoll (w, sv) = Some (w', sv')" by (simp add: server_step_def)
    then show ?thesis by (rule step_connE) (rule conn)
  next
    case (3 faults)
    with assms have *: "server_step uni (w, sv) (SvAccept faults) = Some (w', sv')" by simp
    from server_step_accept [OF *] show ?thesis
    proof (elim disjE conjE)
      assume "w' = w" "sv' = sv"
      then show ?thesis by (intro env) simp_all
    qed (rule accept, assumption+, simp add: conn_spawn_def)
  next
    case 4
    from server_step_env [OF assms this] show ?thesis by (rule env)
  qed
qed

text \<open>The registry may grow, and what is recorded must be labelled with names in it.\<close>

lemma names_grow:
  assumes inv: "names_inv uni base (w, sv)" and calls: "w_calls w' = w_calls w @ cs" "call_peers cs \<subseteq> w_peers w'"
    and grow: "w_peers w \<subseteq> w_peers w'" "finite (w_peers w')" "card (w_peers w') \<le> MAX_UNIQUE_SERVER_PEERS"
      "\<forall>p \<in> w_peers w'. safe_name uni p \<and> valid_str p"
    and conn: "conn_session c' \<Longrightarrow> cn_peer c' \<in> w_peers w'"
  shows "names_inv uni base (w', sv\<lparr>sv_conns := (sv_conns sv)[k := c']\<rparr>)"
proof -
  from inv obtain ds where ds: "w_calls w = base @ ds" "call_peers ds \<subseteq> w_peers w"
    and old: "\<forall>c \<in> set (sv_conns sv). conn_session c \<longrightarrow> cn_peer c \<in> w_peers w"
    by (auto simp: names_inv_def)
  have "w_calls w' = base @ (ds @ cs)" "call_peers (ds @ cs) \<subseteq> w_peers w'" using calls ds grow(1) by auto
  moreover have "\<forall>c \<in> set ((sv_conns sv)[k := c']). conn_session c \<longrightarrow> cn_peer c \<in> w_peers w'"
    using grow(1) conn old set_update_subset_insert [of "sv_conns sv" k c'] by blast
  ultimately show ?thesis using grow(2-4) by (auto simp: names_inv_def)
qed

lemma names_admit:
  assumes inv: "names_inv uni base (w, sv)" and reg: "try_register (cn_peer c') (w_peers w) = (True, seen)"
    and safe: "safe_name uni (cn_peer c') \<and> valid_str (cn_peer c')"
    and w': "w_metrics w' = emit (init_calls (cn_node c') (cn_peer c') @ server_start_calls (conn_label c') t)
      ((w_metrics w)\<lparr>server_peers := seen\<rparr>)"
  shows "names_inv uni base (w', sv\<lparr>sv_conns := (sv_conns sv)[k := c']\<rparr>)"
proof (rule names_grow [OF inv])
  from w' have peers: "w_peers w' = seen" by simp
  from inv have fin: "finite (w_peers w)" "card (w_peers w) \<le> MAX_UNIQUE_SERVER_PEERS" by (simp_all add: names_inv_def)
  show "w_peers w \<subseteq> w_peers w'" unfolding peers by (rule peers.keeps [OF reg])
  show "finite (w_peers w')" unfolding peers by (rule peers.keeps_finite [OF reg fin(1)])
  show "card (w_peers w') \<le> MAX_UNIQUE_SERVER_PEERS" unfolding peers by (rule peers.capped [OF fin reg])
  show "\<forall>p \<in> w_peers w'. safe_name uni p \<and> valid_str p"
    using inv safe reg unfolding peers by (auto simp: try_register_cases names_inv_def)
  show "cn_peer c' \<in> w_peers w'" using peers.answer [OF fin(1) reg] by (simp add: peers)
  then show "call_peers (init_calls (cn_node c') (cn_peer c') @ server_start_calls (conn_label c') t) \<subseteq> w_peers w'"
    by (simp add: call_peers_session conn_label_def)
  show "w_calls w' = w_calls w @ init_calls (cn_node c') (cn_peer c') @ server_start_calls (conn_label c') t"
    using w' by simp
qed

lemma names_conn:
  assumes inv: "names_inv uni base (w, sv)" and k: "k < length (sv_conns sv)"
    and eff: "conn_effect uni (w, sv_conns sv ! k) (w', c')"
  shows "names_inv uni base (w', sv\<lparr>sv_conns := (sv_conns sv)[k := c']\<rparr>)"
proof -
  let ?c = "sv_conns sv ! k"
  from inv k have session: "conn_session ?c \<Longrightarrow> cn_peer ?c \<in> w_peers w" by (simp add: names_inv_def)
  note facts = names_inv_def call_peers_session conn_label_def
  from eff show ?thesis
  proof cases
    case quiet
    with inv session show ?thesis by (intro names_grow [OF inv, of _ "[]"]) (simp_all add: facts)
  next
    case (admit seen t)
    from names_admit [OF inv admit(5,4,6)] show ?thesis .
  next
    case (beat t n)
    with inv session show ?thesis
      by (intro names_grow [OF inv, of _ "server_beat_calls (conn_label ?c) t n"]) (simp_all add: facts)
  next
    case (finish d reason)
    with inv session show ?thesis
      by (intro names_grow [OF inv, of _ "server_end_calls (conn_label ?c) d reason"]) (simp_all add: facts)
  qed
qed

interpretation server_names: stepper "server_step uni" "names_inv uni base" for uni base
proof
  fix s s' e
  assume step: "server_step uni s e = Some s'" and inv: "names_inv uni base s"
  obtain w sv w' sv' where s: "s = (w, sv)" "s' = (w', sv')" by (cases s, cases s')
  from step have "server_step uni (w, sv) e = Some (w', sv')" by (simp add: s)
  then show "names_inv uni base s'"
  proof (cases rule: server_step_cases)
    case (conn k c')
    with inv s names_conn show ?thesis by simp
  next
    case (accept c)
    with inv s show ?thesis by (simp add: names_inv_def conn_session_def)
  next
    case env
    with inv s show ?thesis by (simp add: names_inv_def)
  qed
qed

lemma effect_live: "conn_effect uni (w, c) (w', c') \<Longrightarrow> conn_live c' \<Longrightarrow> conn_live c"
  by (auto elim: conn_effect.cases)

interpretation server_caps: stepper "server_step uni" caps_inv for uni
proof
  fix s s' e
  assume step: "server_step uni s e = Some s'" and inv: "caps_inv s"
  obtain w sv w' sv' where s: "s = (w, sv)" "s' = (w', sv')" by (cases s, cases s')
  from step have "server_step uni (w, sv) e = Some (w', sv')" by (simp add: s)
  then show "caps_inv s'"
  proof (cases rule: server_step_cases)
    case (conn k c')
    have "conn_permits sv' \<le> conn_permits sv"
      unfolding conn_permits_def conn(3)
      using length_filter_update [of k "sv_conns sv" conn_live c'] effect_live [OF conn(2)] conn(1)
      by simp
    with inv s show ?thesis by (simp add: caps_inv_def)
  next
    case (accept c)
    with s show ?thesis by (simp add: caps_inv_def conn_permits_def)
  next
    case env
    with inv s show ?thesis by (simp add: caps_inv_def conn_permits_def)
  qed
qed

lemma probe_inv_inbox [simp]: "probe_inv (p\<lparr>pb_inbox := i\<rparr>) = probe_inv p"
  by (simp add: probe_inv_def split: probe_pc.split)

lemma probe_poll_inv:
  assumes "probe_poll now p = Some p'" and "probe_inv p"
  shows "probe_inv p' \<and> probe_live p"
proof (cases "pb_pc p")
  case PBanner
  obtain r out where w: "write_all PROBE_BANNER (pb_out p) = (r, out)"
    by (cases "write_all PROBE_BANNER (pb_out p)")
  from assms(2) PBanner write_all_prefix [OF w] have "\<exists>n. sent out = take n PROBE_BANNER"
    by (simp add: probe_inv_def)
  with assms w PBanner write_all_ok [of PROBE_BANNER "pb_out p" out] show ?thesis
    by (auto simp: probe_poll_def probe_inv_def probe_live_def split: sum.splits)
next
  case PDrain
  have "\<exists>n. PROBE_BANNER = take n PROBE_BANNER" by (rule exI [of _ "length PROBE_BANNER"]) simp
  with assms PDrain show ?thesis
    by (auto simp: probe_poll_def probe_inv_def probe_live_def split: prod.splits bool.splits if_splits)
next
  case PDone
  with assms show ?thesis by (simp add: probe_poll_def)
qed

text \<open>How a server step changes the probes.\<close>

lemma server_step_probes:
  assumes "server_step uni (w, sv) e = Some (w', sv')"
  obtains (same) "sv_probes sv' = sv_probes sv"
  | (accept) p where "sv_probes sv' = sv_probes sv @ [p]" "probe_inv p"
      "probe_permits sv < MAX_PROBE_CONNECTIONS"
  | (update) k p where "k < length (sv_probes sv)" "sv_probes sv' = (sv_probes sv)[k := p]"
      "probe_inv (sv_probes sv ! k) \<Longrightarrow> probe_inv p" "probe_live p \<Longrightarrow> probe_live (sv_probes sv ! k)"
proof -
  consider faults where "e = SvProbeAccept faults" | k i where "e = SvProbeArrives k i"
    | k where "e = SvProbePoll k"
    | "case e of SvProbeAccept _ \<Rightarrow> False | SvProbeArrives _ _ \<Rightarrow> False | SvProbePoll _ \<Rightarrow> False | _ \<Rightarrow> True"
    by (cases e) simp_all
  then show ?thesis
  proof cases
    case (1 faults)
    with assms have "sv' = sv \<or> (probe_permits sv < MAX_PROBE_CONNECTIONS
        \<and> sv_probes sv' = sv_probes sv @ [probe_spawn (sv_probe_timeout sv) faults])"
      by (auto simp: server_step_def accept_probe_def split: if_splits)
    moreover have "probe_inv (probe_spawn (sv_probe_timeout sv) faults)"
      by (simp add: probe_inv_def probe_spawn_def)
    ultimately show ?thesis using same accept by blast
  next
    case (2 k i)
    let ?p = "(sv_probes sv ! k)\<lparr>pb_inbox := pb_inbox (sv_probes sv ! k) @ i\<rparr>"
    from 2 assms have "k < length (sv_probes sv)" "sv_probes sv' = (sv_probes sv)[k := ?p]"
      by (auto simp: server_step_def Let_def split: if_splits)
    then show ?thesis by (rule update) (simp_all add: probe_live_def)
  next
    case (3 k)
    with assms obtain p where p: "k < length (sv_probes sv)" "sv_probes sv' = (sv_probes sv)[k := p]"
      "probe_poll (w_mono w) (sv_probes sv ! k) = Some p"
      by (auto simp: server_step_def split: if_splits option.splits)
    show ?thesis
    proof (rule update [OF p(1,2)])
      show "probe_inv p" if "probe_inv (sv_probes sv ! k)" using probe_poll_inv [OF p(3) that] by simp
      show "probe_live (sv_probes sv ! k)"
        using p(3) by (auto simp: probe_poll_def probe_live_def split: probe_pc.splits)
    qed
  next
    case 4
    with assms have "sv_probes sv' = sv_probes sv"
      by (cases e) (auto simp: server_step_def accept_conn_def accept_error_def accept_probe_error_def
          step_conn_def watch_config_def Let_def split: if_splits option.splits)
    then show ?thesis by (rule same)
  qed
qed

interpretation server_probes: stepper "server_step uni" probes_inv for uni
proof
  fix s s' e
  assume step: "server_step uni s e = Some s'" and inv: "probes_inv s"
  obtain w sv w' sv' where s: "s = (w, sv)" "s' = (w', sv')" by (cases s, cases s')
  from step have "server_step uni (w, sv) e = Some (w', sv')" by (simp add: s)
  then show "probes_inv s'"
  proof (cases rule: server_step_probes)
    case same
    with inv s show ?thesis by (simp add: probes_inv_def probe_permits_def)
  next
    case (accept p)
    with inv s show ?thesis by (auto simp: probes_inv_def probe_permits_def)
  next
    case (update k p)
    have "probe_permits sv' \<le> probe_permits sv"
      unfolding probe_permits_def update(2) using update(1,4) by (rule length_filter_update)
    moreover have "\<forall>q \<in> set (sv_probes sv'). probe_inv q"
      unfolding update(2) using set_update_subset_insert [of "sv_probes sv" k p] update(1,3) inv s
      by (auto simp: probes_inv_def)
    ultimately show ?thesis using inv s by (simp add: probes_inv_def)
  qed
qed

interpretation server_tasks: stepper "server_step uni" tasks_inv for uni
proof
  fix s s' e
  assume step: "server_step uni s e = Some s'" and inv: "tasks_inv s"
  obtain w sv where s: "s = (w, sv)" by (cases s)
  from step inv show "tasks_inv s'"
    by (cases e) (auto simp: s server_step_def tasks_inv_def accept_conn_def accept_error_def
        accept_probe_def accept_probe_error_def step_conn_def watch_config_def Let_def
        split: if_splits option.splits)
qed

text \<open>The active gauge after what a connection records.\<close>

lemma active_after:
  "gauge_value (emit (init_calls node peer @ server_start_calls l' t) m) server_session_active l
     = (if l = l' then Some 1 else gauge_value m server_session_active l)"
  "gauge_value (emit (server_beat_calls l' t n) m) server_session_active l
     = gauge_value m server_session_active l"
  "gauge_value (emit (server_end_calls l' d r) m) server_session_active l
     = (if l = l' then Some 0 else gauge_value m server_session_active l)"
proof -
  have "gauge_value (emit (init_calls node peer @ GaugeSet server_session_active l' 1
      # [FloatSet server_session_start l' t, CounterInc server_sessions_total l']) m) server_session_active l' = Some 1"
    by (rule gauge_emit_set) simp
  moreover have "gauge_value (emit (init_calls node peer @ server_start_calls l' t) m) server_session_active l
      = gauge_value m server_session_active l" if "l \<noteq> l'"
    using that by (intro gauge_emit_frame) (simp add: init_calls_frame server_start_calls_def)
  ultimately show "gauge_value (emit (init_calls node peer @ server_start_calls l' t) m) server_session_active l
      = (if l = l' then Some 1 else gauge_value m server_session_active l)"
    by (simp add: server_start_calls_def)
  show "gauge_value (emit (server_beat_calls l' t n) m) server_session_active l
      = gauge_value m server_session_active l"
    by (rule gauge_emit_frame) (simp add: server_beat_calls_def)
  have "gauge_value (emit ([] @ GaugeSet server_session_active l' 0
      # [FloatSet server_session_duration l' d,
         DisconnectInc server_disconnects (reason_label (pl_node l') (pl_peer l') r)]) m) server_session_active l' = Some 0"
    by (rule gauge_emit_set) simp
  moreover have "gauge_value (emit (server_end_calls l' d r) m) server_session_active l
      = gauge_value m server_session_active l" if "l \<noteq> l'"
    using that by (intro gauge_emit_frame) (simp add: server_end_calls_def)
  ultimately show "gauge_value (emit (server_end_calls l' d r) m) server_session_active l
      = (if l = l' then Some 0 else gauge_value m server_session_active l)"
    by (simp add: server_end_calls_def)
qed

lemma gauge_server_peers [simp]:
  "gauge_value (m\<lparr>server_peers := seen\<rparr>) f l = gauge_value m f l"
  by (simp add: gauge_value_def)

lemma gauge_conn:
  assumes inv: "gauge_inv (w, sv)" and k: "k < length (sv_conns sv)"
    and eff: "conn_effect uni (w, sv_conns sv ! k) (w', c')"
  shows "gauge_inv (w', sv\<lparr>sv_conns := (sv_conns sv)[k := c']\<rparr>)"
proof -
  let ?c = "sv_conns sv ! k"
  let ?v = "\<lambda>w l. gauge_value (w_metrics w) server_session_active l"
  have new: "c' \<in> set ((sv_conns sv)[k := c'])" using k by (simp add: set_update_memI)
  have kept: "x = ?c \<or> x \<in> set ((sv_conns sv)[k := c'])" if "x \<in> set (sv_conns sv)" for x
    using that k by (auto simp: in_set_conv_nth) (metis length_list_update nth_list_update_neq)
  have *: ?thesis
    if "\<And>l. ?v w' l = Some 1 \<Longrightarrow>
          conn_session c' \<and> conn_label c' = l \<or> ?v w l = Some 1 \<and> \<not> (conn_session ?c \<and> conn_label ?c = l)"
    using that inv new kept unfolding gauge_inv_def by (simp, blast)
  from eff show ?thesis
  proof cases
    case quiet
    then show ?thesis by (intro *) auto
  next
    case (admit seen t)
    then show ?thesis by (intro *) (auto simp: active_after split: if_splits)
  next
    case (beat t n)
    then show ?thesis by (intro *) (auto simp: active_after)
  next
    case (finish d reason)
    then show ?thesis by (intro *) (auto simp: active_after split: if_splits)
  qed
qed

interpretation server_gauge: stepper "server_step uni" gauge_inv for uni
proof
  fix s s' e
  assume step: "server_step uni s e = Some s'" and inv: "gauge_inv s"
  obtain w sv w' sv' where s: "s = (w, sv)" "s' = (w', sv')" by (cases s, cases s')
  from step have "server_step uni (w, sv) e = Some (w', sv')" by (simp add: s)
  then show "gauge_inv s'"
  proof (cases rule: server_step_cases)
    case (conn k c')
    with inv s gauge_conn show ?thesis by simp
  next
    case (accept c)
    with inv s show ?thesis by (auto simp: gauge_inv_def)
  next
    case env
    with inv s show ?thesis by (simp add: gauge_inv_def)
  qed
qed

section \<open>Reloads, tasks and idle probes over a run\<close>

fun reloads :: "server_event list \<Rightarrow> config list" where
  "reloads [] = []"
| "reloads (SvConfig cfg # es) = cfg # reloads es"
| "reloads (_ # es) = reloads es"

text \<open>What one event does to the timeouts: only a reload stores them, and running sessions keep theirs.\<close>

lemma server_step_timeouts:
  assumes "server_step uni (w, sv) e = Some (w', sv')"
  shows "sv_recv_timeout sv' = (case e of SvConfig cfg \<Rightarrow> sc_heartbeat_recv_timeout (cfg_server cfg) | _ \<Rightarrow> sv_recv_timeout sv)"
    "sv_probe_timeout sv' = (case e of SvConfig cfg \<Rightarrow> sc_probe_idle_timeout (cfg_server cfg) | _ \<Rightarrow> sv_probe_timeout sv)"
    "length (sv_conns sv) \<le> length (sv_conns sv')"
    "k < length (sv_conns sv) \<Longrightarrow> cn_timeout (sv_conns sv' ! k) = cn_timeout (sv_conns sv ! k)"
  using assms conn_step_timeout
  by (cases e; auto simp: server_step_def accept_conn_def accept_error_def accept_probe_def accept_probe_error_def
      step_conn_def watch_config_def Let_def nth_append nth_list_update split: if_splits option.splits)+

lemma run_timeouts:
  assumes "run_steps (server_step uni) (w, sv) es = Some (w', sv')"
  shows "sv_recv_timeout sv' = foldl (\<lambda>_ cfg. sc_heartbeat_recv_timeout (cfg_server cfg)) (sv_recv_timeout sv) (reloads es)
    \<and> sv_probe_timeout sv' = foldl (\<lambda>_ cfg. sc_probe_idle_timeout (cfg_server cfg)) (sv_probe_timeout sv) (reloads es)
    \<and> length (sv_conns sv) \<le> length (sv_conns sv')
    \<and> (\<forall>k < length (sv_conns sv). cn_timeout (sv_conns sv' ! k) = cn_timeout (sv_conns sv ! k))"
  using assms
proof (induction es arbitrary: w sv)
  case Nil
  then show ?case by simp
next
  case (Cons e es)
  then obtain w1 sv1 where s: "server_step uni (w, sv) e = Some (w1, sv1)"
    and r: "run_steps (server_step uni) (w1, sv1) es = Some (w', sv')" by (auto split: option.splits)
  from Cons.IH [OF r] server_step_timeouts [OF s] show ?case
    by (cases e) auto
qed

lemma watcher_alive:
  assumes "run_steps (server_step uni) (w, sv) es = Some (w', sv')" and "SvConfigGone \<notin> set es"
    and "sv_cancelled sv \<or> sv_watching sv"
  shows "sv_cancelled sv' \<or> sv_watching sv'"
  using assms
proof (induction es arbitrary: w sv)
  case Nil
  then show ?case by simp
next
  case (Cons e es)
  then obtain w1 sv1 where s: "server_step uni (w, sv) e = Some (w1, sv1)"
    and r: "run_steps (server_step uni) (w1, sv1) es = Some (w', sv')" by (auto split: option.splits)
  from s Cons.prems(2,3) have "sv_cancelled sv1 \<or> sv_watching sv1"
    by (cases e) (auto simp: server_step_def accept_conn_def accept_error_def accept_probe_def accept_probe_error_def
        step_conn_def watch_config_def Let_def split: if_splits option.splits)
  with Cons.IH [OF r] Cons.prems(2) show ?case by simp
qed

lemma probe_drain_arrivals: "only_arrivals i \<Longrightarrow> \<exists>i'. probe_drain i = (False, i')"
proof (induction i rule: probe_drain.induct)
  case (1 i)
  from stream_read_arrivals [OF "1.prems", of 64]
  consider "stream_read 64 i = (Pending, [])"
    | bs i' where "stream_read 64 i = (Ready (Inr bs), i')" "bs \<noteq> []" "only_arrivals i'" by auto
  then show ?case
  proof cases
    case 1
    then show ?thesis by (simp add: probe_drain.simps)
  next
    case (2 bs i')
    from "1.IH" [OF 2(1) [symmetric] refl refl 2(2,3)] 2 show ?thesis by (simp add: probe_drain.simps [of i])
  qed
qed

text \<open>
  After a session with label \<open>l\<close> has ended: \<open>old\<close> are the connections at that moment. The gauge
  of \<open>l\<close> stays 0 until a session that was not open then is.
\<close>

definition opened_since :: "conn list \<Rightarrow> conn list \<Rightarrow> nat \<Rightarrow> bool" where
  "opened_since old cs k \<longleftrightarrow>
     k < length cs \<and> conn_session (cs ! k) \<and> (k < length old \<longrightarrow> \<not> conn_session (old ! k))"

definition shadow_inv :: "peer_label \<Rightarrow> conn list \<Rightarrow> server_state \<Rightarrow> bool" where
  "shadow_inv l old s =
     (case s of (w, sv) \<Rightarrow>
        length old \<le> length (sv_conns sv)
        \<and> (\<forall>k < length old. conn_session (old ! k) \<and> conn_live (sv_conns sv ! k) \<longrightarrow> conn_session (sv_conns sv ! k))
        \<and> (gauge_value (w_metrics w) server_session_active l = Some 0
           \<or> (\<exists>k. opened_since old (sv_conns sv) k \<and> conn_label (sv_conns sv ! k) = l)))"

lemma shadow_conn:
  assumes inv: "shadow_inv l old (w, sv)" and k: "k < length (sv_conns sv)"
    and eff: "conn_effect uni (w, sv_conns sv ! k) (w', c')"
  shows "shadow_inv l old (w', sv\<lparr>sv_conns := (sv_conns sv)[k := c']\<rparr>)"
proof -
  let ?cs = "sv_conns sv" and ?cs' = "(sv_conns sv)[k := c']"
  let ?v = "\<lambda>w. gauge_value (w_metrics w) server_session_active l"
  have other: "opened_since old ?cs' j \<longleftrightarrow> opened_since old ?cs j" if "j \<noteq> k" for j
    using that by (simp add: opened_since_def)
  have *: ?thesis
    if "?v w' = Some 0 \<or> opened_since old ?cs' k \<and> conn_label c' = l
          \<or> ?v w' = ?v w \<and> (opened_since old ?cs k \<and> conn_label (?cs ! k) = l \<longrightarrow> opened_since old ?cs' k \<and> conn_label c' = l)"
      and "conn_session (?cs ! k) \<longrightarrow> conn_live c' \<longrightarrow> conn_session c'" "conn_live c' \<longrightarrow> conn_live (?cs ! k)"
  proof -
    have "\<exists>j. opened_since old ?cs' j \<and> conn_label (?cs' ! j) = l" if "?v w' \<noteq> Some 0"
    proof -
      from that \<open>?v w' = Some 0 \<or> _\<close> consider "opened_since old ?cs' k" "conn_label c' = l"
        | "?v w \<noteq> Some 0" "opened_since old ?cs k \<and> conn_label (?cs ! k) = l \<longrightarrow> opened_since old ?cs' k \<and> conn_label c' = l"
        by metis
      then show ?thesis
      proof cases
        case 1
        with k show ?thesis by (intro exI [of _ k]) simp
      next
        case 2
        with inv obtain j where j: "opened_since old ?cs j" "conn_label (?cs ! j) = l" by (auto simp: shadow_inv_def)
        with 2(2) other [of j] k show ?thesis by (intro exI [of _ j]) (cases "j = k"; simp)
      qed
    qed
    then have "?v w' = Some 0 \<or> (\<exists>j. opened_since old ?cs' j \<and> conn_label (?cs' ! j) = l)" by blast
    moreover have "\<forall>j < length old. conn_session (old ! j) \<and> conn_live (?cs' ! j) \<longrightarrow> conn_session (?cs' ! j)"
      using inv k that(2,3) by (simp add: shadow_inv_def nth_list_update)
    ultimately show ?thesis using inv by (simp add: shadow_inv_def)
  qed
  from inv have past: "k < length old \<Longrightarrow> conn_session (old ! k) \<Longrightarrow> conn_live (?cs ! k) \<Longrightarrow> conn_session (?cs ! k)"
    by (simp add: shadow_inv_def)
  from eff show ?thesis
  proof cases
    case quiet
    with k show ?thesis by (intro *) (auto simp: opened_since_def)
  next
    case (admit seen t)
    with k past show ?thesis by (intro *) (auto simp: active_after opened_since_def)
  next
    case (beat t n)
    with k show ?thesis by (intro *) (auto simp: active_after opened_since_def)
  next
    case (finish d reason)
    with k show ?thesis by (intro *) (auto simp: active_after opened_since_def)
  qed
qed

interpretation server_shadow: stepper "server_step uni" "shadow_inv l old" for uni l old
proof
  fix s s' e
  assume step: "server_step uni s e = Some s'" and inv: "shadow_inv l old s"
  obtain w sv w' sv' where s: "s = (w, sv)" "s' = (w', sv')" by (cases s, cases s')
  from step have "server_step uni (w, sv) e = Some (w', sv')" by (simp add: s)
  then show "shadow_inv l old s'"
  proof (cases rule: server_step_cases)
    case (conn k c')
    with inv s shadow_conn show ?thesis by simp
  next
    case (accept c)
    have "\<exists>k. opened_since old (sv_conns sv @ [c]) k \<and> conn_label ((sv_conns sv @ [c]) ! k) = l"
      if "\<exists>k. opened_since old (sv_conns sv) k \<and> conn_label (sv_conns sv ! k) = l"
    proof -
      from that obtain k where "opened_since old (sv_conns sv) k" "conn_label (sv_conns sv ! k) = l" by blast
      then show ?thesis by (intro exI [of _ k]) (simp add: opened_since_def nth_append)
    qed
    moreover have "(sv_conns sv @ [c]) ! k = sv_conns sv ! k" if "k < length old" for k
      using that inv s by (simp add: shadow_inv_def nth_append)
    ultimately show ?thesis using accept inv s unfolding shadow_inv_def by (simp, blast)
  next
    case env
    with inv s show ?thesis by (simp add: shadow_inv_def)
  qed
qed

text \<open>A poll that ends a session sets its gauge to 0 and leaves every other connection alone.\<close>

lemma session_ends:
  assumes "server_step uni (w, sv) (SvConnPoll i) = Some (w', sv')"
    and "conn_session (sv_conns sv ! i)" and "\<not> conn_session (sv_conns sv' ! i)"
  shows "gauge_value (w_metrics w') server_session_active (conn_label (sv_conns sv ! i)) = Some 0
    \<and> (\<forall>j. j \<noteq> i \<longrightarrow> sv_conns sv' ! j = sv_conns sv ! j)"
proof -
  from assms(1) obtain c' where i: "i < length (sv_conns sv)" "sv_conns sv' = (sv_conns sv)[i := c']"
    and "conn_step uni (w, sv_conns sv ! i) CPoll = Some (w', c')"
    by (auto simp: server_step_def step_conn_def split: if_splits option.splits)
  from step_effect [OF this(3)] have eff: "conn_effect uni (w, sv_conns sv ! i) (w', c')" .
  from i assms(3) have "\<not> conn_session c'" by simp
  with eff assms(2) have "gauge_value (w_metrics w') server_session_active (conn_label (sv_conns sv ! i)) = Some 0"
    by cases (simp_all add: active_after)
  with i show ?thesis by simp
qed

text \<open>What a step does to one probe: without a poll of it, only its inbox changes.\<close>

lemma server_step_probe:
  assumes "server_step uni (w, sv) e = Some (w', sv')" and "k < length (sv_probes sv)"
  shows "k < length (sv_probes sv')" "pb_idle (sv_probes sv' ! k) = pb_idle (sv_probes sv ! k)"
    "e \<noteq> SvProbePoll k \<Longrightarrow> pb_pc (sv_probes sv' ! k) = pb_pc (sv_probes sv ! k) \<and> pb_deadline (sv_probes sv' ! k) = pb_deadline (sv_probes sv ! k)"
proof -
  have idle: "pb_idle p = pb_idle q" if "probe_poll now q = Some p" for now p q
    using that by (auto simp: probe_poll_def split: probe_pc.splits prod.splits sum.splits bool.splits if_splits)
  have "k < length (sv_probes sv') \<and> pb_idle (sv_probes sv' ! k) = pb_idle (sv_probes sv ! k)
    \<and> (e \<noteq> SvProbePoll k \<longrightarrow> pb_pc (sv_probes sv' ! k) = pb_pc (sv_probes sv ! k) \<and> pb_deadline (sv_probes sv' ! k) = pb_deadline (sv_probes sv ! k))"
  proof (cases "sv_probes sv' = sv_probes sv")
    case True
    with assms(2) show ?thesis by simp
  next
    case False
    with assms idle show ?thesis
      by (cases e) (auto simp: server_step_def accept_conn_def accept_error_def accept_probe_def accept_probe_error_def
          step_conn_def watch_config_def Let_def nth_append nth_list_update split: if_splits option.splits)
  qed
  then show "k < length (sv_probes sv')" "pb_idle (sv_probes sv' ! k) = pb_idle (sv_probes sv ! k)"
    "e \<noteq> SvProbePoll k \<Longrightarrow> pb_pc (sv_probes sv' ! k) = pb_pc (sv_probes sv ! k) \<and> pb_deadline (sv_probes sv' ! k) = pb_deadline (sv_probes sv ! k)" by blast+
qed

lemma server_run_probe:
  assumes "run_steps (server_step uni) (w, sv) es = Some (w', sv')" and "k < length (sv_probes sv)"
  shows "k < length (sv_probes sv') \<and> pb_idle (sv_probes sv' ! k) = pb_idle (sv_probes sv ! k)
    \<and> (SvProbePoll k \<notin> set es \<longrightarrow> pb_pc (sv_probes sv' ! k) = pb_pc (sv_probes sv ! k) \<and> pb_deadline (sv_probes sv' ! k) = pb_deadline (sv_probes sv ! k))"
  using assms
proof (induction es arbitrary: w sv)
  case Nil
  then show ?case by simp
next
  case (Cons e es)
  then obtain w1 sv1 where s: "server_step uni (w, sv) e = Some (w1, sv1)"
    and r: "run_steps (server_step uni) (w1, sv1) es = Some (w', sv')" by (auto split: option.splits)
  note one = server_step_probe [OF s Cons.prems(2)]
  from Cons.IH [OF r one(1)] one(2,3) show ?case by auto
qed

text \<open>A probe starts to drain one idle timeout ahead of its deadline.\<close>

lemma banner_sent:
  assumes "server_step uni (w, sv) (SvProbePoll k) = Some (w', sv')" and "pb_pc (sv_probes sv' ! k) = PDrain"
  shows "w' = w" "k < length (sv_probes sv)" "pb_deadline (sv_probes sv' ! k) = w_mono w + from_secs (pb_idle (sv_probes sv' ! k))"
  using assms
  by (auto simp: server_step_def probe_poll_def split: probe_pc.splits prod.splits sum.splits bool.splits if_splits option.splits)

lemmas server_run_simps =
  server_step_def server_start_def accept_conn_def accept_probe_def step_conn_def conn_permits_def
  probe_permits_def conn_live_def probe_live_def MAX_CONNECTIONS_def MAX_PROBE_CONNECTIONS_def

text \<open>One client announces itself and is admitted.\<close>

definition admit_events :: "nat \<Rightarrow> server_event list" where
  "admit_events k = [SvAccept [], SvConnPoll k, SvConnArrives k [Arrive [0, 0, 0, 2, 110, 49]], SvConnPoll k]"

section \<open>Properties\<close>

text \<open>
  C11. However connections are accepted, served and closed, at most 128 heartbeat connections
  and 32 probe connections are open at a time; and a probe connection is sent nothing but the
  banner, cut short only by a write error.
\<close>

theorem connection_caps:
  assumes "run_steps (server_step uni) (w, server_start cfg node) es = Some (w', sv)"
  shows "conn_permits sv \<le> 128 \<and> probe_permits sv \<le> 32
    \<and> (\<forall>p \<in> set (sv_probes sv). \<exists>n. sent (pb_out p) = take n PROBE_BANNER)"
proof -
  have "caps_inv (w', sv)"
    by (rule server_caps.inv_run [OF assms]) (simp add: caps_inv_def server_start_def conn_permits_def)
  moreover have p: "probes_inv (w', sv)"
    by (rule server_probes.inv_run [OF assms]) (simp add: probes_inv_def server_start_def probe_permits_def)
  moreover have "\<exists>n. sent (pb_out p) = take n PROBE_BANNER" if "probe_inv p" for p
    using that by (cases "pb_pc p") (auto simp: probe_inv_def intro: exI [of _ 0] exI [of _ "length PROBE_BANNER"])
  ultimately show ?thesis
    by (simp add: caps_inv_def probes_inv_def MAX_CONNECTIONS_def MAX_PROBE_CONNECTIONS_def)
qed

theorem connection_caps_witness:
  "\<exists>w' sv. run_steps (server_step (\<lambda>_. False)) (fresh_world 0, server_start example_server [110, 50])
       [SvAccept [], SvProbeAccept [Some (4, BrokenPipe)], SvProbePoll 0] = Some (w', sv)
     \<and> conn_permits sv = 1 \<and> conn_permits sv \<le> 128 \<and> probe_permits sv = 0
     \<and> (\<forall>p \<in> set (sv_probes sv). \<exists>n. sent (pb_out p) = take n PROBE_BANNER)"
proof -
  have "\<exists>w' sv. run_steps (server_step (\<lambda>_. False)) (fresh_world 0, server_start example_server [110, 50])
       [SvAccept [], SvProbeAccept [Some (4, BrokenPipe)], SvProbePoll 0] = Some (w', sv)
     \<and> conn_permits sv = 1 \<and> probe_permits sv = 0"
    by (simp add: server_run_simps probe_poll_def probe_spawn_def write_all_def conn_spawn_def)
  with connection_caps [of "\<lambda>_. False" "fresh_world 0" example_server "[110, 50]"] show ?thesis by fastforce
qed

text \<open>
  The server on its own: starting without registered peers, the server's metrics carry at most 512 different peer
  names, whatever clients connect and whatever they announce, and each of these names is one
  that is safe in a label: non-empty, at most 64 characters, of the allowed kinds.
\<close>

theorem label_cap:
  assumes "run_steps (server_step uni) (w, server_start cfg node) es = Some (w', sv)" and "w_peers w = {}"
  shows "\<exists>cs. w_calls w' = w_calls w @ cs \<and> finite (call_peers cs) \<and> card (call_peers cs) \<le> 512
    \<and> (\<forall>p \<in> call_peers cs. safe_name uni p)"
proof -
  have "names_inv uni (w_calls w) (w', sv)"
    by (rule server_names.inv_run [OF assms(1)]) (simp add: names_inv_def server_start_def assms(2))
  then obtain cs where cs: "w_calls w' = w_calls w @ cs" "call_peers cs \<subseteq> w_peers w'"
    and fin: "finite (w_peers w')" "card (w_peers w') \<le> 512" "\<forall>p \<in> w_peers w'. safe_name uni p"
    by (auto simp: names_inv_def MAX_UNIQUE_SERVER_PEERS_def)
  have "card (call_peers cs) \<le> 512" using card_mono [OF fin(1) cs(2)] fin(2) by simp
  with cs fin show ?thesis by (auto intro: finite_subset)
qed

theorem label_cap_witness:
  "\<exists>w' sv cs. run_steps (server_step (\<lambda>_. False)) (fresh_world 0, server_start example_server [110, 50])
       (admit_events 0) = Some (w', sv)
     \<and> w_calls w' = cs \<and> card (call_peers cs) \<le> 512 \<and> (\<forall>p \<in> call_peers cs. safe_name (\<lambda>_. False) p)"
proof -
  have "\<exists>w' sv. run_steps (server_step (\<lambda>_. False)) (fresh_world 0, server_start example_server [110, 50])
       (admit_events 0) = Some (w', sv)"
    by (simp add: admit_events_def server_run_simps conn_run_simps)
  then obtain w' sv where "run_steps (server_step (\<lambda>_. False)) (fresh_world 0, server_start example_server [110, 50])
       (admit_events 0) = Some (w', sv)" by blast
  with label_cap [OF this] show ?thesis by auto
qed

text \<open>
  When the gauge \<open>server_session_active\<close> of a peer shows 1, a session with that peer is
  open.
\<close>

theorem active_gauge_sound:
  assumes "run_steps (server_step uni) (w, server_start cfg node) es = Some (w', sv)"
    and "\<And>l. gauge_value (w_metrics w) server_session_active l \<noteq> Some 1"
    and "gauge_value (w_metrics w') server_session_active l = Some 1"
  shows "\<exists>c \<in> set (sv_conns sv). conn_session c \<and> conn_label c = l"
proof -
  have "gauge_inv (w', sv)"
    by (rule server_gauge.inv_run [OF assms(1)]) (use assms(2) in \<open>simp add: gauge_inv_def server_start_def\<close>)
  with assms(3) show ?thesis by (simp add: gauge_inv_def)
qed

theorem active_gauge_sound_witness:
  "\<exists>w' sv. run_steps (server_step (\<lambda>_. False)) (fresh_world 0, server_start example_server [110, 50])
       (admit_events 0) = Some (w', sv)
     \<and> (\<exists>c \<in> set (sv_conns sv). conn_session c \<and> conn_label c = \<lparr>pl_node = [110, 50], pl_peer = [110, 49]\<rparr>)"
proof -
  let ?l = "\<lparr>pl_node = [110, 50], pl_peer = [110, 49]\<rparr>"
  have "\<exists>w' sv. run_steps (server_step (\<lambda>_. False)) (fresh_world 0, server_start example_server [110, 50])
       (admit_events 0) = Some (w', sv) \<and> gauge_value (w_metrics w') server_session_active ?l = Some 1"
    by (simp add: admit_events_def server_run_simps conn_run_simps conn_label_def w_emit_def active_after)
  moreover have "gauge_value (w_metrics (fresh_world 0)) server_session_active l \<noteq> Some 1" for l
    by (simp add: gauge_value_def read_calls_def)
  ultimately show ?thesis using active_gauge_sound [of "\<lambda>_. False" "fresh_world 0" example_server "[110, 50]"] by blast
qed

text \<open>
  C32. The converse fails when sessions share a peer name: once one of them has ended, the gauge
  of the name shows 0, whatever the others do, until a session of that name is open that was not
  open then. The end of one session changes no other connection, so those that were open with the
  same name stay open while the gauge says 0.
\<close>

theorem active_gauge_shared_name:
  assumes "server_step uni (w, sv) (SvConnPoll i) = Some (w1, sv1)"
    and "conn_session (sv_conns sv ! i)" and "\<not> conn_session (sv_conns sv1 ! i)"
    and "run_steps (server_step uni) (w1, sv1) es = Some (w', sv')"
    and "\<forall>k. opened_since (sv_conns sv1) (sv_conns sv') k \<longrightarrow> conn_label (sv_conns sv' ! k) \<noteq> conn_label (sv_conns sv ! i)"
  shows "gauge_value (w_metrics w') server_session_active (conn_label (sv_conns sv ! i)) = Some 0
    \<and> (\<forall>j. j \<noteq> i \<longrightarrow> sv_conns sv1 ! j = sv_conns sv ! j)"
proof -
  from session_ends [OF assms(1-3)] have end0: "gauge_value (w_metrics w1) server_session_active (conn_label (sv_conns sv ! i)) = Some 0"
    "\<forall>j. j \<noteq> i \<longrightarrow> sv_conns sv1 ! j = sv_conns sv ! j" by blast+
  then have "shadow_inv (conn_label (sv_conns sv ! i)) (sv_conns sv1) (w1, sv1)" by (simp add: shadow_inv_def)
  from server_shadow.inv_run [OF assms(4) this] assms(5) end0(2) show ?thesis by (auto simp: shadow_inv_def)
qed

theorem active_gauge_shared_name_witness:
  "\<exists>w sv w1 sv1 w' sv'. run_steps (server_step (\<lambda>_. False)) (fresh_world 0, server_start example_server [110, 50])
       (admit_events 0 @ admit_events 1 @ [SvConnArrives 0 [Eof]]) = Some (w, sv)
     \<and> server_step (\<lambda>_. False) (w, sv) (SvConnPoll 0) = Some (w1, sv1)
     \<and> run_steps (server_step (\<lambda>_. False)) (w1, sv1) [SvTick 5 0, SvAccept []] = Some (w', sv')
     \<and> conn_session (sv_conns sv' ! 1) \<and> conn_label (sv_conns sv' ! 1) = \<lparr>pl_node = [110, 50], pl_peer = [110, 49]\<rparr>
     \<and> gauge_value (w_metrics w') server_session_active \<lparr>pl_node = [110, 50], pl_peer = [110, 49]\<rparr> = Some 0"
proof -
  let ?step = "server_step (\<lambda>_. False)" and ?l = "\<lparr>pl_node = [110, 50], pl_peer = [110, 49]\<rparr>"
  have "\<exists>w sv w1 sv1 w' sv'. run_steps ?step (fresh_world 0, server_start example_server [110, 50])
       (admit_events 0 @ admit_events 1 @ [SvConnArrives 0 [Eof]]) = Some (w, sv)
     \<and> ?step (w, sv) (SvConnPoll 0) = Some (w1, sv1)
     \<and> run_steps ?step (w1, sv1) [SvTick 5 0, SvAccept []] = Some (w', sv')
     \<and> conn_session (sv_conns sv ! 0) \<and> conn_label (sv_conns sv ! 0) = ?l \<and> \<not> conn_session (sv_conns sv1 ! 0)
     \<and> conn_session (sv_conns sv' ! 1) \<and> conn_label (sv_conns sv' ! 1) = ?l
     \<and> (\<forall>k. \<not> opened_since (sv_conns sv1) (sv_conns sv') k)"
    by (simp add: admit_events_def server_run_simps conn_run_simps conn_label_def conn_session_def w_emit_def
        opened_since_def nth_Cons' less_Suc_eq_0_disj)
  then obtain w sv w1 sv1 w' sv' where r: "run_steps ?step (fresh_world 0, server_start example_server [110, 50])
       (admit_events 0 @ admit_events 1 @ [SvConnArrives 0 [Eof]]) = Some (w, sv)"
    and e: "?step (w, sv) (SvConnPoll 0) = Some (w1, sv1)" "run_steps ?step (w1, sv1) [SvTick 5 0, SvAccept []] = Some (w', sv')"
    and c: "conn_session (sv_conns sv ! 0)" "conn_label (sv_conns sv ! 0) = ?l" "\<not> conn_session (sv_conns sv1 ! 0)"
      "conn_session (sv_conns sv' ! 1)" "conn_label (sv_conns sv' ! 1) = ?l"
      "\<forall>k. \<not> opened_since (sv_conns sv1) (sv_conns sv') k" by blast
  from active_gauge_shared_name [OF e(1) c(1,3) e(2)] c r e show ?thesis by auto
qed

text \<open>
  C31. A reload applies to new connections only: after any run, the timeouts that new connections
  get are those of the last reloaded configuration (or the initial ones), and every connection
  that existed before keeps its own.
\<close>

theorem reload_applies_to_new:
  assumes "run_steps (server_step uni) (w, sv) es = Some (w', sv')"
  shows "sv_recv_timeout sv' = foldl (\<lambda>_ cfg. sc_heartbeat_recv_timeout (cfg_server cfg)) (sv_recv_timeout sv) (reloads es)
    \<and> sv_probe_timeout sv' = foldl (\<lambda>_ cfg. sc_probe_idle_timeout (cfg_server cfg)) (sv_probe_timeout sv) (reloads es)
    \<and> (\<forall>k < length (sv_conns sv). k < length (sv_conns sv')
         \<and> cn_timeout (sv_conns sv' ! k) = cn_timeout (sv_conns sv ! k))
    \<and> (sv_accepting sv' \<and> sv_accept_at sv' \<le> w_mono w' \<and> conn_permits sv' < 128 \<longrightarrow>
         (\<exists>sv''. server_step uni (w', sv') (SvAccept faults) = Some (w', sv'')
            \<and> cn_timeout (last (sv_conns sv'')) = sv_recv_timeout sv'))"
  using run_timeouts [OF assms]
  by (auto simp: server_step_def accept_conn_def MAX_CONNECTIONS_def conn_spawn_def)

theorem reload_applies_to_new_witness:
  "\<exists>w' sv'. run_steps (server_step (\<lambda>_. False)) (fresh_world 0, server_start example_server [110, 50])
       [SvAccept [], SvConfig (example_config\<lparr>cfg_server := example_server\<lparr>sc_heartbeat_recv_timeout := 45\<rparr>\<rparr>)]
       = Some (w', sv') \<and> sv_recv_timeout sv' = 45 \<and> cn_timeout (sv_conns sv' ! 0) = 90
     \<and> (\<exists>sv''. server_step (\<lambda>_. False) (w', sv') (SvAccept []) = Some (w', sv'')
          \<and> cn_timeout (last (sv_conns sv'')) = 45)"
proof -
  let ?es = "[SvConfig (example_config\<lparr>cfg_server := example_server\<lparr>sc_heartbeat_recv_timeout := 45\<rparr>\<rparr>)]"
  let ?sv = "(server_start example_server [110, 50])
    \<lparr>sv_conns := [conn_spawn [110, 50] (sc_heartbeat_recv_timeout example_server) []]\<rparr>"
  have first: "server_step (\<lambda>_. False) (fresh_world 0, server_start example_server [110, 50]) (SvAccept [])
      = Some (fresh_world 0, ?sv)"
    by (simp add: server_run_simps)
  have "\<exists>w' sv'. run_steps (server_step (\<lambda>_. False)) (fresh_world 0, ?sv) ?es = Some (w', sv')
      \<and> sv_accepting sv' \<and> sv_accept_at sv' \<le> w_mono w' \<and> conn_permits sv' < 128"
    by (simp add: server_run_simps watch_config_def Let_def)
  then obtain w' sv' where r: "run_steps (server_step (\<lambda>_. False)) (fresh_world 0, ?sv) ?es = Some (w', sv')"
    and ok: "sv_accepting sv'" "sv_accept_at sv' \<le> w_mono w'" "conn_permits sv' < 128" by blast
  from reload_applies_to_new [OF r, of "[]"] r ok first show ?thesis
    by (auto simp: conn_spawn_def example_server_def)
qed

text \<open>
  \<open>run\<close> does not return early: as long as the config sender is alive, the select of \<open>run\<close> is
  either still waiting or was ended by the cancellation token, never by one of its tasks.
\<close>

theorem server_stops_only_on_cancel:
  assumes "run_steps (server_step uni) (w, server_start cfg node) es = Some (w', sv)"
    and "SvConfigGone \<notin> set es"
  shows "run_result sv = (if sv_cancelled sv then Cancelled else Running)"
proof -
  have "tasks_inv (w', sv)"
    by (rule server_tasks.inv_run [OF assms(1)]) (simp add: tasks_inv_def server_start_def)
  moreover have "sv_cancelled sv \<or> sv_watching sv"
    by (rule watcher_alive [OF assms]) (simp add: server_start_def)
  ultimately show ?thesis by (auto simp: run_result_def tasks_inv_def)
qed

theorem server_stops_only_on_cancel_witness:
  "\<exists>w' sv. run_steps (server_step (\<lambda>_. False)) (fresh_world 0, server_start example_server [110, 50])
       [SvAcceptError (OtherKind 24), SvConfig example_config, SvCancel, SvProbeCancelled] = Some (w', sv)
     \<and> \<not> sv_probing sv \<and> run_result sv = Cancelled"
proof -
  have "\<exists>w' sv. run_steps (server_step (\<lambda>_. False)) (fresh_world 0, server_start example_server [110, 50])
       [SvAcceptError (OtherKind 24), SvConfig example_config, SvCancel, SvProbeCancelled] = Some (w', sv)
     \<and> \<not> sv_probing sv \<and> sv_cancelled sv"
    by (simp add: server_run_simps accept_error_def watch_config_def Let_def)
  with server_stops_only_on_cancel [of "\<lambda>_. False" "fresh_world 0" example_server "[110, 50]"
      "[SvAcceptError (OtherKind 24), SvConfig example_config, SvCancel, SvProbeCancelled]"]
  show ?thesis by auto
qed

text \<open>
  C39. What the network can put into a label has the right type: starting without registered
  peers, every name the server registers is a string of Unicode scalar values of 1 to 64 allowed
  characters, so at most 256 bytes, and every open session is labelled with a registered name.
\<close>

theorem recorded_names_typed:
  assumes "run_steps (server_step uni) (w, server_start cfg node) es = Some (w', sv)" and "w_peers w = {}"
  shows "(\<forall>p \<in> w_peers w'. valid_str p \<and> p \<noteq> [] \<and> length p \<le> 64 \<and> list_all (name_char_ok uni) p \<and> length (as_bytes p) \<le> 256)
    \<and> (\<forall>c \<in> set (sv_conns sv). conn_session c \<longrightarrow> pl_peer (conn_label c) \<in> w_peers w')"
proof -
  have inv: "names_inv uni (w_calls w) (w', sv)"
    by (rule server_names.inv_run [OF assms(1)]) (simp add: names_inv_def server_start_def assms(2))
  have "length (as_bytes p) \<le> 256" if "length p \<le> 64" for p
    using length_as_bytes_le [of p] that by simp
  with inv show ?thesis
    by (simp add: names_inv_def safe_name_def MAX_PEER_NAME_CHARS_def conn_label_def)
qed

theorem recorded_names_typed_witness:
  "\<exists>w' sv. run_steps (server_step (\<lambda>_. False)) (fresh_world 0, server_start example_server [110, 50])
       (admit_events 0) = Some (w', sv)
     \<and> (\<exists>c \<in> set (sv_conns sv). conn_session c \<and> valid_str (pl_peer (conn_label c)) \<and> pl_peer (conn_label c) \<noteq> [])"
proof -
  have "\<exists>w' sv. run_steps (server_step (\<lambda>_. False)) (fresh_world 0, server_start example_server [110, 50])
       (admit_events 0) = Some (w', sv) \<and> (\<exists>c \<in> set (sv_conns sv). conn_session c)"
    by (simp add: admit_events_def server_run_simps conn_run_simps conn_session_def)
  then obtain w' sv where r: "run_steps (server_step (\<lambda>_. False)) (fresh_world 0, server_start example_server [110, 50])
       (admit_events 0) = Some (w', sv)" "\<exists>c \<in> set (sv_conns sv). conn_session c" by blast
  with recorded_names_typed [OF r(1)] show ?thesis by auto
qed

text \<open>
  C38. A probe client that never closes does not hold its permit: from the poll that has sent the
  banner, at time \<open>w_mono w\<close>, the connection stays open for exactly the idle timeout the server had
  when it accepted the probe, whatever else the server does meanwhile. A poll before that does not
  end it; a poll from then on does and releases the permit, even if bytes keep arriving.
\<close>

theorem idle_probe_dropped:
  assumes "server_step uni (w0, sv0) (SvProbeAccept faults) = Some (w1, sv1)" and "k = length (sv_probes sv0)"
    and "run_steps (server_step uni) (w1, sv1) es = Some (w2, sv2)"
    and "server_step uni (w2, sv2) (SvProbePoll k) = Some (w, sv)" and "pb_pc (sv_probes sv ! k) = PDrain"
    and "k < length (sv_probes sv1)"
    and "run_steps (server_step uni) (w, sv) fs = Some (w', sv')" and "SvProbePoll k \<notin> set fs"
    and "only_arrivals (pb_inbox (sv_probes sv' ! k))"
  shows "if w_mono w' < w_mono w + from_secs (sv_probe_timeout sv0) then server_step uni (w', sv') (SvProbePoll k) = None
    else \<exists>sv''. server_step uni (w', sv') (SvProbePoll k) = Some (w', sv'')
      \<and> pb_pc (sv_probes sv'' ! k) = PDone \<and> Suc (probe_permits sv'') = probe_permits sv'"
proof -
  from assms(1,2,6) have "pb_idle (sv_probes sv1 ! k) = sv_probe_timeout sv0"
    by (auto simp: server_step_def accept_probe_def probe_spawn_def split: if_splits)
  with server_run_probe [OF assms(3,6)] server_step_probe(2) [OF assms(4) banner_sent(2) [OF assms(4,5)]]
  have "pb_idle (sv_probes sv ! k) = sv_probe_timeout sv0" by simp
  with banner_sent [OF assms(4,5)] have d: "pb_deadline (sv_probes sv ! k) = w_mono w + from_secs (sv_probe_timeout sv0)"
    and k: "k < length (sv_probes sv)" using server_step_probe(1) [OF assms(4)] by simp_all
  from server_run_probe [OF assms(7) k] assms(8) have
    k': "k < length (sv_probes sv')" and p: "pb_pc (sv_probes sv' ! k) = pb_pc (sv_probes sv ! k)"
      "pb_deadline (sv_probes sv' ! k) = pb_deadline (sv_probes sv ! k)" by simp_all
  from probe_drain_arrivals [OF assms(9)] obtain i where i: "probe_drain (pb_inbox (sv_probes sv' ! k)) = (False, i)" ..
  have "Suc (length (filter probe_live ((sv_probes sv')[k := (sv_probes sv' ! k)\<lparr>pb_inbox := i, pb_pc := PDone\<rparr>])))
      = length (filter probe_live (sv_probes sv'))"
    by (rule length_filter_release [OF k']) (simp_all add: probe_live_def p assms(5))
  with i k' d assms(5) show ?thesis
    by (auto simp: server_step_def probe_poll_def probe_permits_def p)
qed

theorem idle_probe_dropped_witness:
  "\<exists>w1 sv1 w sv w' sv' sv''. server_step (\<lambda>_. False) (fresh_world 0, server_start example_server [110, 50]) (SvProbeAccept []) = Some (w1, sv1)
     \<and> server_step (\<lambda>_. False) (w1, sv1) (SvProbePoll 0) = Some (w, sv)
     \<and> run_steps (server_step (\<lambda>_. False)) (w, sv) [SvProbeArrives 0 [Arrive [1, 2]], SvTick (from_secs 30) 0] = Some (w', sv')
     \<and> server_step (\<lambda>_. False) (w', sv') (SvProbePoll 0) = Some (w', sv'')
     \<and> probe_permits sv' = 1 \<and> pb_pc (sv_probes sv'' ! 0) = PDone \<and> probe_permits sv'' = 0"
proof -
  let ?step = "server_step (\<lambda>_. False)" and ?sv0 = "server_start example_server [110, 50]"
  have "\<exists>w1 sv1 w sv w' sv'. ?step (fresh_world 0, ?sv0) (SvProbeAccept []) = Some (w1, sv1)
     \<and> ?step (w1, sv1) (SvProbePoll 0) = Some (w, sv)
     \<and> run_steps ?step (w, sv) [SvProbeArrives 0 [Arrive [1, 2]], SvTick (from_secs 30) 0] = Some (w', sv')
     \<and> pb_pc (sv_probes sv ! 0) = PDrain \<and> 0 < length (sv_probes sv1) \<and> only_arrivals (pb_inbox (sv_probes sv' ! 0))
     \<and> probe_permits sv' = 1 \<and> w_mono w' = w_mono w + from_secs 30"
    by (simp add: server_run_simps probe_poll_def probe_spawn_def w_tick_def)
  then obtain w1 sv1 w sv w' sv' where r: "?step (fresh_world 0, ?sv0) (SvProbeAccept []) = Some (w1, sv1)"
    "?step (w1, sv1) (SvProbePoll 0) = Some (w, sv)"
    "run_steps ?step (w, sv) [SvProbeArrives 0 [Arrive [1, 2]], SvTick (from_secs 30) 0] = Some (w', sv')"
    and c: "pb_pc (sv_probes sv ! 0) = PDrain" "0 < length (sv_probes sv1)" "only_arrivals (pb_inbox (sv_probes sv' ! 0))"
      "probe_permits sv' = 1" "w_mono w' = w_mono w + from_secs 30" by blast
  have "(0::nat) = length (sv_probes ?sv0)" by (simp add: server_start_def)
  moreover have "run_steps ?step (w1, sv1) [] = Some (w1, sv1)" by simp
  moreover have "\<not> w_mono w' < w_mono w + from_secs (sv_probe_timeout ?sv0)"
    using c(5) by (simp add: server_start_def example_server_def)
  ultimately show ?thesis using idle_probe_dropped [OF r(1) _ _ r(2) c(1,2) r(3) _ c(3), of "[]"] r c by auto
qed

end
