(* ===== verification/Client.thy ===== *)
theory Client
  imports World
begin

text \<open>
  One outbound session task of \<open>src/client.rs\<close>: \<open>run_peer_loop\<close> and, inside it,
  \<open>run_session\<close>, as a machine that runs from one \<open>await\<close> to the next. \<open>tk_pc\<close> says where the
  task waits. A \<open>select!\<close> against the cancellation token offers two steps where both branches
  are ready: the wait's own (\<open>TPoll\<close>) and the token's (\<open>TCancelled\<close>).
\<close>

section \<open>State\<close>

text \<open>
  \<open>KEcho sent_seq send_ts deadline got_echo\<close> carries the locals of the echo wait, \<open>KSend time\<close>
  the time at which \<open>send_heartbeat\<close> stamped the packet that is being written.
\<close>

datatype task_pc =
    KStart
  | KConnect rstr
  | KBackoff instant
  | KHandshake
  | KSleep
  | KSend sys_time
  | KEcho u64 f64 instant bool
  | KDone

record task =
  tk_peer :: peer_config
  tk_cfg :: client_config
  tk_node :: rstr
  tk_cancel :: bool
  tk_pc :: task_pc
  tk_inbox :: inbox
  tk_out :: wstream
  tk_start_ts :: f64
  tk_seq :: u64
  tk_missed :: i64
  tk_next_send :: instant
  tk_reader :: heartbeat_reader

datatype task_event =
    TTick nat sys_time
  | TConnected "(nat \<times> io_kind) option list"
  | TConnectFailed io_kind
  | TArrives inbox
  | TPoll
  | TCancel
  | TCancelled

type_synonym task_state = "world \<times> task"

definition task_spawn :: "peer_config \<Rightarrow> client_config \<Rightarrow> rstr \<Rightarrow> task" where
  "task_spawn peer client_cfg node_name =
     \<lparr>tk_peer = peer, tk_cfg = client_cfg, tk_node = node_name, tk_cancel = False, tk_pc = KStart,
      tk_inbox = [], tk_out = fresh_wstream, tk_start_ts = from_bits 0, tk_seq = 0, tk_missed = 0,
      tk_next_send = 0, tk_reader = reader_new\<rparr>"

definition task_label :: "task \<Rightarrow> peer_label" where
  "task_label t = \<lparr>pl_node = tk_node t, pl_peer = pc_name (tk_peer t)\<rparr>"

definition heartbeat_interval :: "task \<Rightarrow> duration" where
  "heartbeat_interval t = from_secs (cc_heartbeat_interval (tk_cfg t))"

definition connect_addr :: "peer_config \<Rightarrow> rstr" where
  "connect_addr peer = pc_host peer @ colon # show_nat (unat (pc_heartbeat_port peer))"

section \<open>What a session records\<close>

fun classify_io_error :: "io_kind \<Rightarrow> string" where
  "classify_io_error ConnectionReset = ''connection_reset''"
| "classify_io_error UnexpectedEof = ''remote_close''"
| "classify_io_error BrokenPipe = ''remote_close''"
| "classify_io_error _ = ''local_error''"

definition record_session_start :: "peer_label \<Rightarrow> f64 \<Rightarrow> metric_call list" where
  "record_session_start label start_ts =
     [GaugeSet client_session_active label 1,
      FloatSet client_session_start label start_ts,
      CounterInc client_sessions_total label,
      GaugeSet client_consecutive_missed label 0]"

definition record_echo :: "peer_label \<Rightarrow> f64 \<Rightarrow> f64 \<Rightarrow> f64 option \<Rightarrow> metric_call list" where
  "record_echo label start_ts now_ts send_ts =
     [CounterInc client_heartbeats_rx label,
      GaugeSet client_consecutive_missed label 0,
      FloatSet client_last_heartbeat label now_ts,
      FloatSet client_session_duration label (f64_sub now_ts start_ts)]
     @ (case send_ts of None \<Rightarrow> [] | Some ts \<Rightarrow> [FloatSet client_rtt label (f64_sub now_ts ts)])"

definition miss_calls :: "peer_label \<Rightarrow> i64 \<Rightarrow> metric_call list" where
  "miss_calls label consecutive_missed =
     [CounterInc client_heartbeats_missed label,
      GaugeSet client_consecutive_missed label consecutive_missed]"

definition session_end_calls :: "peer_label \<Rightarrow> f64 \<Rightarrow> string \<Rightarrow> metric_call list" where
  "session_end_calls label duration reason =
     [GaugeSet client_session_active label 0,
      FloatSet client_session_duration label duration]
     @ (if reason = ''cancelled'' then []
        else [DisconnectInc client_disconnects (reason_label (pl_node label) (pl_peer label) reason)])"

section \<open>Steps\<close>

definition task_connect :: "task \<Rightarrow> task" where
  "task_connect t = t\<lparr>tk_pc := KConnect (connect_addr (tk_peer t))\<rparr>"

definition task_backoff :: "task_state \<Rightarrow> task_state" where
  "task_backoff s =
     (case s of (w, t) \<Rightarrow>
        (w, t\<lparr>tk_pc := KBackoff (w_mono w + from_secs (cc_reconnect_delay (tk_cfg t)))\<rparr>))"

text \<open>The session breaks with a reason: its end is recorded, then the loop goes on or returns.\<close>

definition session_end :: "string \<Rightarrow> task_state \<Rightarrow> task_state" where
  "session_end reason s =
     (case s of (w, t) \<Rightarrow>
        (let w = w_emit (session_end_calls (task_label t) (f64_sub (w_now w) (tk_start_ts t)) reason) w
         in if reason = ''cancelled'' then (w, t\<lparr>tk_pc := KDone\<rparr>) else task_backoff (w, t)))"

text \<open>The schedule moves on and the packet of this round is stamped.\<close>

definition session_send :: "task_state \<Rightarrow> task_state" where
  "session_send s =
     (case s of (w, t) \<Rightarrow>
        (w, t\<lparr>tk_next_send := tk_next_send t + heartbeat_interval t, tk_pc := KSend (w_wall w)\<rparr>))"

text \<open>The head of the session loop.\<close>

definition session_turn :: "task_state \<Rightarrow> task_state" where
  "session_turn s =
     (case s of (w, t) \<Rightarrow>
        if w_mono w < tk_next_send t then (w, t\<lparr>tk_pc := KSleep\<rparr>) else session_send (w, t))"

definition session_start :: "task_state \<Rightarrow> task_state" where
  "session_start s =
     (case s of (w, t) \<Rightarrow>
        (let start_ts = w_now w
         in session_turn
              (w_emit (record_session_start (task_label t) start_ts) w,
               t\<lparr>tk_start_ts := start_ts, tk_seq := 0, tk_missed := 0,
                 tk_next_send := w_mono w, tk_reader := reader_new\<rparr>)))"

text \<open>The echo wait ran into its deadline: a miss, unless a late echo came in meanwhile.\<close>

definition echo_timeout :: "bool \<Rightarrow> task_state \<Rightarrow> task_state" where
  "echo_timeout got_echo s =
     (case s of (w, t) \<Rightarrow>
        if got_echo then session_turn (w, t)
        else
          (let missed = tk_missed t + 1;
               w = w_emit (miss_calls (task_label t) missed) w;
               t = t\<lparr>tk_missed := missed\<rparr>
           in if int (unat (cc_max_misses (tk_cfg t))) \<le> sint missed
              then session_end ''timeout'' (w, t)
              else session_turn (w, t\<lparr>tk_next_send := w_mono w + heartbeat_interval t\<rparr>)))"

definition echo_received :: "heartbeat \<Rightarrow> u64 \<Rightarrow> f64 \<Rightarrow> instant \<Rightarrow> task_state \<Rightarrow> task_state" where
  "echo_received echo sent_seq send_ts deadline s =
     (case s of (w, t) \<Rightarrow>
        (let matched = hb_seq echo = sent_seq;
             w = w_emit (record_echo (task_label t) (tk_start_ts t) (w_now w)
                           (if matched then Some send_ts else None)) w;
             t = t\<lparr>tk_missed := 0\<rparr>
         in if matched then session_turn (w, t)
            else (w, t\<lparr>tk_pc := KEcho sent_seq send_ts deadline True\<rparr>)))"

text \<open>What a poll of the awaited future leads to, \<open>None\<close> while it is pending.\<close>

definition poll_handshake :: "task_state \<Rightarrow> task_state" where
  "poll_handshake s =
     (case s of (w, t) \<Rightarrow>
        (case send_handshake (tk_node t) (tk_out t) of
           (Inl e, out) \<Rightarrow> task_backoff (w, t\<lparr>tk_out := out\<rparr>)
         | (Inr _, out) \<Rightarrow> session_start (w, t\<lparr>tk_out := out\<rparr>)))"

definition poll_send :: "sys_time \<Rightarrow> task_state \<Rightarrow> task_state" where
  "poll_send time s =
     (case s of (w, t) \<Rightarrow>
        (case send_heartbeat (tk_seq t) time (tk_out t) of
           (Inl e, out) \<Rightarrow> session_end (classify_io_error e) (w, t\<lparr>tk_out := out\<rparr>)
         | (Inr send_ts, out) \<Rightarrow>
             (w_emit [CounterInc client_heartbeats_sent (task_label t)] w,
              t\<lparr>tk_out := out, tk_seq := tk_seq t + 1,
                tk_pc := KEcho (tk_seq t) send_ts (w_mono w + heartbeat_interval t) False\<rparr>)))"

definition poll_echo :: "u64 \<Rightarrow> f64 \<Rightarrow> instant \<Rightarrow> bool \<Rightarrow> task_state \<Rightarrow> task_state option" where
  "poll_echo sent_seq send_ts deadline got_echo s =
     (case s of (w, t) \<Rightarrow>
        (case recv (tk_reader t) (tk_inbox t) of
           (Pending, r, i) \<Rightarrow>
             if deadline \<le> w_mono w
             then Some (echo_timeout got_echo (w, t\<lparr>tk_reader := r, tk_inbox := i\<rparr>)) else None
         | (Ready (Inl e), r, i) \<Rightarrow>
             Some (session_end (classify_io_error e) (w, t\<lparr>tk_reader := r, tk_inbox := i\<rparr>))
         | (Ready (Inr echo), r, i) \<Rightarrow>
             Some (echo_received echo sent_seq send_ts deadline (w, t\<lparr>tk_reader := r, tk_inbox := i\<rparr>))))"

definition task_poll :: "task_state \<Rightarrow> task_state option" where
  "task_poll s =
     (case s of (w, t) \<Rightarrow>
        (case tk_pc t of
           KStart \<Rightarrow> Some (w_emit (init_calls (tk_node t) (pc_name (tk_peer t))) w, task_connect t)
         | KConnect _ \<Rightarrow> None
         | KBackoff until \<Rightarrow> if until \<le> w_mono w then Some (w, task_connect t) else None
         | KHandshake \<Rightarrow> Some (poll_handshake (w, t))
         | KSleep \<Rightarrow> if tk_next_send t \<le> w_mono w then Some (session_send (w, t)) else None
         | KSend time \<Rightarrow> Some (poll_send time (w, t))
         | KEcho sent_seq send_ts deadline got_echo \<Rightarrow>
             poll_echo sent_seq send_ts deadline got_echo (w, t)
         | KDone \<Rightarrow> None))"

text \<open>The token's branch of each \<open>select!\<close>; the handshake is written without one.\<close>

definition task_cancelled :: "task_state \<Rightarrow> task_state option" where
  "task_cancelled s =
     (case s of (w, t) \<Rightarrow>
        if \<not> tk_cancel t then None
        else case tk_pc t of
               KConnect _ \<Rightarrow> Some (w, t\<lparr>tk_pc := KDone\<rparr>)
             | KBackoff _ \<Rightarrow> Some (w, t\<lparr>tk_pc := KDone\<rparr>)
             | KSleep \<Rightarrow> Some (session_end ''cancelled'' (w, t))
             | KSend _ \<Rightarrow> Some (session_end ''cancelled'' (w, t))
             | KEcho _ _ _ _ \<Rightarrow> Some (session_end ''cancelled'' (w, t))
             | _ \<Rightarrow> None)"

definition connect_failed :: "task_state \<Rightarrow> task_state" where
  "connect_failed s =
     (case s of (w, t) \<Rightarrow>
        task_backoff
          (w_emit [DisconnectInc client_disconnects
                     (reason_label (tk_node t) (pc_name (tk_peer t)) ''connect_failed'')] w, t))"

definition connected :: "(nat \<times> io_kind) option list \<Rightarrow> task \<Rightarrow> task" where
  "connected faults t =
     t\<lparr>tk_pc := KHandshake, tk_inbox := [], tk_out := \<lparr>sent = [], wfaults = faults\<rparr>\<rparr>"

definition task_step :: "task_state \<Rightarrow> task_event \<Rightarrow> task_state option" where
  "task_step s e =
     (case s of (w, t) \<Rightarrow>
        (case e of
           TTick d time \<Rightarrow> Some (w_tick d time w, t)
         | TConnected faults \<Rightarrow>
             (case tk_pc t of KConnect _ \<Rightarrow> Some (w, connected faults t) | _ \<Rightarrow> None)
         | TConnectFailed k \<Rightarrow>
             (case tk_pc t of KConnect _ \<Rightarrow> Some (connect_failed (w, t)) | _ \<Rightarrow> None)
         | TArrives i \<Rightarrow> Some (w, t\<lparr>tk_inbox := tk_inbox t @ i\<rparr>)
         | TPoll \<Rightarrow> task_poll (w, t)
         | TCancel \<Rightarrow> Some (w, t\<lparr>tk_cancel := True\<rparr>)
         | TCancelled \<Rightarrow> task_cancelled (w, t)))"

section \<open>What no step changes\<close>

definition same_task :: "task \<Rightarrow> task \<Rightarrow> bool" where
  "same_task t t' \<longleftrightarrow>
     tk_peer t' = tk_peer t \<and> tk_cfg t' = tk_cfg t \<and> tk_node t' = tk_node t \<and> (tk_cancel t \<longrightarrow> tk_cancel t')"

lemma same_turn [step_simps]:
  "same_task t (snd (session_turn (w, t'))) = same_task t t'"
  "same_task t (snd (session_end reason (w, t'))) = same_task t t'"
  by (simp_all add: same_task_def session_turn_def session_send_def session_end_def task_backoff_def Let_def)

lemma same_timeout [step_simps]:
  "same_task t (snd (echo_timeout got (w, t'))) = same_task t t'"
  "same_task t (snd (echo_received echo q ts d (w, t'))) = same_task t t'"
  by (auto simp: echo_timeout_def echo_received_def Let_def step_simps) (simp_all add: same_task_def)

lemma task_poll_same: "task_poll (w, t) = Some s' \<Longrightarrow> same_task t (snd s')"
  by (cases "tk_pc t")
    (auto simp: task_poll_def poll_handshake_def poll_send_def poll_echo_def session_start_def Let_def step_simps
      split: prod.splits sum.splits poll.splits if_splits,
     auto simp: same_task_def task_connect_def task_backoff_def session_send_def)

lemma task_step_same: "task_step (w, t) e = Some (w', t') \<Longrightarrow> same_task t t'"
proof (cases e)
  case TPoll
  then show "task_step (w, t) e = Some (w', t') \<Longrightarrow> same_task t t'"
    using task_poll_same [of w t "(w', t')"] by (simp add: task_step_def)
qed (auto simp: task_step_def task_cancelled_def connected_def connect_failed_def task_backoff_def
    session_end_def Let_def same_task_def split: task_pc.splits if_splits)

section \<open>The history of a session\<close>

text \<open>
  What happens in a session, newest first: a heartbeat is sent, an echo is read at some time,
  or a round ends without any echo. The functions below read off it what the session's
  variables and the metrics must be.
\<close>

datatype beat = BSent heartbeat | BEcho heartbeat f64 | BMiss

fun sents :: "beat list \<Rightarrow> heartbeat list" where
  "sents [] = []"
| "sents (BSent hb # bs) = hb # sents bs"
| "sents (_ # bs) = sents bs"

fun echoes :: "beat list \<Rightarrow> heartbeat list" where
  "echoes [] = []"
| "echoes (BEcho hb _ # bs) = hb # echoes bs"
| "echoes (_ # bs) = echoes bs"

fun missed_run :: "beat list \<Rightarrow> nat" where
  "missed_run [] = 0"
| "missed_run (BSent _ # bs) = missed_run bs"
| "missed_run (BEcho _ _ # bs) = 0"
| "missed_run (BMiss # bs) = Suc (missed_run bs)"

text \<open>The send time that an echo may be measured against: the last packet's, if it answers that.\<close>

definition answered :: "heartbeat \<Rightarrow> beat list \<Rightarrow> f64 option" where
  "answered echo bs =
     (case sents bs of [] \<Rightarrow> None
      | hb # _ \<Rightarrow> if hb_seq echo = hb_seq hb then Some (hb_timestamp hb) else None)"

fun unanswered :: "beat list \<Rightarrow> bool" where
  "unanswered (BSent _ # _) = True"
| "unanswered _ = False"

fun late_echo :: "beat list \<Rightarrow> bool" where
  "late_echo (BEcho echo _ # bs) = (answered echo bs = None)"
| "late_echo _ = False"

text \<open>
  The order of a session: rounds of one packet each, its sequence numbers counting up from 0;
  echoes come in while a round is open; a round counts as missed only without an echo.
\<close>

fun beats_ok :: "beat list \<Rightarrow> bool" where
  "beats_ok [] = True"
| "beats_ok (BSent hb # bs) \<longleftrightarrow>
     beats_ok bs \<and> \<not> unanswered bs \<and> hb_seq hb = of_nat (length (sents bs))"
| "beats_ok (BEcho _ _ # bs) \<longleftrightarrow> beats_ok bs \<and> (unanswered bs \<or> late_echo bs)"
| "beats_ok (BMiss # bs) \<longleftrightarrow> beats_ok bs \<and> unanswered bs"

fun beats_calls :: "peer_label \<Rightarrow> f64 \<Rightarrow> beat list \<Rightarrow> metric_call list" where
  "beats_calls l start [] = record_session_start l start"
| "beats_calls l start (BSent _ # bs) = beats_calls l start bs @ [CounterInc client_heartbeats_sent l]"
| "beats_calls l start (BEcho echo now # bs) =
     beats_calls l start bs @ record_echo l start now (answered echo bs)"
| "beats_calls l start (BMiss # bs) =
     beats_calls l start bs @ miss_calls l (of_nat (Suc (missed_run bs)))"

text \<open>The misses in a row that end a session; a \<open>max_misses\<close> of 0 acts like 1.\<close>

definition miss_limit :: "task \<Rightarrow> nat" where
  "miss_limit t = max 1 (unat (cc_max_misses (tk_cfg t)))"

section \<open>The history of a task\<close>

datatype episode =
    ConnectFailed
  | HandshakeFailed
  | Session f64 "beat list" f64 string

fun episode_calls :: "peer_label \<Rightarrow> episode \<Rightarrow> metric_call list" where
  "episode_calls l ConnectFailed =
     [DisconnectInc client_disconnects (reason_label (pl_node l) (pl_peer l) ''connect_failed'')]"
| "episode_calls l HandshakeFailed = []"
| "episode_calls l (Session start bs duration reason) =
     beats_calls l start bs @ session_end_calls l duration reason"

text \<open>A session that ended by itself: by the timeout exactly when the limit of misses was hit.\<close>

fun episode_ok :: "nat \<Rightarrow> episode \<Rightarrow> bool" where
  "episode_ok limit (Session _ bs _ reason) \<longleftrightarrow>
     beats_ok bs \<and> reason \<in> set CLIENT_DISCONNECT_REASONS \<and> reason \<noteq> ''connect_failed''
     \<and> missed_run bs \<le> limit \<and> (reason = ''timeout'' \<longleftrightarrow> missed_run bs = limit)"
| "episode_ok limit _ \<longleftrightarrow> True"

definition history_calls :: "task \<Rightarrow> episode list \<Rightarrow> metric_call list" where
  "history_calls t eps =
     init_calls (tk_node t) (pc_name (tk_peer t)) @ concat (map (episode_calls (task_label t)) eps)"

definition session_inv :: "u8 list \<Rightarrow> task \<Rightarrow> beat list \<Rightarrow> bool" where
  "session_inv arrived t bs \<longleftrightarrow>
     beats_ok bs \<and> tk_missed t = of_nat (missed_run bs) \<and> missed_run bs < miss_limit t
     \<and> tk_seq t = of_nat (length (sents bs)) \<and> reader_idle (tk_reader t)
     \<and> sent (tk_out t) = wire_handshake (tk_node t) @ concat (map encode_heartbeat (rev (sents bs)))
     \<and> arrived = concat (map encode_heartbeat (rev (echoes bs))) @ held (tk_reader t) @ inbox_bytes (tk_inbox t)"

definition round_inv :: "task_pc \<Rightarrow> beat list \<Rightarrow> bool" where
  "round_inv pc bs =
     (case pc of
        KEcho sent_seq send_ts _ got_echo \<Rightarrow>
          (\<exists>hbs. sents bs = \<lparr>hb_seq = sent_seq, hb_timestamp = send_ts\<rparr> # hbs)
          \<and> (if got_echo then late_echo bs else unanswered bs)
      | _ \<Rightarrow> \<not> unanswered bs)"

definition in_session :: "task_pc \<Rightarrow> bool" where
  "in_session pc = (case pc of KSleep \<Rightarrow> True | KSend _ \<Rightarrow> True | KEcho _ _ _ _ \<Rightarrow> True | _ \<Rightarrow> False)"

text \<open>
  \<open>base\<close> are the metric calls before the task, \<open>arrived\<close> the bytes that reached it since it
  connected. \<open>eps\<close> are the episodes it has completed.
\<close>

definition task_inv :: "metric_call list \<Rightarrow> u8 list \<times> task_state \<Rightarrow> bool" where
  "task_inv base s =
     (case s of (arrived, w, t) \<Rightarrow>
        (if tk_pc t = KStart then w_calls w = base
         else \<exists>eps. list_all (episode_ok (miss_limit t)) eps \<and>
           (if in_session (tk_pc t) then
              \<exists>bs. session_inv arrived t bs \<and> round_inv (tk_pc t) bs
                \<and> w_calls w = base @ history_calls t eps @ beats_calls (task_label t) (tk_start_ts t) bs
            else if tk_pc t = KDone then
              w_calls w = base @ history_calls t eps
              \<or> (\<exists>start bs duration. beats_ok bs \<and> missed_run bs < miss_limit t
                   \<and> w_calls w = base @ history_calls t (eps @ [Session start bs duration ''cancelled'']))
            else
              w_calls w = base @ history_calls t eps
              \<and> (tk_pc t = KHandshake \<longrightarrow> sent (tk_out t) = [] \<and> arrived = inbox_bytes (tk_inbox t)))))"

definition task_arrived :: "u8 list \<Rightarrow> task_event \<Rightarrow> u8 list" where
  "task_arrived h e = (case e of TConnected _ \<Rightarrow> [] | TArrives i \<Rightarrow> h @ inbox_bytes i | _ \<Rightarrow> h)"

section \<open>Every step keeps the invariant\<close>

lemma task_label_update [simp]:
  "task_label (t\<lparr>tk_pc := pc\<rparr>) = task_label t" "task_label (t\<lparr>tk_inbox := i\<rparr>) = task_label t"
  "task_label (t\<lparr>tk_out := out\<rparr>) = task_label t" "task_label (t\<lparr>tk_start_ts := ts\<rparr>) = task_label t"
  "task_label (t\<lparr>tk_seq := sq\<rparr>) = task_label t" "task_label (t\<lparr>tk_missed := m\<rparr>) = task_label t"
  "task_label (t\<lparr>tk_next_send := n\<rparr>) = task_label t" "task_label (t\<lparr>tk_reader := r\<rparr>) = task_label t"
  "task_label (t\<lparr>tk_cancel := b\<rparr>) = task_label t"
  by (simp_all add: task_label_def)

lemma miss_limit_update [simp]:
  "miss_limit (t\<lparr>tk_pc := pc\<rparr>) = miss_limit t" "miss_limit (t\<lparr>tk_inbox := i\<rparr>) = miss_limit t"
  "miss_limit (t\<lparr>tk_out := out\<rparr>) = miss_limit t" "miss_limit (t\<lparr>tk_start_ts := ts\<rparr>) = miss_limit t"
  "miss_limit (t\<lparr>tk_seq := sq\<rparr>) = miss_limit t" "miss_limit (t\<lparr>tk_missed := m\<rparr>) = miss_limit t"
  "miss_limit (t\<lparr>tk_next_send := n\<rparr>) = miss_limit t" "miss_limit (t\<lparr>tk_reader := r\<rparr>) = miss_limit t"
  "miss_limit (t\<lparr>tk_cancel := b\<rparr>) = miss_limit t"
  by (simp_all add: miss_limit_def)

lemma history_calls_update [simp]:
  "history_calls (t\<lparr>tk_pc := pc\<rparr>) eps = history_calls t eps"
  "history_calls (t\<lparr>tk_inbox := i\<rparr>) eps = history_calls t eps"
  "history_calls (t\<lparr>tk_out := out\<rparr>) eps = history_calls t eps"
  "history_calls (t\<lparr>tk_start_ts := ts\<rparr>) eps = history_calls t eps"
  "history_calls (t\<lparr>tk_seq := sq\<rparr>) eps = history_calls t eps"
  "history_calls (t\<lparr>tk_missed := m\<rparr>) eps = history_calls t eps"
  "history_calls (t\<lparr>tk_next_send := n\<rparr>) eps = history_calls t eps"
  "history_calls (t\<lparr>tk_reader := r\<rparr>) eps = history_calls t eps"
  "history_calls (t\<lparr>tk_cancel := b\<rparr>) eps = history_calls t eps"
  by (simp_all add: history_calls_def)

lemma session_inv_update [simp]:
  "session_inv arrived (t\<lparr>tk_pc := pc\<rparr>) bs = session_inv arrived t bs"
  "session_inv arrived (t\<lparr>tk_next_send := n\<rparr>) bs = session_inv arrived t bs"
  "session_inv arrived (t\<lparr>tk_cancel := b\<rparr>) bs = session_inv arrived t bs"
  by (simp_all add: session_inv_def)

lemma history_calls_snoc [simp]:
  "history_calls t (eps @ [ep]) = history_calls t eps @ episode_calls (task_label t) ep"
  by (simp add: history_calls_def)

lemma in_session_simps [simp]:
  "\<not> in_session KStart" "\<not> in_session (KConnect a)" "\<not> in_session (KBackoff b)" "\<not> in_session KHandshake"
  "in_session KSleep" "in_session (KSend x)" "in_session (KEcho q s d g)" "\<not> in_session KDone"
  by (simp_all add: in_session_def)

lemma round_inv_simps [simp]:
  "round_inv KSleep bs \<longleftrightarrow> \<not> unanswered bs" "round_inv (KSend x) bs \<longleftrightarrow> \<not> unanswered bs"
  "round_inv (KEcho q s d g) bs \<longleftrightarrow>
     (\<exists>hbs. sents bs = \<lparr>hb_seq = q, hb_timestamp = s\<rparr> # hbs) \<and> (if g then late_echo bs else unanswered bs)"
  by (simp_all add: round_inv_def)

text \<open>The miss counter never overflows, and reaches the limit exactly when the code says so.\<close>

lemma sint_missed: "n \<le> 2 ^ 32 \<Longrightarrow> sint (of_nat n :: i64) = int n"
  by (simp add: sint_uint unsigned_of_nat signed_take_bit_int_eq_self take_bit_nat_eq_self)

lemma miss_limit_bound: "miss_limit t \<le> 2 ^ 32"
  by (simp add: miss_limit_def order.strict_implies_order [OF order.strict_trans2 [OF unsigned_less]])

lemma miss_limit_reached:
  assumes "n < miss_limit t"
  shows "int (unat (cc_max_misses (tk_cfg t))) \<le> sint (of_nat n + 1 :: i64) \<longleftrightarrow> Suc n = miss_limit t"
proof -
  have "sint (of_nat n + 1 :: i64) = int (Suc n)"
    using sint_missed [of "Suc n"] assms miss_limit_bound [of t] by (simp add: add.commute)
  moreover have "unat (cc_max_misses (tk_cfg t)) \<le> Suc n \<longleftrightarrow> Suc n = miss_limit t"
    using assms by (auto simp: miss_limit_def max_def split: if_splits)
  ultimately show ?thesis by linarith
qed

definition session_log :: "metric_call list \<Rightarrow> task_state \<Rightarrow> episode list \<Rightarrow> beat list \<Rightarrow> bool" where
  "session_log base s eps bs \<longleftrightarrow>
     list_all (episode_ok (miss_limit (snd s))) eps
     \<and> w_calls (fst s) = base @ history_calls (snd s) eps
                           @ beats_calls (task_label (snd s)) (tk_start_ts (snd s)) bs"

lemma session_taskI:
  assumes "session_log base (w, t) eps bs" and "session_inv arrived t bs"
    and "in_session (tk_pc t)" and "round_inv (tk_pc t) bs"
  shows "task_inv base (arrived, w, t)"
  using assms by (auto simp: task_inv_def session_log_def)

lemma session_taskE:
  assumes "task_inv base (arrived, w, t)" and "in_session (tk_pc t)"
  obtains eps bs where "session_log base (w, t) eps bs" "session_inv arrived t bs" "round_inv (tk_pc t) bs"
  using assms by (auto simp: task_inv_def session_log_def split: if_splits)

lemma session_log_update [simp]:
  "session_log base (w, t\<lparr>tk_pc := pc\<rparr>) eps bs = session_log base (w, t) eps bs"
  "session_log base (w, t\<lparr>tk_next_send := n\<rparr>) eps bs = session_log base (w, t) eps bs"
  "session_log base (w, t\<lparr>tk_out := out\<rparr>) eps bs = session_log base (w, t) eps bs"
  "session_log base (w, t\<lparr>tk_inbox := i\<rparr>) eps bs = session_log base (w, t) eps bs"
  "session_log base (w, t\<lparr>tk_reader := r\<rparr>) eps bs = session_log base (w, t) eps bs"
  "session_log base (w, t\<lparr>tk_seq := q\<rparr>) eps bs = session_log base (w, t) eps bs"
  "session_log base (w, t\<lparr>tk_missed := m\<rparr>) eps bs = session_log base (w, t) eps bs"
  "session_log base (w, t\<lparr>tk_cancel := b\<rparr>) eps bs = session_log base (w, t) eps bs"
  by (simp_all add: session_log_def)

lemma turn_inv:
  assumes "session_log base (w, t) eps bs" and "session_inv arrived t bs" and "\<not> unanswered bs"
  shows "task_inv base (arrived, session_turn (w, t))"
proof (cases "w_mono w < tk_next_send t")
  case True
  have "task_inv base (arrived, w, t\<lparr>tk_pc := KSleep\<rparr>)"
    by (rule session_taskI [where eps = eps and bs = bs]) (use assms in simp_all)
  with True show ?thesis by (simp add: session_turn_def)
next
  case False
  have "task_inv base (arrived, session_send (w, t))"
    unfolding session_send_def prod.case
    by (rule session_taskI [where eps = eps and bs = bs]) (use assms in simp_all)
  with False show ?thesis by (simp add: session_turn_def)
qed

lemma end_inv:
  assumes log: "session_log base (w, t) eps bs" and "beats_ok bs" and "missed_run bs \<le> miss_limit t"
    and reason: "reason \<in> set CLIENT_DISCONNECT_REASONS" and "reason \<noteq> ''connect_failed''"
    and "reason = ''timeout'' \<longleftrightarrow> missed_run bs = miss_limit t"
  shows "task_inv base (arrived, session_end reason (w, t))"
proof -
  let ?dur = "f64_sub (w_now w) (tk_start_ts t)"
  let ?ep = "Session (tk_start_ts t) bs ?dur reason"
  let ?s' = "session_end reason (w, t)"
  from reason have nc: "reason \<noteq> ''cancelled''" by (auto simp: CLIENT_DISCONNECT_REASONS_def)
  then have "w_calls (fst ?s') = base @ history_calls t (eps @ [?ep])"
    using log by (simp add: session_end_def Let_def task_backoff_def session_log_def)
  moreover have "list_all (episode_ok (miss_limit t)) (eps @ [?ep])"
    using assms by (simp add: session_log_def)
  ultimately have "\<exists>eps. list_all (episode_ok (miss_limit t)) eps
      \<and> w_calls (fst ?s') = base @ history_calls t eps" by blast
  with nc show ?thesis by (simp add: session_end_def Let_def task_backoff_def task_inv_def)
qed

lemma cancel_inv:
  assumes "session_log base (w, t) eps bs" and "beats_ok bs" and "missed_run bs < miss_limit t"
  shows "task_inv base (arrived, session_end ''cancelled'' (w, t))"
proof -
  let ?dur = "f64_sub (w_now w) (tk_start_ts t)"
  let ?s' = "session_end ''cancelled'' (w, t)"
  have "w_calls (fst ?s') = base @ history_calls t (eps @ [Session (tk_start_ts t) bs ?dur ''cancelled''])"
    using assms(1) by (simp add: session_end_def Let_def session_log_def)
  then have "\<exists>start bs duration. beats_ok bs \<and> missed_run bs < miss_limit t
      \<and> w_calls (fst ?s') = base @ history_calls t (eps @ [Session start bs duration ''cancelled''])"
    using assms(2,3) by blast
  moreover have "list_all (episode_ok (miss_limit t)) eps" using assms(1) by (simp add: session_log_def)
  ultimately show ?thesis
    by (simp add: session_end_def Let_def task_inv_def) blast
qed

lemma classify_documented:
  "classify_io_error e \<in> set CLIENT_DISCONNECT_REASONS" "classify_io_error e \<noteq> ''connect_failed''"
  "classify_io_error e \<noteq> ''timeout''"
  by (cases e; simp add: CLIENT_DISCONNECT_REASONS_def)+

lemma error_inv:
  assumes "session_log base (w, t) eps bs" and "beats_ok bs" and "missed_run bs < miss_limit t"
  shows "task_inv base (arrived, session_end (classify_io_error e) (w, t))"
  using assms classify_documented by (intro end_inv) auto

lemma start_inv:
  assumes "list_all (episode_ok (miss_limit t)) eps" and "w_calls w = base @ history_calls t eps"
    and "sent (tk_out t) = wire_handshake (tk_node t)" and "arrived = inbox_bytes (tk_inbox t)"
  shows "task_inv base (arrived, session_start (w, t))"
proof -
  have "0 < miss_limit t" by (simp add: miss_limit_def)
  with assms show ?thesis
    by (auto simp: session_start_def Let_def session_log_def session_inv_def
        intro!: turn_inv [of base _ _ eps "[]"])
qed

lemma handshake_inv:
  assumes "task_inv base (arrived, w, t)" and "tk_pc t = KHandshake"
  shows "task_inv base (arrived, poll_handshake (w, t))"
proof -
  from assms obtain eps where eps: "list_all (episode_ok (miss_limit t)) eps"
    "w_calls w = base @ history_calls t eps" "sent (tk_out t) = []" "arrived = inbox_bytes (tk_inbox t)"
    by (auto simp: task_inv_def)
  obtain r out where wr: "send_handshake (tk_node t) (tk_out t) = (r, out)"
    by (cases "send_handshake (tk_node t) (tk_out t)")
  show ?thesis
  proof (cases r)
    case (Inl e)
    from eps have "list_all (episode_ok (miss_limit t)) (eps @ [HandshakeFailed])"
      "w_calls w = base @ history_calls t (eps @ [HandshakeFailed])" by simp_all
    then have "\<exists>eps. list_all (episode_ok (miss_limit t)) eps \<and> w_calls w = base @ history_calls t eps" by blast
    with wr Inl show ?thesis
      by (simp add: poll_handshake_def task_backoff_def task_inv_def)
  next
    case (Inr u)
    with wr have ok: "send_handshake (tk_node t) (tk_out t) = (Inr (), out)" by simp
    with send_handshake_wire [OF ok] eps show ?thesis
      by (auto simp: poll_handshake_def intro!: start_inv [of _ eps])
  qed
qed

lemma send_inv:
  assumes "task_inv base (arrived, w, t)" and "tk_pc t = KSend time"
  shows "task_inv base (arrived, poll_send time (w, t))"
proof -
  from assms obtain eps bs where s: "session_log base (w, t) eps bs" "session_inv arrived t bs"
    "\<not> unanswered bs"
    using session_taskE [OF assms(1)] by (metis in_session_simps(6) round_inv_simps(2))
  let ?hb = "\<lparr>hb_seq = tk_seq t, hb_timestamp = now_f64 time\<rparr>"
  obtain r out where wr: "write_all (encode_heartbeat ?hb) (tk_out t) = (r, out)"
    by (cases "write_all (encode_heartbeat ?hb) (tk_out t)")
  then have wr': "write_all (encode_packet (tk_seq t) (now_f64 time)) (tk_out t) = (r, out)"
    by (simp add: encode_heartbeat_def)
  show ?thesis
  proof (cases r)
    case (Inl e)
    from s have "task_inv base (arrived, session_end (classify_io_error e) (w, t\<lparr>tk_out := out\<rparr>))"
      by (intro error_inv [of base _ _ eps bs]) (auto simp: session_log_def session_inv_def)
    with wr' Inl show ?thesis by (simp add: poll_send_def send_heartbeat_def Let_def)
  next
    case (Inr u)
    with wr write_all_ok [of "encode_heartbeat ?hb" "tk_out t" out]
    have out: "sent out = sent (tk_out t) @ encode_heartbeat ?hb" by simp
    from s out have "session_inv arrived (t\<lparr>tk_out := out, tk_seq := tk_seq t + 1\<rparr>) (BSent ?hb # bs)"
      by (simp add: session_inv_def miss_limit_def)
    moreover from s
    have "session_log base (w_emit [CounterInc client_heartbeats_sent (task_label t)] w,
        t\<lparr>tk_out := out, tk_seq := tk_seq t + 1\<rparr>) eps (BSent ?hb # bs)"
      by (simp add: session_log_def)
    ultimately show ?thesis
      using wr' Inr unfolding poll_send_def send_heartbeat_def Let_def
      by (auto simp: session_log_def intro!: session_taskI [of base _ _ eps "BSent ?hb # bs"])
  qed
qed

text \<open>What a poll of the reader does to an open session.\<close>

lemma recv_session:
  assumes inv: "session_inv arrived t bs" and r: "recv (tk_reader t) (tk_inbox t) = (res, r, i)"
  shows "\<not> (\<exists>hb. res = Ready (Inr hb)) \<Longrightarrow> session_inv arrived (t\<lparr>tk_reader := r, tk_inbox := i\<rparr>) bs"
    and "res = Ready (Inr hb) \<Longrightarrow> unanswered bs \<or> late_echo bs \<Longrightarrow>
      session_inv arrived (t\<lparr>tk_reader := r, tk_inbox := i, tk_missed := 0\<rparr>) (BEcho hb now # bs)"
proof -
  from inv have "reader_inv (tk_reader t)" by (simp add: session_inv_def idle_inv)
  note c = recv_conserves [OF r this]
  have "0 < miss_limit t" by (simp add: miss_limit_def)
  with inv c show "session_inv arrived (t\<lparr>tk_reader := r, tk_inbox := i, tk_missed := 0\<rparr>) (BEcho hb now # bs)"
    if "res = Ready (Inr hb)" "unanswered bs \<or> late_echo bs"
    using that by (simp add: session_inv_def)
  show "session_inv arrived (t\<lparr>tk_reader := r, tk_inbox := i\<rparr>) bs" if "\<not> (\<exists>hb. res = Ready (Inr hb))"
  proof -
    from that have "packet_bytes res = []" by (auto simp: packet_bytes_def split: poll.splits sum.splits)
    with inv c show ?thesis by (simp add: session_inv_def)
  qed
qed

lemma timeout_inv:
  assumes log: "session_log base (w, t) eps bs" and inv: "session_inv arrived t bs"
    and got: "if got then late_echo bs else unanswered bs"
  shows "task_inv base (arrived, echo_timeout got (w, t))"
proof (cases got)
  case True
  with got have "\<not> unanswered bs" by (cases bs rule: late_echo.cases) simp_all
  with True turn_inv [OF log inv] show ?thesis by (simp add: echo_timeout_def)
next
  case False
  let ?w = "w_emit (miss_calls (task_label t) (tk_missed t + 1)) w"
  let ?t = "t\<lparr>tk_missed := tk_missed t + 1\<rparr>"
  from inv have n: "missed_run bs < miss_limit t" "tk_missed t = of_nat (missed_run bs)" "beats_ok bs"
    by (simp_all add: session_inv_def)
  from False got have un: "unanswered bs" by simp
  have log': "session_log base (?w, ?t) eps (BMiss # bs)"
    using log n(2) by (simp add: session_log_def add.commute)
  show ?thesis
  proof (cases "Suc (missed_run bs) = miss_limit t")
    case True
    have "''timeout'' \<in> set CLIENT_DISCONNECT_REASONS" by (simp add: CLIENT_DISCONNECT_REASONS_def)
    then have "task_inv base (arrived, session_end ''timeout'' (?w, ?t))"
      using log' n un True by (intro end_inv [of base ?w ?t eps "BMiss # bs"]) simp_all
    then show ?thesis
      using False True miss_limit_reached [OF n(1)] by (simp add: echo_timeout_def Let_def n(2))
  next
    case more: False
    have "session_inv arrived (?t\<lparr>tk_next_send := w_mono ?w + heartbeat_interval ?t\<rparr>) (BMiss # bs)"
      using inv un more by (simp add: session_inv_def miss_limit_def add.commute)
    with log' have "task_inv base (arrived, session_turn (?w, ?t\<lparr>tk_next_send := w_mono ?w + heartbeat_interval ?t\<rparr>))"
      by (intro turn_inv [of base _ _ eps "BMiss # bs"]) simp_all
    then show ?thesis
      using False more miss_limit_reached [OF n(1)] by (simp add: echo_timeout_def Let_def n(2))
  qed
qed

lemma echo_inv:
  assumes log: "session_log base (w, t) eps bs"
    and inv: "session_inv arrived (t\<lparr>tk_missed := 0\<rparr>) (BEcho echo (w_now w) # bs)"
    and last: "sents bs = \<lparr>hb_seq = sent_seq, hb_timestamp = send_ts\<rparr> # hbs"
  shows "task_inv base (arrived, echo_received echo sent_seq send_ts deadline (w, t))"
proof -
  let ?rtt = "if hb_seq echo = sent_seq then Some send_ts else None"
  let ?w = "w_emit (record_echo (task_label t) (tk_start_ts t) (w_now w) ?rtt) w"
  have ans: "answered echo bs = ?rtt" by (simp add: answered_def last)
  have log': "session_log base (?w, t\<lparr>tk_missed := 0\<rparr>) eps (BEcho echo (w_now w) # bs)"
    using log ans by (simp add: session_log_def)
  show ?thesis
  proof (cases "hb_seq echo = sent_seq")
    case True
    with turn_inv [OF log' inv] show ?thesis by (simp add: echo_received_def Let_def)
  next
    case False
    have "task_inv base (arrived, ?w, t\<lparr>tk_missed := 0, tk_pc := KEcho sent_seq send_ts deadline True\<rparr>)"
      by (rule session_taskI [where eps = eps and bs = "BEcho echo (w_now w) # bs"])
        (use log' inv ans last False in simp_all)
    with False show ?thesis by (simp add: echo_received_def Let_def)
  qed
qed

lemma poll_echo_inv:
  assumes inv: "task_inv base (arrived, w, t)" and pc: "tk_pc t = KEcho sent_seq send_ts deadline got"
    and step: "poll_echo sent_seq send_ts deadline got (w, t) = Some s'"
  shows "task_inv base (arrived, s')"
proof -
  have "in_session (tk_pc t)" by (simp add: pc)
  from session_taskE [OF inv this] obtain eps bs where log: "session_log base (w, t) eps bs"
    and s: "session_inv arrived t bs" and round: "round_inv (tk_pc t) bs" .
  from round pc obtain hbs where last: "sents bs = \<lparr>hb_seq = sent_seq, hb_timestamp = send_ts\<rparr> # hbs"
    and got: "if got then late_echo bs else unanswered bs" by auto
  obtain res r i where rc: "recv (tk_reader t) (tk_inbox t) = (res, r, i)" by (metis prod_cases3)
  note read = recv_session [OF s rc]
  let ?t = "t\<lparr>tk_reader := r, tk_inbox := i\<rparr>"
  have log': "session_log base (w, ?t) eps bs" using log by simp
  have "s' = echo_timeout got (w, ?t) \<and> session_inv arrived ?t bs
      \<or> (\<exists>e. s' = session_end (classify_io_error e) (w, ?t)) \<and> session_inv arrived ?t bs
      \<or> (\<exists>hb. s' = echo_received hb sent_seq send_ts deadline (w, ?t)
           \<and> session_inv arrived (?t\<lparr>tk_missed := 0\<rparr>) (BEcho hb (w_now w) # bs))"
    using step rc read got
    by (simp add: poll_echo_def split: poll.splits sum.splits if_splits) metis+
  then show ?thesis
  proof (elim disjE conjE exE)
    assume "s' = echo_timeout got (w, ?t)" "session_inv arrived ?t bs"
    with timeout_inv [OF log' _ got] show ?thesis by simp
  next
    fix e assume "s' = session_end (classify_io_error e) (w, ?t)" "session_inv arrived ?t bs"
    with error_inv [OF log', of arrived e] show ?thesis by (simp add: session_inv_def)
  next
    fix hb assume "s' = echo_received hb sent_seq send_ts deadline (w, ?t)"
      "session_inv arrived (?t\<lparr>tk_missed := 0\<rparr>) (BEcho hb (w_now w) # bs)"
    with echo_inv [OF log' _ last] show ?thesis by simp
  qed
qed

lemma sleep_inv:
  assumes inv: "task_inv base (arrived, w, t)" and pc: "tk_pc t = KSleep"
  shows "task_inv base (arrived, session_send (w, t))"
proof -
  have "in_session (tk_pc t)" by (simp add: pc)
  from session_taskE [OF inv this] obtain eps bs where "session_log base (w, t) eps bs"
    "session_inv arrived t bs" "round_inv (tk_pc t) bs" .
  then show ?thesis
    unfolding session_send_def prod.case
    by (intro session_taskI [where eps = eps and bs = bs]) (simp_all add: pc)
qed

lemma cancelled_inv:
  assumes inv: "task_inv base (arrived, w, t)" and step: "task_cancelled (w, t) = Some s'"
  shows "task_inv base (arrived, s')"
proof (cases "in_session (tk_pc t)")
  case True
  with step have s': "s' = session_end ''cancelled'' (w, t)"
    by (cases "tk_pc t") (auto simp: task_cancelled_def split: if_splits)
  from session_taskE [OF inv True] obtain eps bs where "session_log base (w, t) eps bs"
    "session_inv arrived t bs" .
  then show ?thesis unfolding s' by (intro cancel_inv [where eps = eps and bs = bs]) (simp_all add: session_inv_def)
next
  case False
  with step inv show ?thesis
    by (cases "tk_pc t") (auto simp: task_cancelled_def task_inv_def split: if_splits)
qed

text \<open>Leaving the session loop's waits: a first poll, a connection attempt that came out.\<close>

lemma outside_inv:
  assumes inv: "task_inv base (arrived, w, t)"
  shows "tk_pc t = KStart \<Longrightarrow>
      task_inv base (arrived', w_emit (init_calls (tk_node t) (pc_name (tk_peer t))) w, task_connect t)"
    and "tk_pc t = KBackoff d \<Longrightarrow> task_inv base (arrived', w, task_connect t)"
    and "tk_pc t = KConnect a \<Longrightarrow> task_inv base (arrived', connect_failed (w, t))"
    and "tk_pc t = KConnect a \<Longrightarrow> task_inv base ([], w, connected faults t)"
proof -
  show "task_inv base (arrived', w_emit (init_calls (tk_node t) (pc_name (tk_peer t))) w, task_connect t)"
    if "tk_pc t = KStart"
    using that inv by (auto simp: task_inv_def task_connect_def history_calls_def intro!: exI [of _ "[]"])
  show "task_inv base (arrived', w, task_connect t)" if "tk_pc t = KBackoff d"
    using that inv by (auto simp: task_inv_def task_connect_def)
  show "task_inv base ([], w, connected faults t)" if "tk_pc t = KConnect a"
    using that inv by (auto simp: task_inv_def connected_def)
  show "task_inv base (arrived', connect_failed (w, t))" if pc: "tk_pc t = KConnect a"
  proof -
    from pc inv obtain eps where "list_all (episode_ok (miss_limit t)) eps"
      "w_calls w = base @ history_calls t eps" by (auto simp: task_inv_def)
    then have "list_all (episode_ok (miss_limit t)) (eps @ [ConnectFailed])"
      "w_calls (fst (connect_failed (w, t))) = base @ history_calls t (eps @ [ConnectFailed])"
      by (simp_all add: connect_failed_def task_backoff_def task_label_def)
    then have "\<exists>eps. list_all (episode_ok (miss_limit t)) eps
        \<and> w_calls (fst (connect_failed (w, t))) = base @ history_calls t eps" by blast
    then show ?thesis by (simp add: connect_failed_def task_backoff_def task_inv_def)
  qed
qed

lemma task_poll_inv:
  assumes inv: "task_inv base (arrived, w, t)" and step: "task_poll (w, t) = Some s'"
  shows "task_inv base (arrived, s')"
proof (cases "tk_pc t")
  case (KEcho q ts d g)
  with step poll_echo_inv [OF inv KEcho] show ?thesis by (simp add: task_poll_def)
qed (use step inv outside_inv [OF inv] handshake_inv [OF inv] send_inv [OF inv] sleep_inv [OF inv] in
    \<open>auto simp: task_poll_def split: if_splits\<close>)

text \<open>The environment: time passes, bytes arrive, the token is set.\<close>

lemma task_env_inv:
  assumes "task_inv base (arrived, w, t)" and "w_metrics w' = w_metrics w"
  shows "task_inv base (arrived @ inbox_bytes i, w', t\<lparr>tk_inbox := tk_inbox t @ i\<rparr>)"
    "task_inv base (arrived, w', t)" "task_inv base (arrived, w', t\<lparr>tk_cancel := True\<rparr>)"
proof -
  have s: "session_inv (arrived @ inbox_bytes i) (t\<lparr>tk_inbox := tk_inbox t @ i\<rparr>) bs" if "session_inv arrived t bs" for bs
    using that by (simp add: session_inv_def)
  show "task_inv base (arrived @ inbox_bytes i, w', t\<lparr>tk_inbox := tk_inbox t @ i\<rparr>)"
    using assms s by (simp add: task_inv_def split: if_splits) blast+
  show "task_inv base (arrived, w', t)" "task_inv base (arrived, w', t\<lparr>tk_cancel := True\<rparr>)"
    using assms by (cases "tk_pc t"; auto simp: task_inv_def)+
qed

interpretation task_machine: stepper "with_ghost task_step task_arrived" "task_inv base" for base
proof
  fix s s' :: "u8 list \<times> task_state" and e
  assume step: "with_ghost task_step task_arrived s e = Some s'" and inv: "task_inv base s"
  obtain arrived w t where s: "s = (arrived, w, t)" by (cases s)
  from inv s have inv': "task_inv base (arrived, w, t)" by simp
  from step s obtain s1 where s1: "task_step (w, t) e = Some s1" "s' = (task_arrived arrived e, s1)"
    by (auto simp: with_ghost_def)
  show "task_inv base s'"
  proof (cases e)
    case TPoll
    with s1 task_poll_inv [OF inv'] show ?thesis by (simp add: task_step_def task_arrived_def)
  next
    case TCancelled
    with s1 cancelled_inv [OF inv'] show ?thesis by (simp add: task_step_def task_arrived_def)
  qed (use s1 task_env_inv [OF inv'] outside_inv [OF inv'] in
      \<open>auto simp: task_step_def task_arrived_def split: task_pc.splits\<close>)
qed

lemma task_run_inv:
  assumes "run_steps task_step (w, task_spawn peer cfg node) es = Some (w', t')"
  shows "task_inv (w_calls w) (foldl task_arrived [] es, w', t')"
proof -
  have "run_steps (with_ghost task_step task_arrived) ([], w, task_spawn peer cfg node) es
      = Some (foldl task_arrived [] es, w', t')"
    by (simp add: run_with_ghost assms)
  then show ?thesis
    by (rule task_machine.inv_run) (simp add: task_inv_def task_spawn_def)
qed

section \<open>What the metrics of a task show\<close>

text \<open>The gauges after the calls of an open session, and after an episode.\<close>

lemma beats_gauges:
  assumes "calls m = base @ beats_calls l start bs"
  shows "gauge_value m client_session_active l = Some 1"
    and "gauge_value m client_consecutive_missed l = Some (of_nat (missed_run bs))"
proof -
  have read: "read_calls (gauge_eff f l) (base @ beats_calls l start bs) =
      (if f = client_session_active then Some 1 else Some (of_nat (missed_run bs)))"
    if "f \<in> {client_session_active, client_consecutive_missed}" for f
  proof (induction bs)
    case Nil
    from that show ?case
      by (auto simp: record_session_start_def read_calls_def gauge_eff_def)
  next
    case (Cons b bs)
    with that show ?case
      by (cases b) (auto simp: read_calls_def gauge_eff_def record_echo_def miss_calls_def split: option.splits)
  qed
  show "gauge_value m client_session_active l = Some 1"
    "gauge_value m client_consecutive_missed l = Some (of_nat (missed_run bs))"
    using read [of client_session_active] read [of client_consecutive_missed] assms
    by (simp_all add: gauge_value_def)
qed

lemma episode_gauge:
  "read_calls (gauge_eff client_session_active l) (cs @ episode_calls l ep) \<in>
     {Some 0, read_calls (gauge_eff client_session_active l) cs}"
  by (cases ep) (auto simp: read_calls_def gauge_eff_def session_end_calls_def)

lemma history_gauge:
  assumes "read_calls (gauge_eff client_session_active (task_label t)) base \<noteq> Some 1"
  shows "read_calls (gauge_eff client_session_active (task_label t)) (base @ history_calls t eps) \<noteq> Some 1"
proof (induction eps rule: rev_induct)
  case Nil
  with assms gauge.read_frame [OF init_calls_frame] show ?case by (simp add: history_calls_def)
next
  case (snoc ep eps)
  with episode_gauge [of "task_label t" "base @ history_calls t eps" ep] show ?case by auto
qed

text \<open>Counting: the calls of one family and label among those of an episode.\<close>

lemma count_beats:
  "count_list (beats_calls l start bs) (CounterInc client_sessions_total l') = (if l' = l then 1 else 0)"
  "count_list (beats_calls l start bs) (DisconnectInc f d) = 0"
  by (induction bs rule: beats_calls.induct)
    (auto simp: record_session_start_def record_echo_def miss_calls_def split: option.splits)

lemma count_init:
  "count_list (init_calls node peer) (CounterInc f l) = 0"
  "count_list (init_calls node peer) (DisconnectInc g d) = 0"
  by (auto simp: init_calls_def count_list_0_iff)

definition ended_total :: "metric_call list \<Rightarrow> peer_label \<Rightarrow> nat" where
  "ended_total cs l =
     sum_list (map (\<lambda>reason. count_list cs (DisconnectInc client_disconnects (reason_label (pl_node l) (pl_peer l) reason)))
       [''remote_close'', ''connection_reset'', ''timeout'', ''local_error''])"

lemma ended_total_append: "ended_total (cs @ ds) l = ended_total cs l + ended_total ds l"
  by (simp add: ended_total_def)

lemma ended_end:
  "ended_total (session_end_calls l d reason) l =
     (if reason \<in> set CLIENT_DISCONNECT_REASONS \<and> reason \<noteq> ''connect_failed'' then 1 else 0)"
  by (auto simp: ended_total_def session_end_calls_def reason_label_def CLIENT_DISCONNECT_REASONS_def)

lemma ended_episode:
  assumes "episode_ok limit ep"
  shows "count_list (episode_calls l ep) (CounterInc client_sessions_total l) = ended_total (episode_calls l ep) l"
proof (cases ep)
  case ConnectFailed
  then show ?thesis by (simp add: ended_total_def reason_label_def)
next
  case HandshakeFailed
  then show ?thesis by (simp add: ended_total_def)
next
  case (Session start bs d reason)
  have "count_list (session_end_calls l d reason) (CounterInc client_sessions_total l) = 0"
    by (simp add: session_end_calls_def)
  moreover have "ended_total (beats_calls l start bs) l = 0"
    by (simp add: ended_total_def count_beats)
  ultimately show ?thesis
    using assms Session by (simp add: ended_total_append ended_end count_beats)
qed

lemma ended_history:
  assumes "list_all (episode_ok limit) eps"
  shows "count_list (history_calls t eps) (CounterInc client_sessions_total (task_label t))
    = ended_total (history_calls t eps) (task_label t)"
  using assms
proof (induction eps rule: rev_induct)
  case Nil
  then show ?case by (simp add: history_calls_def count_init ended_total_def)
next
  case (snoc ep eps)
  then show ?case by (simp add: ended_total_append ended_episode [of limit])
qed

section \<open>The schedule of a session\<close>

text \<open>
  \<open>now\<close> and \<open>since\<close> are the current time and the time of the last connect. With \<open>n\<close> misses in
  a row, the next packet is due at least \<open>2 n\<close> intervals after the connect and the echo wait
  ends at least \<open>2 n + 1\<close> intervals after it; no timer is further ahead than one interval.
\<close>

definition sched_inv :: "(instant \<times> instant) \<times> task_state \<Rightarrow> bool" where
  "sched_inv s =
     (case s of ((now, since), w, t) \<Rightarrow>
        now = w_mono w \<and> since \<le> now \<and>
        (\<forall>until. tk_pc t = KBackoff until \<longrightarrow> until \<le> now + from_secs (cc_reconnect_delay (tk_cfg t))) \<and>
        (in_session (tk_pc t) \<longrightarrow>
           unat (tk_missed t) < miss_limit t \<and> tk_next_send t \<le> now + heartbeat_interval t \<and>
           (let n = unat (tk_missed t); ival = heartbeat_interval t in
            case tk_pc t of
              KEcho _ _ deadline got \<Rightarrow>
                since + (2 * n + 1) * ival \<le> deadline \<and> deadline \<le> now + ival
                \<and> since \<le> tk_next_send t \<and> (got \<longrightarrow> n = 0)
            | KSend _ \<Rightarrow> since + (2 * n + 1) * ival \<le> tk_next_send t
            | _ \<Rightarrow> since + 2 * n * ival \<le> tk_next_send t)))"

definition task_clock :: "instant \<times> instant \<Rightarrow> task_event \<Rightarrow> instant \<times> instant" where
  "task_clock c e =
     (case e of TTick d _ \<Rightarrow> (fst c + d, snd c) | TConnected _ \<Rightarrow> (fst c, fst c) | _ \<Rightarrow> c)"

lemma heartbeat_interval_update [simp]:
  "heartbeat_interval (t\<lparr>tk_pc := pc\<rparr>) = heartbeat_interval t"
  "heartbeat_interval (t\<lparr>tk_inbox := i\<rparr>) = heartbeat_interval t"
  "heartbeat_interval (t\<lparr>tk_out := out\<rparr>) = heartbeat_interval t"
  "heartbeat_interval (t\<lparr>tk_start_ts := ts\<rparr>) = heartbeat_interval t"
  "heartbeat_interval (t\<lparr>tk_seq := sq\<rparr>) = heartbeat_interval t"
  "heartbeat_interval (t\<lparr>tk_missed := m\<rparr>) = heartbeat_interval t"
  "heartbeat_interval (t\<lparr>tk_next_send := n\<rparr>) = heartbeat_interval t"
  "heartbeat_interval (t\<lparr>tk_reader := r\<rparr>) = heartbeat_interval t"
  "heartbeat_interval (t\<lparr>tk_cancel := b\<rparr>) = heartbeat_interval t"
  by (simp_all add: heartbeat_interval_def)

lemma sched_turn:
  assumes "since \<le> w_mono w" and "unat (tk_missed t) < miss_limit t"
    and "since + 2 * unat (tk_missed t) * heartbeat_interval t \<le> tk_next_send t"
    and "tk_next_send t \<le> w_mono w + heartbeat_interval t"
  shows "sched_inv ((w_mono w, since), session_turn (w, t))"
  using assms by (auto simp: session_turn_def session_send_def sched_inv_def Let_def algebra_simps)

lemma sched_outside:
  "since \<le> w_mono w \<Longrightarrow> sched_inv ((w_mono w, since), session_end reason (w, t))"
  "since \<le> w_mono w \<Longrightarrow> sched_inv ((w_mono w, since), task_backoff (w, t))"
  by (simp_all add: session_end_def task_backoff_def sched_inv_def Let_def)

lemma unat_missed_suc: "unat m < miss_limit t \<Longrightarrow> unat (m + 1 :: i64) = Suc (unat m)"
proof -
  assume "unat m < miss_limit t"
  with miss_limit_bound [of t] have "Suc (unat m) < 2 ^ 64" by simp
  then have "unat (of_nat (Suc (unat m)) :: i64) = Suc (unat m)" by (intro unat_of_nat_small) simp
  then show ?thesis by (simp add: add.commute)
qed

lemma sched_timeout:
  assumes "since \<le> w_mono w" and n: "unat (tk_missed t) < miss_limit t"
    and "since + (2 * unat (tk_missed t) + 1) * heartbeat_interval t \<le> w_mono w"
    and "since \<le> tk_next_send t" and "tk_next_send t \<le> w_mono w + heartbeat_interval t"
    and "got \<Longrightarrow> unat (tk_missed t) = 0"
  shows "sched_inv ((w_mono w, since), echo_timeout got (w, t))"
proof (cases got)
  case True
  with assms have "sched_inv ((w_mono w, since), session_turn (w, t))" by (intro sched_turn) simp_all
  with True show ?thesis by (simp add: echo_timeout_def)
next
  case False
  let ?w = "w_emit (miss_calls (task_label t) (tk_missed t + 1)) w"
  let ?t = "t\<lparr>tk_missed := tk_missed t + 1, tk_next_send := w_mono w + heartbeat_interval t\<rparr>"
  show ?thesis
  proof (cases "Suc (unat (tk_missed t)) = miss_limit t")
    case True
    with False miss_limit_reached [OF n] sched_outside(1) [of since ?w] assms(1) show ?thesis
      by (simp add: echo_timeout_def Let_def)
  next
    case more: False
    have m: "unat (tk_missed ?t) = Suc (unat (tk_missed t))" using unat_missed_suc [OF n] by simp
    have due: "since + 2 * Suc (unat (tk_missed t)) * heartbeat_interval t \<le> w_mono w + heartbeat_interval t"
      using assms(3) by (simp add: algebra_simps)
    have "sched_inv ((w_mono ?w, since), session_turn (?w, ?t))"
    proof (rule sched_turn)
      show "unat (tk_missed ?t) < miss_limit ?t" unfolding m using n more by simp
      show "since + 2 * unat (tk_missed ?t) * heartbeat_interval ?t \<le> tk_next_send ?t"
        unfolding m using due by simp
    qed (use assms in simp_all)
    with False more miss_limit_reached [OF n] show ?thesis by (simp add: echo_timeout_def Let_def)
  qed
qed

lemma sched_echo:
  assumes "since \<le> w_mono w" and "since + heartbeat_interval t \<le> deadline"
    and "deadline \<le> w_mono w + heartbeat_interval t"
    and "since \<le> tk_next_send t" and "tk_next_send t \<le> w_mono w + heartbeat_interval t"
  shows "sched_inv ((w_mono w, since), echo_received echo q ts deadline (w, t))"
proof -
  let ?w = "\<lambda>rtt. w_emit (record_echo (task_label t) (tk_start_ts t) (w_now w) rtt) w"
  have pos: "0 < miss_limit t" by (simp add: miss_limit_def)
  then have "sched_inv ((w_mono (?w rtt), since), session_turn (?w rtt, t\<lparr>tk_missed := 0\<rparr>))" for rtt
    using assms by (intro sched_turn) simp_all
  then show ?thesis
    using assms pos by (auto simp: echo_received_def Let_def sched_inv_def)
qed

lemma sched_poll:
  assumes inv: "sched_inv ((now, since), w, t)" and step: "task_poll (w, t) = Some s'"
  shows "sched_inv ((now, since), s')"
proof -
  from inv have now: "now = w_mono w" "since \<le> w_mono w" by (simp_all add: sched_inv_def)
  have pos: "0 < miss_limit t" by (simp add: miss_limit_def)
  show ?thesis
  proof (cases "tk_pc t")
    case (KEcho q ts d g)
    let ?n = "unat (tk_missed t)" and ?i = "heartbeat_interval t"
    from inv KEcho now have f: "?n < miss_limit t" "tk_next_send t \<le> w_mono w + ?i"
      "since + (2 * ?n + 1) * ?i \<le> d" "d \<le> w_mono w + ?i" "since \<le> tk_next_send t" "g \<longrightarrow> ?n = 0"
      by (simp_all add: sched_inv_def Let_def)
    have "since + ?i \<le> d" using f(3) by (simp add: algebra_simps)
    with step KEcho f now show ?thesis
      by (auto simp: task_poll_def poll_echo_def split: prod.splits poll.splits sum.splits if_splits
          intro!: sched_timeout sched_echo sched_outside)
  next
    case KHandshake
    with step now pos show ?thesis
      by (auto simp: task_poll_def poll_handshake_def session_start_def Let_def
          split: prod.splits sum.splits intro!: sched_outside)
        (use pos in \<open>auto intro!: sched_turn [of _ "w_emit c w" for c, unfolded w_emit_simps]\<close>)
  next
    case (KSend time)
    with step now inv show ?thesis
      by (auto simp: task_poll_def poll_send_def split: prod.splits sum.splits intro!: sched_outside)
        (auto simp: sched_inv_def Let_def algebra_simps)
  qed (use step inv in \<open>auto simp: task_poll_def sched_inv_def Let_def task_connect_def session_send_def
      algebra_simps split: if_splits\<close>)
qed

interpretation task_schedule: stepper "with_ghost task_step task_clock" sched_inv
proof
  fix s s' :: "(instant \<times> instant) \<times> task_state" and e
  assume step: "with_ghost task_step task_clock s e = Some s'" and inv: "sched_inv s"
  obtain now since w t where s: "s = ((now, since), w, t)" by (cases s) auto
  from step s obtain s1 where s1: "task_step (w, t) e = Some s1" "s' = (task_clock (now, since) e, s1)"
    by (auto simp: with_ghost_def)
  from inv s have inv': "sched_inv ((now, since), w, t)" by simp
  then have now: "now = w_mono w" "since \<le> w_mono w" by (simp_all add: sched_inv_def)
  show "sched_inv s'"
  proof (cases e)
    case TPoll
    with s1 sched_poll [OF inv'] show ?thesis by (simp add: task_step_def task_clock_def)
  next
    case TCancelled
    with s1 now show ?thesis
      by (auto simp: task_step_def task_clock_def task_cancelled_def split: if_splits task_pc.splits
          intro!: sched_outside) (auto simp: sched_inv_def)
  next
    case (TConnectFailed k)
    with s1 now sched_outside(2) [of since "w_emit c w" for c] show ?thesis
      by (auto simp: task_step_def task_clock_def connect_failed_def split: task_pc.splits)
  next
    case (TConnected faults)
    with s1 now show ?thesis
      by (auto simp: task_step_def task_clock_def connected_def sched_inv_def split: task_pc.splits)
  next
    case (TTick d time)
    with s1 inv' show ?thesis
      by (cases "tk_pc t") (auto simp: task_step_def task_clock_def sched_inv_def Let_def)
  qed (use s1 inv' in \<open>auto simp: task_step_def task_clock_def sched_inv_def Let_def split: task_pc.splits\<close>)
qed

lemma sched_run:
  assumes "run_steps task_step (w, task_spawn peer cfg node) es = Some (w', t')"
  shows "sched_inv (foldl task_clock (w_mono w, w_mono w) es, w', t')"
proof -
  have "run_steps (with_ghost task_step task_clock) ((w_mono w, w_mono w), w, task_spawn peer cfg node) es
      = Some (foldl task_clock (w_mono w, w_mono w) es, w', t')"
    by (simp add: run_with_ghost assms)
  then show ?thesis
    by (rule task_schedule.inv_run) (simp add: sched_inv_def task_spawn_def)
qed

text \<open>The step that reports a timeout: the end of an echo wait without an echo, at the limit.\<close>

definition reports :: "string \<Rightarrow> world \<Rightarrow> world \<Rightarrow> bool" where
  "reports reason w w' \<longleftrightarrow>
     (\<exists>cs l. w_calls w' = w_calls w @ cs \<and> DisconnectInc client_disconnects l \<in> set cs \<and> dl_reason l = reason)"

lemma reports_calls:
  "w_calls w' = w_calls w @ cs \<Longrightarrow>
     reports reason w w' \<longleftrightarrow> (\<exists>l. DisconnectInc client_disconnects l \<in> set cs \<and> dl_reason l = reason)"
  by (simp add: reports_def)

lemma turn_calls [simp]: "w_metrics (fst (session_turn s)) = w_metrics (fst s)"
  by (cases s) (simp add: session_turn_def session_send_def)

lemma end_calls:
  "w_calls (fst (session_end reason (w, t))) =
     w_calls w @ session_end_calls (task_label t) (f64_sub (w_now w) (tk_start_ts t)) reason"
  by (simp add: session_end_def Let_def task_backoff_def)

lemma no_disconnect:
  "DisconnectInc f l \<notin> set (record_echo pl st now rtt)" "DisconnectInc f l \<notin> set (miss_calls pl m)"
  "DisconnectInc f l \<notin> set (record_session_start pl st)" "DisconnectInc f l \<notin> set (init_calls node peer)"
  by (auto simp: record_echo_def miss_calls_def record_session_start_def init_calls_def split: option.splits)

lemma end_reports:
  "DisconnectInc client_disconnects l \<in> set (session_end_calls pl d reason) \<Longrightarrow> dl_reason l = reason"
  by (auto simp: session_end_calls_def reason_label_def split: if_splits)

lemma end_no_report:
  "reason \<noteq> reason' \<Longrightarrow> \<not> reports reason' w (fst (session_end reason (w, t)))"
  by (simp add: reports_calls [OF end_calls]) (blast dest: end_reports)

lemma poll_no_report:
  "\<not> reports ''timeout'' w (fst (poll_handshake (w, t)))" "\<not> reports ''timeout'' w (fst (poll_send time (w, t)))"
proof -
  show "\<not> reports ''timeout'' w (fst (poll_handshake (w, t)))"
    by (auto simp: poll_handshake_def session_start_def Let_def task_backoff_def reports_def no_disconnect
        split: prod.splits sum.splits)
  have *: "\<not> reports ''timeout'' w (fst (session_end (classify_io_error e) (w, t1)))" for e t1
    by (rule end_no_report) (rule classify_documented)
  have "poll_send time (w, t) = session_end (classify_io_error e) (w, t\<lparr>tk_out := out\<rparr>)"
    if "send_heartbeat (tk_seq t) time (tk_out t) = (Inl e, out)" for e out
    using that by (simp add: poll_send_def)
  then show "\<not> reports ''timeout'' w (fst (poll_send time (w, t)))"
    using * by (cases "send_heartbeat (tk_seq t) time (tk_out t)"; cases "fst (send_heartbeat (tk_seq t) time (tk_out t))")
      (auto simp: poll_send_def reports_def)
qed

lemma timeout_poll_echo:
  assumes "poll_echo q ts d got (w, t) = Some (w', t')" and rep: "reports ''timeout'' w w'"
  shows "\<not> got \<and> d \<le> w_mono w \<and> int (unat (cc_max_misses (tk_cfg t))) \<le> sint (tk_missed t + 1)"
proof -
  obtain res r i where rc: "recv (tk_reader t) (tk_inbox t) = (res, r, i)" by (metis prod_cases3)
  let ?t = "t\<lparr>tk_reader := r, tk_inbox := i\<rparr>"
  have err: "\<not> reports ''timeout'' w (fst (session_end (classify_io_error e) (w, ?t)))" for e
    by (rule end_no_report) (rule classify_documented)
  have echo: "\<not> reports ''timeout'' w (fst (echo_received hb q ts d (w, ?t)))" for hb
    by (auto simp: echo_received_def Let_def reports_def no_disconnect)
  from assms(1) rc consider e where "session_end (classify_io_error e) (w, ?t) = (w', t')"
    | hb where "echo_received hb q ts d (w, ?t) = (w', t')"
    | "echo_timeout got (w, ?t) = (w', t')" "d \<le> w_mono w"
    by (auto simp: poll_echo_def split: poll.splits sum.splits if_splits)
  then show ?thesis
  proof cases
    case (1 e)
    with rep err show ?thesis by (metis fst_conv)
  next
    case (2 hb)
    with rep echo show ?thesis by (metis fst_conv)
  next
    case 3
    then have w': "w' = fst (echo_timeout got (w, ?t))" by (metis fst_conv)
    from rep show ?thesis
      unfolding w' by (auto simp: echo_timeout_def Let_def reports_def no_disconnect 3(2) split: if_splits)
  qed
qed

lemma timeout_reported:
  assumes "task_step (w, t) e = Some (w', t')" and rep: "reports ''timeout'' w w'"
  obtains q ts d where "tk_pc t = KEcho q ts d False" "d \<le> w_mono w"
    "int (unat (cc_max_misses (tk_cfg t))) \<le> sint (tk_missed t + 1)"
proof (cases "\<exists>q ts d g. e = TPoll \<and> tk_pc t = KEcho q ts d g")
  case True
  then obtain q ts d g where pc: "e = TPoll" "tk_pc t = KEcho q ts d g" by blast
  with assms timeout_poll_echo [of q ts d g w t w' t'] that show ?thesis
    by (simp add: task_step_def task_poll_def)
next
  case False
  have "\<not> reports ''timeout'' w w'"
  proof (cases e)
    case TPoll
    with assms(1) poll_no_report(1) [of w t] poll_no_report(2) [of w _ t] have "tk_pc t = KHandshake \<or> (\<exists>time. tk_pc t = KSend time) \<Longrightarrow> ?thesis"
      by (auto simp: task_step_def task_poll_def) (metis fst_conv)+
    moreover have "reports ''timeout'' w w' \<Longrightarrow> w_calls w' \<noteq> w_calls w" by (auto simp: reports_def)
    ultimately show ?thesis
      using TPoll False assms(1)
      by (cases "tk_pc t") (auto simp: task_step_def task_poll_def session_send_def reports_def no_disconnect
          split: if_splits)
  next
    case TCancelled
    with assms(1) end_no_report [of "''cancelled''" "''timeout''" w t] show ?thesis
      by (auto simp: task_step_def task_cancelled_def reports_def split: if_splits task_pc.splits)
  qed (use assms(1) in \<open>auto simp: task_step_def connect_failed_def task_backoff_def reports_def
      reason_label_def split: task_pc.splits\<close>)
  with rep show ?thesis by simp
qed

section \<open>A peer that never answers\<close>

text \<open>About to write a packet, with writes that succeed and less than one packet to read.\<close>

definition silent_peer :: "nat \<Rightarrow> task \<Rightarrow> bool" where
  "silent_peer n t \<longleftrightarrow>
     (\<exists>time. tk_pc t = KSend time) \<and> wfaults (tk_out t) = [] \<and> only_arrivals (tk_inbox t)
     \<and> reader_idle (tk_reader t) \<and> length (held (tk_reader t) @ inbox_bytes (tk_inbox t)) < PACKET_SIZE
     \<and> tk_missed t = of_nat n \<and> n < miss_limit t \<and> 0 < heartbeat_interval t"

text \<open>A packet is sent, one interval passes, the echo wait is given up.\<close>

definition missed_round :: "task \<Rightarrow> sys_time \<Rightarrow> task_event list" where
  "missed_round t time = [TPoll, TTick (heartbeat_interval t) time, TPoll]"

definition next_round :: "task \<Rightarrow> sys_time \<Rightarrow> task_event list" where
  "next_round t time = [TTick (heartbeat_interval t) time, TPoll]"

lemma missed_round_run:
  assumes "silent_peer n t"
  obtains w1 t1 where
    "run_steps task_step (w, t) (missed_round t time) = Some (echo_timeout False (w1, t1))"
    "w_mono w1 = w_mono w + heartbeat_interval t" "wfaults (tk_out t1) = []" "tk_inbox t1 = []"
    "reader_idle (tk_reader t1)" "length (held (tk_reader t1)) < PACKET_SIZE"
    "tk_missed t1 = tk_missed t" "tk_cfg t1 = tk_cfg t" "task_label t1 = task_label t"
proof -
  from assms obtain stamp where pc: "tk_pc t = KSend stamp" and faults: "wfaults (tk_out t) = []"
    and only: "only_arrivals (tk_inbox t)" and idle: "reader_idle (tk_reader t)"
    and len: "length (held (tk_reader t) @ inbox_bytes (tk_inbox t)) < PACKET_SIZE"
    by (auto simp: silent_peer_def)
  from recv_arrivals [OF only idle_inv [OF idle]] len
  obtain r where r: "recv (tk_reader t) (tk_inbox t) = (Pending, r, [])" "reader_idle r"
    "held r = held (tk_reader t) @ inbox_bytes (tk_inbox t)" by auto
  show ?thesis
    by (rule that [of "w_tick (heartbeat_interval t) time (w_emit [CounterInc client_heartbeats_sent (task_label t)] w)"
          "t\<lparr>tk_out := (tk_out t)\<lparr>sent := sent (tk_out t) @ encode_packet (tk_seq t) (now_f64 stamp)\<rparr>,
             tk_seq := tk_seq t + 1,
             tk_pc := KEcho (tk_seq t) (now_f64 stamp) (w_mono w + heartbeat_interval t) False,
             tk_reader := r, tk_inbox := []\<rparr>"])
      (use pc faults r len in \<open>simp_all add: missed_round_def task_step_def task_poll_def poll_send_def
          send_heartbeat_def Let_def poll_echo_def\<close>)
qed

text \<open>Below the limit the next packet is written one interval after the miss; at the limit the session ends.\<close>

lemma silent_continues:
  assumes silent: "silent_peer n t" and more: "Suc n < miss_limit t"
  shows "\<exists>w' t'. run_steps task_step (w, t) (missed_round t time @ next_round t time) = Some (w', t')
    \<and> silent_peer (Suc n) t' \<and> tk_cfg t' = tk_cfg t \<and> task_label t' = task_label t \<and> w_mono w' = w_mono w + 2 * heartbeat_interval t"
proof -
  from silent have n: "n < miss_limit t" "tk_missed t = of_nat n" "0 < heartbeat_interval t"
    by (simp_all add: silent_peer_def)
  from missed_round_run [OF silent, of w time] obtain w1 t1 where
    run: "run_steps task_step (w, t) (missed_round t time) = Some (echo_timeout False (w1, t1))"
    and f: "w_mono w1 = w_mono w + heartbeat_interval t" "wfaults (tk_out t1) = []" "tk_inbox t1 = []"
    "reader_idle (tk_reader t1)" "length (held (tk_reader t1)) < PACKET_SIZE"
    "tk_missed t1 = tk_missed t" "tk_cfg t1 = tk_cfg t" "task_label t1 = task_label t" .
  from f(7) have same: "miss_limit t1 = miss_limit t" "heartbeat_interval t1 = heartbeat_interval t"
    by (simp_all add: miss_limit_def heartbeat_interval_def)
  let ?w = "w_emit (miss_calls (task_label t1) (tk_missed t1 + 1)) w1"
  let ?t = "t1\<lparr>tk_missed := tk_missed t1 + 1, tk_next_send := w_mono w1 + heartbeat_interval t, tk_pc := KSleep\<rparr>"
  have "echo_timeout False (w1, t1) = (?w, ?t)"
    using more miss_limit_reached [OF n(1)] f(6,7) n same by (simp add: echo_timeout_def Let_def session_turn_def)
  moreover have "run_steps task_step (?w, ?t) (next_round t time) = Some (session_send (w_tick (heartbeat_interval t) time ?w, ?t))"
    by (simp add: next_round_def task_step_def task_poll_def)
  ultimately have "run_steps task_step (w, t) (missed_round t time @ next_round t time)
      = Some (session_send (w_tick (heartbeat_interval t) time ?w, ?t))"
    using run_steps_appendI [OF run, of "next_round t time"] by simp
  moreover have "silent_peer (Suc n) (snd (session_send (w_tick (heartbeat_interval t) time ?w, ?t)))"
    using f more n same by (simp add: session_send_def silent_peer_def miss_limit_def heartbeat_interval_def add.commute)
  ultimately show ?thesis using f by (simp add: session_send_def)
qed

definition ended_with :: "string \<Rightarrow> peer_label \<Rightarrow> task_state \<Rightarrow> bool" where
  "ended_with reason l s \<longleftrightarrow>
     (\<exists>until. tk_pc (snd s) = KBackoff until)
     \<and> (\<exists>cs. w_calls (fst s) =
          cs @ [DisconnectInc client_disconnects (reason_label (pl_node l) (pl_peer l) reason)])"

lemma silent_ends:
  assumes silent: "silent_peer n t" and last: "Suc n = miss_limit t"
  shows "\<exists>w' t'. run_steps task_step (w, t) (missed_round t time) = Some (w', t')
    \<and> ended_with ''timeout'' (task_label t) (w', t') \<and> w_mono w' = w_mono w + heartbeat_interval t"
proof -
  from silent have n: "n < miss_limit t" "tk_missed t = of_nat n" by (simp_all add: silent_peer_def)
  from missed_round_run [OF silent, of w time] obtain w1 t1 where
    run: "run_steps task_step (w, t) (missed_round t time) = Some (echo_timeout False (w1, t1))"
    and f: "w_mono w1 = w_mono w + heartbeat_interval t" "tk_missed t1 = tk_missed t" "tk_cfg t1 = tk_cfg t"
    "task_label t1 = task_label t" .
  with last miss_limit_reached [OF n(1)] n show ?thesis
    by (simp add: echo_timeout_def Let_def session_end_def task_backoff_def session_end_calls_def ended_with_def)
qed

definition silent_run :: "task \<Rightarrow> sys_time \<Rightarrow> nat \<Rightarrow> task_event list" where
  "silent_run t time k =
     concat (replicate k (missed_round t time @ next_round t time)) @ missed_round t time"

lemma silent_run_ends:
  assumes "silent_peer n t" and "Suc (n + k) = miss_limit t"
  shows "\<exists>w' t'. run_steps task_step (w, t) (silent_run t time k) = Some (w', t')
    \<and> ended_with ''timeout'' (task_label t) (w', t')
    \<and> w_mono w' = w_mono w + (2 * k + 1) * heartbeat_interval t"
  using assms
proof (induction k arbitrary: n w t)
  case 0
  with silent_ends [of n t w time] show ?case by (simp add: silent_run_def)
next
  case (Suc k)
  from silent_continues [OF Suc.prems(1), of w time] Suc.prems(2) obtain w1 t1 where
    run: "run_steps task_step (w, t) (missed_round t time @ next_round t time) = Some (w1, t1)"
    and f: "silent_peer (Suc n) t1" "tk_cfg t1 = tk_cfg t" "task_label t1 = task_label t"
      "w_mono w1 = w_mono w + 2 * heartbeat_interval t" by auto
  from f(2) have same: "miss_limit t1 = miss_limit t" "heartbeat_interval t1 = heartbeat_interval t"
    by (simp_all add: miss_limit_def heartbeat_interval_def)
  then have "silent_run t1 time k = silent_run t time k"
    by (simp add: silent_run_def missed_round_def next_round_def)
  moreover have "silent_run t time (Suc k) = (missed_round t time @ next_round t time) @ silent_run t time k"
    by (simp add: silent_run_def)
  moreover from Suc.IH [OF f(1), of w1] Suc.prems(2) same
  obtain w' t' where "run_steps task_step (w1, t1) (silent_run t1 time k) = Some (w', t')"
    "ended_with ''timeout'' (task_label t1) (w', t')"
    "w_mono w' = w_mono w1 + (2 * k + 1) * heartbeat_interval t1" by auto
  ultimately show ?case
    using run_steps_appendI [OF run, of "silent_run t time k"] f same
    by (auto simp: algebra_simps)
qed

section \<open>Runs\<close>

lemma run_same: "run_steps task_step (w, t) es = Some (w', t') \<Longrightarrow> same_task t t'"
proof (induction es arbitrary: w t)
  case Nil
  then show ?case by (simp add: same_task_def)
next
  case (Cons e es)
  then obtain w1 t1 where s: "task_step (w, t) e = Some (w1, t1)"
    and r: "run_steps task_step (w1, t1) es = Some (w', t')" by (auto split: option.splits)
  from task_step_same [OF s] Cons.IH [OF r] show ?case by (auto simp: same_task_def)
qed

lemma run_spawn_same:
  assumes "run_steps task_step (w, task_spawn peer cfg node) es = Some (w', t)"
  shows "tk_peer t = peer" "tk_cfg t = cfg" "tk_node t = node"
    "task_label t = \<lparr>pl_node = node, pl_peer = pc_name peer\<rparr>"
  using run_same [OF assms] by (simp_all add: same_task_def task_spawn_def task_label_def)

text \<open>The packets of a session carry the sequence numbers from 0 on.\<close>

lemma sents_numbered:
  "beats_ok bs \<Longrightarrow> map hb_seq (rev (sents bs)) = map of_nat [0..<length (sents bs)]"
proof (induction bs)
  case (Cons b bs)
  then show ?case by (cases b) auto
qed simp

text \<open>What a cancelled task does next.\<close>

lemma cancelled_now:
  assumes "tk_cancel t" and "in_session (tk_pc t) \<or> (\<exists>a. tk_pc t = KConnect a) \<or> (\<exists>d. tk_pc t = KBackoff d)"
  shows "\<exists>w' t' cs. task_step (w, t) TCancelled = Some (w', t') \<and> tk_pc t' = KDone \<and> w_calls w' = w_calls w @ cs
    \<and> (\<forall>f l. DisconnectInc f l \<notin> set cs)"
  using assms
  by (cases "tk_pc t") (auto simp: task_step_def task_cancelled_def session_end_def session_end_calls_def Let_def)

lemma handshake_cancellable:
  "\<exists>w' t' cs. poll_handshake (w, t) = (w', t') \<and> (in_session (tk_pc t') \<or> (\<exists>d. tk_pc t' = KBackoff d))
     \<and> tk_cancel t' = tk_cancel t \<and> w_calls w' = w_calls w @ cs \<and> (\<forall>f l. DisconnectInc f l \<notin> set cs)"
  by (auto simp: poll_handshake_def task_backoff_def session_start_def session_turn_def session_send_def Let_def
      no_disconnect split: prod.splits sum.splits)

lemma cancelled_ends:
  assumes "tk_cancel t"
  shows "\<exists>es w' t' cs. set es \<subseteq> {TPoll, TCancelled} \<and> length es \<le> 2
    \<and> run_steps task_step (w, t) es = Some (w', t') \<and> tk_pc t' = KDone
    \<and> w_calls w' = w_calls w @ cs \<and> (\<forall>f l. DisconnectInc f l \<notin> set cs)"
proof -
  have two: ?thesis
    if "task_step (w, t) TPoll = Some (w1, t1)" "tk_cancel t1" "w_calls w1 = w_calls w @ cs" "\<forall>f l. DisconnectInc f l \<notin> set cs"
      "in_session (tk_pc t1) \<or> (\<exists>a. tk_pc t1 = KConnect a) \<or> (\<exists>d. tk_pc t1 = KBackoff d)" for w1 t1 cs
  proof -
    from cancelled_now [OF that(2,5), of w1] obtain w' t' ds where "task_step (w1, t1) TCancelled = Some (w', t')"
      "tk_pc t' = KDone" "w_calls w' = w_calls w1 @ ds" "\<forall>f l. DisconnectInc f l \<notin> set ds" by blast
    with that show ?thesis
      by (intro exI [of _ "[TPoll, TCancelled]"] exI [of _ w'] exI [of _ t'] exI [of _ "cs @ ds"]) simp
  qed
  consider "tk_pc t = KDone" | "tk_pc t = KStart" | "tk_pc t = KHandshake"
    | "in_session (tk_pc t) \<or> (\<exists>a. tk_pc t = KConnect a) \<or> (\<exists>d. tk_pc t = KBackoff d)"
    by (cases "tk_pc t") auto
  then show ?thesis
  proof cases
    case 1
    then show ?thesis by (intro exI [of _ "[]"]) simp
  next
    case 2
    show ?thesis
      by (rule two [of "w_emit (init_calls (tk_node t) (pc_name (tk_peer t))) w" "task_connect t"
            "init_calls (tk_node t) (pc_name (tk_peer t))"])
        (use 2 assms in \<open>simp_all add: task_step_def task_poll_def task_connect_def no_disconnect\<close>)
  next
    case 3
    from handshake_cancellable [of w t] obtain w1 t1 cs where "poll_handshake (w, t) = (w1, t1)"
      "in_session (tk_pc t1) \<or> (\<exists>d. tk_pc t1 = KBackoff d)" "tk_cancel t1 = tk_cancel t"
      "w_calls w1 = w_calls w @ cs" "\<forall>f l. DisconnectInc f l \<notin> set cs" by blast
    with 3 assms show ?thesis by (intro two [of w1 t1 cs]) (auto simp: task_step_def task_poll_def)
  next
    case 4
    from cancelled_now [OF assms this, of w] obtain w' t' cs where "task_step (w, t) TCancelled = Some (w', t')"
      "tk_pc t' = KDone" "w_calls w' = w_calls w @ cs" "\<forall>f l. DisconnectInc f l \<notin> set cs" by blast
    then show ?thesis
      by (intro exI [of _ "[TCancelled]"] exI [of _ w'] exI [of _ t'] exI [of _ cs]) simp
  qed
qed

text \<open>A concrete task: it connects, writes its handshake and sends its first packet.\<close>

definition first_packet :: "task_event list" where
  "first_packet = [TPoll, TConnected [], TPoll, TPoll]"

definition example_task :: task where
  "example_task = task_spawn example_peer (example_client\<lparr>cc_max_misses := 1\<rparr>) [110, 49]"

lemmas task_run_simps =
  task_step_def task_poll_def task_connect_def connected_def poll_handshake_def send_handshake_fresh
  send_handshake_fresh [unfolded fresh_wstream_def] session_start_def session_turn_def session_send_def
  poll_send_def send_heartbeat_def write_all_def Let_def

lemma first_packet_sent:
  "\<exists>w t. run_steps task_step (fresh_world 0, example_task) first_packet = Some (w, t)
     \<and> tk_pc t = KEcho 0 (now_f64 0) 30000000000 False \<and> tk_missed t = 0 \<and> tk_inbox t = [] \<and> tk_reader t = reader_new
     \<and> tk_cfg t = example_client\<lparr>cc_max_misses := 1\<rparr> \<and> w_mono w = 0"
  by (simp add: first_packet_def example_task_def task_spawn_def task_run_simps heartbeat_interval_def
      example_client_def from_secs_def nanos_per_sec_def)

section \<open>Properties\<close>

text \<open>
  C4. The life of an outbound session task, for every behaviour of the network, the clock and the
  cancellation token. Its metric calls are the labels of the peer, then a sequence of episodes:
  failed connects, failed handshakes, and sessions whose calls follow the order of a session
  (rounds of one packet with sequence numbers from 0, echoes only while a round is open, a miss
  only for a round without an echo) and which ended with a documented reason, \<open>timeout\<close> exactly
  when the last \<open>max_misses\<close> rounds in a row were missed. An open session continues this with
  fewer misses in a row, has written exactly its handshake and its packets, and has read every
  byte that arrived as the echoes it recorded, up to a partial packet and the unread rest.
\<close>

theorem task_history:
  assumes "run_steps task_step (w, task_spawn peer cfg node) es = Some (w', t)" and "tk_pc t \<noteq> KStart"
  shows "\<exists>eps. list_all (episode_ok (miss_limit t)) eps \<and>
    (if in_session (tk_pc t) then
       \<exists>bs. beats_ok bs \<and> missed_run bs < miss_limit t
         \<and> w_calls w' = w_calls w @ history_calls t eps @ beats_calls (task_label t) (tk_start_ts t) bs
         \<and> sent (tk_out t) = wire_handshake node @ concat (map encode_heartbeat (rev (sents bs)))
         \<and> foldl task_arrived [] es =
             concat (map encode_heartbeat (rev (echoes bs))) @ held (tk_reader t) @ inbox_bytes (tk_inbox t)
     else w_calls w' = w_calls w @ history_calls t eps
       \<or> (tk_pc t = KDone \<and> (\<exists>start bs duration. beats_ok bs \<and> missed_run bs < miss_limit t
            \<and> w_calls w' = w_calls w @ history_calls t (eps @ [Session start bs duration ''cancelled'']))))"
  using task_run_inv [OF assms(1)] assms(2) run_spawn_same(3) [OF assms(1)]
  by (cases "tk_pc t") (fastforce simp: task_inv_def session_inv_def)+

theorem task_history_witness:
  "\<exists>w t eps bs. run_steps task_step (fresh_world 0, example_task) first_packet = Some (w, t)
     \<and> in_session (tk_pc t) \<and> list_all (episode_ok (miss_limit t)) eps \<and> beats_ok bs
     \<and> sent (tk_out t) = wire_handshake [110, 49] @ concat (map encode_heartbeat (rev (sents bs)))"
proof -
  from first_packet_sent obtain w t where r: "run_steps task_step (fresh_world 0, example_task) first_packet = Some (w, t)"
    and pc: "tk_pc t = KEcho 0 (now_f64 0) 30000000000 False" by blast
  with task_history [OF r [unfolded example_task_def]] show ?thesis by (auto simp: r)
qed

text \<open>
  The gauges of one task on its own: if the peer's gauge \<open>client_session_active\<close> did not show 1
  before the task started, it shows 1 exactly while the task has an open session, and
  \<open>client_consecutive_missed\<close> then shows the task's current run of misses.
\<close>

theorem task_gauges:
  assumes "run_steps task_step (w, task_spawn peer cfg node) es = Some (w', t)"
    and "l = \<lparr>pl_node = node, pl_peer = pc_name peer\<rparr>"
    and "gauge_value (w_metrics w) client_session_active l \<noteq> Some 1"
  shows "(in_session (tk_pc t) \<longleftrightarrow> gauge_value (w_metrics w') client_session_active l = Some 1)
    \<and> (in_session (tk_pc t) \<longrightarrow> gauge_value (w_metrics w') client_consecutive_missed l = Some (tk_missed t))"
proof (cases "in_session (tk_pc t)")
  case True
  note l = run_spawn_same(4) [OF assms(1)]
  from session_taskE [OF task_run_inv [OF assms(1)] True] obtain eps bs where
    "session_log (w_calls w) (w', t) eps bs" "session_inv (foldl task_arrived [] es) t bs" .
  then have "w_calls w' = (w_calls w @ history_calls t eps) @ beats_calls l (tk_start_ts t) bs"
    "tk_missed t = of_nat (missed_run bs)"
    by (simp_all add: session_log_def session_inv_def l assms(2))
  with True beats_gauges [OF this(1)] show ?thesis by simp
next
  case False
  have base: "read_calls (gauge_eff client_session_active (task_label t)) (w_calls w) \<noteq> Some 1"
    using assms(3) by (simp add: gauge_value_def run_spawn_same(4) [OF assms(1)] assms(2))
  have "w_calls w' = w_calls w \<or> (\<exists>eps. w_calls w' = w_calls w @ history_calls t eps)"
    using task_run_inv [OF assms(1)] False by (cases "tk_pc t") (auto simp: task_inv_def simp del: history_calls_snoc)
  with base history_gauge [OF base] have "gauge_value (w_metrics w') client_session_active (task_label t) \<noteq> Some 1"
    by (auto simp: gauge_value_def)
  with False show ?thesis by (simp add: run_spawn_same(4) [OF assms(1)] assms(2))
qed

theorem task_gauges_witness:
  "\<exists>w t. run_steps task_step (fresh_world 0, example_task) first_packet = Some (w, t)
     \<and> gauge_value (w_metrics w) client_session_active \<lparr>pl_node = [110, 49], pl_peer = pc_name example_peer\<rparr> = Some 1"
proof -
  from first_packet_sent obtain w t where r: "run_steps task_step (fresh_world 0, example_task) first_packet = Some (w, t)"
    and pc: "tk_pc t = KEcho 0 (now_f64 0) 30000000000 False" by blast
  have "gauge_value (w_metrics (fresh_world 0)) client_session_active
      \<lparr>pl_node = [110, 49], pl_peer = pc_name example_peer\<rparr> \<noteq> Some 1"
    by (simp add: gauge_value_def read_calls_def)
  with task_gauges [OF r [unfolded example_task_def] refl] r pc show ?thesis by simp
qed

text \<open>
  C6. A session is never reported as timed out too early: when a step records a disconnect with
  reason \<open>timeout\<close>, at least \<open>2 * max_misses - 1\<close> heartbeat intervals have passed since the task
  connected (one interval of waiting per missed echo, and one before each further packet).
\<close>

theorem timeout_not_early:
  assumes "run_steps task_step (w, task_spawn peer cfg node) es = Some (w1, t1)"
    and "task_step (w1, t1) e = Some (w2, t2)" and "reports ''timeout'' w1 w2"
  shows "snd (foldl task_clock (w_mono w, w_mono w) es)
      + (2 * max 1 (unat (cc_max_misses cfg)) - 1) * from_secs (cc_heartbeat_interval cfg) \<le> w_mono w1"
proof -
  obtain now since where g: "foldl task_clock (w_mono w, w_mono w) es = (now, since)" by fastforce
  from timeout_reported [OF assms(2,3)] obtain q ts d where pc: "tk_pc t1 = KEcho q ts d False"
    and d: "d \<le> w_mono w1" and lim: "int (unat (cc_max_misses (tk_cfg t1))) \<le> sint (tk_missed t1 + 1)" .
  from sched_run [OF assms(1)] g pc have n: "unat (tk_missed t1) < miss_limit t1"
    and due: "since + (2 * unat (tk_missed t1) + 1) * heartbeat_interval t1 \<le> d"
    by (simp_all add: sched_inv_def Let_def)
  have "Suc (unat (tk_missed t1)) = miss_limit t1" using miss_limit_reached [OF n] lim by simp
  then have "2 * unat (tk_missed t1) + 1 = 2 * miss_limit t1 - 1" by linarith
  with due have "since + (2 * miss_limit t1 - 1) * heartbeat_interval t1 \<le> d" by (simp only:)
  from this d have "since + (2 * miss_limit t1 - 1) * heartbeat_interval t1 \<le> w_mono w1" by (rule le_trans)
  then show ?thesis
    unfolding miss_limit_def heartbeat_interval_def g snd_conv run_spawn_same(2) [OF assms(1)] .
qed

theorem timeout_not_early_witness:
  "\<exists>w1 t1 w2 t2. run_steps task_step (fresh_world 0, example_task) (first_packet @ [TTick 30000000000 0]) = Some (w1, t1)
     \<and> task_step (w1, t1) TPoll = Some (w2, t2) \<and> reports ''timeout'' w1 w2
     \<and> (2 * max 1 (unat (1 :: u32)) - 1) * from_secs 30 \<le> w_mono w1"
proof -
  from first_packet_sent obtain w t where r: "run_steps task_step (fresh_world 0, example_task) first_packet = Some (w, t)"
    and t: "tk_pc t = KEcho 0 (now_f64 0) 30000000000 False" "tk_missed t = 0" "tk_inbox t = []" "tk_reader t = reader_new"
      "tk_cfg t = example_client\<lparr>cc_max_misses := 1\<rparr>" "w_mono w = 0" by blast
  let ?w1 = "w_tick 30000000000 0 w"
  have r1: "run_steps task_step (fresh_world 0, example_task) (first_packet @ [TTick 30000000000 0]) = Some (?w1, t)"
    using run_steps_appendI [OF r, of "[TTick 30000000000 0]"] by (simp add: task_step_def)
  have s: "task_step (?w1, t) TPoll = Some (echo_timeout False (?w1, t))"
    using t by (cases t) (simp add: recv.simps reader_new_def PACKET_SIZE_def task_step_def task_poll_def poll_echo_def)
  moreover have "reports ''timeout'' ?w1 (fst (echo_timeout False (?w1, t)))"
    using t by (simp add: echo_timeout_def Let_def reports_def end_calls session_end_calls_def reason_label_def)
      (metis disconnect_label.select_convs(3))
  moreover obtain w2 t2 where "echo_timeout False (?w1, t) = (w2, t2)" by (metis prod.exhaust)
  ultimately show ?thesis
    using timeout_not_early [OF r1 [unfolded example_task_def], of TPoll w2 t2] r1
    by (simp add: first_packet_def task_clock_def example_client_def)
qed

text \<open>
  C7. A peer that stops answering is detected: with working writes and less than one packet to
  read, a task that is about to send with no misses so far ends its session with reason
  \<open>timeout\<close> after exactly \<open>2 * max_misses - 1\<close> intervals, one poll at a time.
\<close>

theorem silent_peer_detected:
  assumes "silent_peer 0 t"
  shows "\<exists>w' t'. run_steps task_step (w, t) (silent_run t time (miss_limit t - 1)) = Some (w', t')
    \<and> ended_with ''timeout'' (task_label t) (w', t')
    \<and> w_mono w' = w_mono w + (2 * miss_limit t - 1) * heartbeat_interval t"
proof -
  have "1 \<le> miss_limit t" by (simp add: miss_limit_def)
  then have n: "Suc (0 + (miss_limit t - 1)) = miss_limit t" "2 * (miss_limit t - 1) + 1 = 2 * miss_limit t - 1"
    by simp_all
  show ?thesis using silent_run_ends [OF assms n(1), of w time] unfolding n(2) .
qed

theorem silent_peer_detected_witness:
  "\<exists>w' t'. run_steps task_step (fresh_world 0, example_task\<lparr>tk_cfg := example_client, tk_pc := KSend 0\<rparr>)
       (silent_run example_task 0 2) = Some (w', t')
     \<and> ended_with ''timeout'' (task_label example_task) (w', t') \<and> w_mono w' = 5 * from_secs 30"
proof -
  let ?t = "example_task\<lparr>tk_cfg := example_client, tk_pc := KSend 0\<rparr>"
  have "silent_peer 0 ?t"
    by (simp add: silent_peer_def example_task_def task_spawn_def fresh_wstream_def reader_new_def reader_idle_def held_def
        PACKET_SIZE_def miss_limit_def heartbeat_interval_def example_client_def from_secs_def nanos_per_sec_def)
  moreover have "miss_limit ?t = 3" "heartbeat_interval ?t = from_secs 30" "silent_run ?t 0 2 = silent_run example_task 0 2"
    "task_label ?t = task_label example_task"
    by (simp_all add: miss_limit_def heartbeat_interval_def example_client_def silent_run_def missed_round_def
        next_round_def example_task_def task_spawn_def task_label_def)
  ultimately show ?thesis using silent_peer_detected [of ?t "fresh_world 0" 0] by simp
qed

text \<open>
  C33. Accounting: for a task that starts with empty metrics and has not been stopped, the number of
  sessions it established is the number of disconnects it recorded with a reason other than
  \<open>connect_failed\<close>, plus one while a session is open. No session is lost and none counted twice.
\<close>

theorem session_accounting:
  assumes "run_steps task_step (w, task_spawn peer cfg node) es = Some (w', t)"
    and "w_calls w = []" and "tk_pc t \<noteq> KDone"
  shows "count_list (w_calls w') (CounterInc client_sessions_total (task_label t))
    = ended_total (w_calls w') (task_label t) + (if in_session (tk_pc t) then 1 else 0)"
proof (cases "tk_pc t = KStart")
  case True
  with task_run_inv [OF assms(1)] assms(2) show ?thesis by (simp add: task_inv_def ended_total_def)
next
  case False
  note inv = task_run_inv [OF assms(1)]
  show ?thesis
  proof (cases "in_session (tk_pc t)")
    case True
    from session_taskE [OF inv this] obtain eps bs where "session_log (w_calls w) (w', t) eps bs" .
    then have ok: "list_all (episode_ok (miss_limit t)) eps"
      and "w_calls w' = history_calls t eps @ beats_calls (task_label t) (tk_start_ts t) bs"
      by (simp_all add: session_log_def assms(2))
    moreover have "ended_total (beats_calls (task_label t) (tk_start_ts t) bs) (task_label t) = 0"
      by (simp add: ended_total_def count_beats)
    ultimately show ?thesis
      using True ended_history [OF ok, of t] by (simp add: ended_total_append count_beats)
  next
    case False
    with inv \<open>tk_pc t \<noteq> KStart\<close> assms(2,3) obtain eps where ok: "list_all (episode_ok (miss_limit t)) eps"
      and "w_calls w' = history_calls t eps" by (simp add: task_inv_def) blast
    with False ended_history [OF ok, of t] show ?thesis by simp
  qed
qed

theorem session_accounting_witness:
  "\<exists>w t. run_steps task_step (fresh_world 0, example_task) first_packet = Some (w, t)
     \<and> count_list (w_calls w) (CounterInc client_sessions_total (task_label t)) = ended_total (w_calls w) (task_label t) + 1"
proof -
  from first_packet_sent obtain w t where r: "run_steps task_step (fresh_world 0, example_task) first_packet = Some (w, t)"
    and pc: "tk_pc t = KEcho 0 (now_f64 0) 30000000000 False" by blast
  with session_accounting [OF r [unfolded example_task_def]] show ?thesis by simp
qed

text \<open>A round of a task whose handshake cannot be written: connect, write, wait, connect again.\<close>

definition failed_handshake :: "instant \<Rightarrow> sys_time \<Rightarrow> (nat \<times> io_kind) option list \<Rightarrow> task_event list" where
  "failed_handshake delay time faults = [TConnected faults, TPoll, TTick delay time, TPoll]"

lemma failed_handshake_waits:
  assumes "tk_pc t = KConnect a" and "send_handshake (tk_node t) \<lparr>sent = [], wfaults = faults\<rparr> = (Inl e, out)"
  shows "run_steps task_step (w, t) [TConnected faults, TPoll, TTick d time] = Some (w_tick d time w,
      t\<lparr>tk_pc := KBackoff (w_mono w + from_secs (cc_reconnect_delay (tk_cfg t))), tk_inbox := [], tk_out := out\<rparr>)"
  using assms by (simp add: task_step_def task_poll_def connected_def poll_handshake_def task_backoff_def)

text \<open>
  C37. A handshake that cannot be written goes unrecorded. A task whose handshakes fail, any number
  of times and however each write fails, waits exactly the reconnect delay after each failure and
  connects again, and in all that time no metric changes: \<open>run_session\<close> returns before it has touched
  one, so not even a disconnect is counted.
\<close>

theorem handshake_failure_uncounted:
  assumes "tk_pc t = KConnect (connect_addr (tk_peer t))" and "delay = from_secs (cc_reconnect_delay (tk_cfg t))"
    and "\<forall>faults \<in> set fss. \<exists>e out. send_handshake (tk_node t) \<lparr>sent = [], wfaults = faults\<rparr> = (Inl e, out)"
  shows "(\<exists>w' t'. run_steps task_step (w, t) (concat (map (failed_handshake delay time) fss)) = Some (w', t')
      \<and> tk_pc t' = KConnect (connect_addr (tk_peer t)) \<and> w_metrics w' = w_metrics w
      \<and> w_mono w' = w_mono w + length fss * delay)
    \<and> (\<forall>faults \<in> set fss. \<forall>d < delay. \<exists>w' t'.
        run_steps task_step (w, t) [TConnected faults, TPoll, TTick d time] = Some (w', t') \<and> task_step (w', t') TPoll = None)"
proof
  show "\<exists>w' t'. run_steps task_step (w, t) (concat (map (failed_handshake delay time) fss)) = Some (w', t')
      \<and> tk_pc t' = KConnect (connect_addr (tk_peer t)) \<and> w_metrics w' = w_metrics w
      \<and> w_mono w' = w_mono w + length fss * delay"
    using assms
  proof (induction fss arbitrary: w t)
    case (Cons faults fss)
    then obtain e out where f: "send_handshake (tk_node t) \<lparr>sent = [], wfaults = faults\<rparr> = (Inl e, out)" by auto
    let ?t = "t\<lparr>tk_pc := KConnect (connect_addr (tk_peer t)), tk_inbox := [], tk_out := out\<rparr>"
    from run_steps_appendI [OF failed_handshake_waits [OF Cons.prems(1) f], of w delay time "[TPoll]"] Cons.prems(2)
    have "run_steps task_step (w, t) (failed_handshake delay time faults) = Some (w_tick delay time w, ?t)"
      by (simp add: failed_handshake_def task_step_def task_poll_def task_connect_def w_tick_def)
    from run_steps_appendI [OF this] Cons.IH [of ?t "w_tick delay time w"] Cons.prems show ?case
      by (auto simp: w_tick_def)
  qed simp
  show "\<forall>faults \<in> set fss. \<forall>d < delay. \<exists>w' t'.
      run_steps task_step (w, t) [TConnected faults, TPoll, TTick d time] = Some (w', t') \<and> task_step (w', t') TPoll = None"
  proof (intro ballI allI impI)
    fix faults d
    assume "faults \<in> set fss" "d < delay"
    with assms(3) obtain e out where "send_handshake (tk_node t) \<lparr>sent = [], wfaults = faults\<rparr> = (Inl e, out)" by blast
    note wait = failed_handshake_waits [OF assms(1) this, of w d time]
    have "task_step (w_tick d time w, t\<lparr>tk_pc := KBackoff (w_mono w + from_secs (cc_reconnect_delay (tk_cfg t))),
        tk_inbox := [], tk_out := out\<rparr>) TPoll = None"
      using \<open>d < delay\<close> assms(2) by (simp add: task_step_def task_poll_def w_tick_def)
    with wait show "\<exists>w' t'. run_steps task_step (w, t) [TConnected faults, TPoll, TTick d time] = Some (w', t')
        \<and> task_step (w', t') TPoll = None" by blast
  qed
qed

theorem handshake_failure_uncounted_witness:
  "\<exists>w' t'. run_steps task_step (fresh_world 0, task_connect example_task)
       [TConnected [Some (0, BrokenPipe)], TPoll, TTick 10000000000 5, TPoll,
        TConnected [Some (3, ConnectionReset)], TPoll, TTick 10000000000 5, TPoll] = Some (w', t')
     \<and> tk_pc t' = KConnect (connect_addr example_peer) \<and> w_calls w' = [] \<and> w_mono w' = 20000000000"
proof -
  have "\<forall>faults \<in> set [[Some (0, BrokenPipe)], [Some (3, ConnectionReset)]]. \<exists>e out.
      send_handshake (tk_node (task_connect example_task)) \<lparr>sent = [], wfaults = faults\<rparr> = (Inl e, out)"
    by (simp add: send_handshake_eq write_all_def)
  from handshake_failure_uncounted [OF _ refl this, of "fresh_world 0" 5] show ?thesis
    by (auto simp: failed_handshake_def task_connect_def example_task_def task_spawn_def example_client_def from_secs_def
        nanos_per_sec_def fresh_world_def)
qed

lemma poll_received:
  assumes "tk_pc t = KEcho q ts d got" and "recv (tk_reader t) (tk_inbox t) = (Ready (Inr hb), r, i)"
  shows "task_step (w, t) TPoll = Some (echo_received hb q ts d (w, t\<lparr>tk_reader := r, tk_inbox := i\<rparr>))"
  using assms by (simp add: task_step_def task_poll_def poll_echo_def)

text \<open>
  C35. Late echoes do not spoil the measurement. When the bytes that have reached a task in its echo
  wait hold echoes of earlier packets and then the echo of the last one, in any segmentation and
  with any part of them already in the reader, one poll per echo drains the late ones, each of
  them counted as received but without a round-trip time, and then measures the round-trip time
  against the send time of the last packet; the round ends without a miss.
\<close>

theorem late_echoes_drained:
  assumes "tk_pc t = KEcho q ts d got" and "reader_idle (tk_reader t)" and "only_arrivals (tk_inbox t)"
    and "held (tk_reader t) @ inbox_bytes (tk_inbox t) = concat (map encode_heartbeat (late @ [hb])) @ rest"
    and "hb_seq hb = q" and "\<forall>e \<in> set late. hb_seq e \<noteq> q"
  shows "\<exists>w' t'. run_steps task_step (w, t) (replicate (Suc (length late)) TPoll) = Some (w', t')
    \<and> (tk_pc t' = KSleep \<or> (\<exists>time. tk_pc t' = KSend time)) \<and> tk_missed t' = 0
    \<and> w_calls w' = w_calls w
         @ concat (replicate (length late) (record_echo (task_label t) (tk_start_ts t) (w_now w) None))
         @ record_echo (task_label t) (tk_start_ts t) (w_now w) (Some ts)
    \<and> held (tk_reader t') @ inbox_bytes (tk_inbox t') = rest"
  using assms
proof (induction late arbitrary: w t got)
  case Nil
  from packet_first [OF Nil.prems(3) idle_inv [OF Nil.prems(2)], of hb "[]" rest] Nil.prems(4) obtain r i where
    r: "recv (tk_reader t) (tk_inbox t) = (Ready (Inr hb), r, i)" "held r = []" "inbox_bytes i = rest" by auto
  from poll_received [OF Nil.prems(1) r(1), of w] Nil.prems(5) r(2,3) show ?case
    by (auto simp: echo_received_def Let_def session_turn_def session_send_def)
next
  case (Cons e late)
  from packet_first [OF Cons.prems(3) idle_inv [OF Cons.prems(2)], of e "late @ [hb]" rest] Cons.prems(4) obtain r i where
    r: "recv (tk_reader t) (tk_inbox t) = (Ready (Inr e), r, i)" "reader_idle r" "only_arrivals i" "held r = []"
      "inbox_bytes i = concat (map encode_heartbeat (late @ [hb])) @ rest" by auto
  let ?w = "w_emit (record_echo (task_label t) (tk_start_ts t) (w_now w) None) w"
  let ?t = "t\<lparr>tk_reader := r, tk_inbox := i, tk_missed := 0, tk_pc := KEcho q ts d True\<rparr>"
  from poll_received [OF Cons.prems(1) r(1), of w] Cons.prems(6) have one: "task_step (w, t) TPoll = Some (?w, ?t)"
    by (simp add: echo_received_def Let_def)
  from Cons.IH [of ?t True ?w] r Cons.prems(5,6) obtain w' t' where
    "run_steps task_step (?w, ?t) (replicate (Suc (length late)) TPoll) = Some (w', t')"
    "tk_pc t' = KSleep \<or> (\<exists>time. tk_pc t' = KSend time)" "tk_missed t' = 0"
    "w_calls w' = w_calls ?w @ concat (replicate (length late) (record_echo (task_label t) (tk_start_ts t) (w_now w) None))
         @ record_echo (task_label t) (tk_start_ts t) (w_now w) (Some ts)"
    "held (tk_reader t') @ inbox_bytes (tk_inbox t') = rest"
    by (auto simp: w_now_def)
  with one show ?case by auto
qed

theorem late_echoes_drained_witness:
  "\<exists>w' t'. run_steps task_step
       (fresh_world 0, example_task\<lparr>tk_pc := KEcho 1 (from_bits 6) 0 False,
          tk_inbox := [Arrive (encode_packet 0 (from_bits 5) @ [0, 0, 0, 0]), Arrive (drop 4 (encode_packet 1 (from_bits 6)))]\<rparr>)
       [TPoll, TPoll] = Some (w', t')
     \<and> CounterInc client_heartbeats_rx (task_label example_task) \<in> set (w_calls w')
     \<and> (\<exists>rtt. FloatSet client_rtt (task_label example_task) rtt \<in> set (w_calls w'))"
proof -
  let ?t = "example_task\<lparr>tk_pc := KEcho 1 (from_bits 6) 0 False,
    tk_inbox := [Arrive (encode_packet 0 (from_bits 5) @ [0, 0, 0, 0]), Arrive (drop 4 (encode_packet 1 (from_bits 6)))]\<rparr>"
  have "take 4 (encode_packet 1 (from_bits 6)) = [0, 0, 0, 0]" by code_simp
  then have "[0, 0, 0, 0] @ drop 4 (encode_packet 1 (from_bits 6)) = encode_packet 1 (from_bits 6)"
    using append_take_drop_id [of 4 "encode_packet 1 (from_bits 6)"] by simp
  then have "tk_pc ?t = KEcho 1 (from_bits 6) 0 False" "reader_idle (tk_reader ?t)" "only_arrivals (tk_inbox ?t)"
    "held (tk_reader ?t) @ inbox_bytes (tk_inbox ?t) = concat (map encode_heartbeat
       ([\<lparr>hb_seq = 0, hb_timestamp = from_bits 5\<rparr>] @ [\<lparr>hb_seq = 1, hb_timestamp = from_bits 6\<rparr>])) @ []"
    by (simp_all add: example_task_def task_spawn_def encode_heartbeat_def)
  from late_echoes_drained [OF this, of "fresh_world 0"] show ?thesis
    by (auto simp: record_echo_def task_label_def)
qed

end
