(* ===== verification/Manager.thy ===== *)
theory Manager
  imports Client "HOL-Library.AList"
begin

text \<open>
  \<open>run_manager\<close> of \<open>src/client.rs\<close>: the loop that keeps one session task per configured peer.
  The state holds the task machines themselves, so that they go on while the manager waits
  for one of them to stop. The watch channel is its current value, whether that is new to
  the manager, and whether a sender is left. The iteration order of the hash map is left to
  the environment: it picks the next task to stop.
\<close>

section \<open>State\<close>

record peer_task =
  pt_peer :: peer_config
  pt_handle :: nat
  pt_task :: task

text \<open>
  \<open>MRemove\<close> carries the configuration of the round and the names still to be stopped,
  \<open>MDrain\<close> and \<open>MShutdown\<close> stop the tasks in \<open>mg_leaving\<close>. The task whose end is awaited is
  \<open>mg_await\<close>.
\<close>

datatype manager_pc =
    MHead
  | MRemove config client_config "rstr list"
  | MDrain
  | MWait
  | MShutdown
  | MDone

datatype client_warning = IntervalChanged | MaxMissesChanged | ReconnectDelayChanged

record manager =
  mg_config :: config
  mg_changed :: bool
  mg_sender :: bool
  mg_cancelled :: bool
  mg_tasks :: "(rstr \<times> peer_task) list"
  mg_leaving :: "(rstr \<times> peer_task) list"
  mg_await :: "peer_task option"
  mg_last :: "client_config option"
  mg_next :: nat
  mg_pc :: manager_pc
  mg_warnings :: "client_warning list"

datatype manager_event =
    MgTick nat sys_time
  | MgTask nat task_event
  | MgConfig config
  | MgSenderGone
  | MgCancel
  | MgPoll
  | MgStop rstr
  | MgCancelled

type_synonym manager_state = "world \<times> manager"

definition manager_start :: "config \<Rightarrow> manager" where
  "manager_start cfg =
     \<lparr>mg_config = cfg, mg_changed = False, mg_sender = True, mg_cancelled = False, mg_tasks = [],
      mg_leaving = [], mg_await = None, mg_last = None, mg_next = 0, mg_pc = MHead, mg_warnings = []\<rparr>"

section \<open>One round\<close>

definition client_warnings :: "client_config option \<Rightarrow> client_config \<Rightarrow> client_warning list" where
  "client_warnings old new =
     (case old of
        None \<Rightarrow> []
      | Some o' \<Rightarrow>
          if o' = new then []
          else (if cc_heartbeat_interval o' \<noteq> cc_heartbeat_interval new then [IntervalChanged] else [])
             @ (if cc_max_misses o' \<noteq> cc_max_misses new then [MaxMissesChanged] else [])
             @ (if cc_reconnect_delay o' \<noteq> cc_reconnect_delay new then [ReconnectDelayChanged] else []))"

text \<open>Collecting the peers into a map keyed by name: a later entry replaces an earlier one.\<close>

definition new_peers :: "peer_config list \<Rightarrow> (rstr \<times> peer_config) list" where
  "new_peers ps = foldl (\<lambda>m p. AList.update (pc_name p) p m) [] ps"

definition to_remove :: "(rstr \<times> peer_config) list \<Rightarrow> (rstr \<times> peer_task) list \<Rightarrow> rstr list" where
  "to_remove peers tasks =
     map fst (filter (\<lambda>(name, task). map_of peers name \<noteq> Some (pt_peer task)) tasks)"

fun spawn_missing ::
    "client_config \<Rightarrow> rstr \<Rightarrow> (rstr \<times> peer_config) list \<Rightarrow> manager \<Rightarrow> manager" where
  "spawn_missing client_cfg node_name [] m = m"
| "spawn_missing client_cfg node_name ((name, peer) # rest) m =
     spawn_missing client_cfg node_name rest
       (if name \<in> fst ` set (mg_tasks m) then m
        else m\<lparr>mg_tasks := mg_tasks m @
                 [(name, \<lparr>pt_peer = peer, pt_handle = mg_next m,
                          pt_task = task_spawn peer client_cfg node_name\<rparr>)],
               mg_next := mg_next m + 1\<rparr>)"

definition manager_head :: "manager \<Rightarrow> manager" where
  "manager_head m =
     (let cfg = mg_config m; m = m\<lparr>mg_changed := False\<rparr>
      in case cfg_client cfg of
           None \<Rightarrow> m\<lparr>mg_leaving := mg_tasks m, mg_tasks := [], mg_pc := MDrain\<rparr>
         | Some client_cfg \<Rightarrow>
             m\<lparr>mg_warnings := mg_warnings m @ client_warnings (mg_last m) client_cfg,
               mg_last := Some client_cfg,
               mg_pc := MRemove cfg client_cfg (to_remove (new_peers (cfg_peers cfg)) (mg_tasks m))\<rparr>)"

text \<open>\<open>PeerTask::stop\<close>: the token is set, then the manager waits for the task to end.\<close>

definition stop_task :: "peer_task \<Rightarrow> peer_task" where
  "stop_task p = p\<lparr>pt_task := (pt_task p)\<lparr>tk_cancel := True\<rparr>\<rparr>"

definition manager_stop :: "rstr \<Rightarrow> manager \<Rightarrow> manager option" where
  "manager_stop name m =
     (if mg_await m \<noteq> None then None
      else case mg_pc m of
             MRemove cfg client_cfg names \<Rightarrow>
               if name \<in> set names then
                 (let m' = m\<lparr>mg_pc := MRemove cfg client_cfg (remove1 name names)\<rparr>
                  in case map_of (mg_tasks m) name of
                       None \<Rightarrow> Some m'
                     | Some p \<Rightarrow> Some (m'\<lparr>mg_tasks := AList.delete name (mg_tasks m), mg_await := Some (stop_task p)\<rparr>))
               else None
           | MWait \<Rightarrow> None
           | MHead \<Rightarrow> None
           | MDone \<Rightarrow> None
           | _ \<Rightarrow>
               (case map_of (mg_leaving m) name of
                  None \<Rightarrow> None
                | Some p \<Rightarrow> Some (m\<lparr>mg_leaving := AList.delete name (mg_leaving m), mg_await := Some (stop_task p)\<rparr>)))"

definition manager_shutdown :: "manager \<Rightarrow> manager" where
  "manager_shutdown m = m\<lparr>mg_leaving := mg_tasks m, mg_tasks := [], mg_pc := MShutdown\<rparr>"

definition manager_poll :: "manager \<Rightarrow> manager option" where
  "manager_poll m =
     (case mg_await m of
        Some p \<Rightarrow> if tk_pc (pt_task p) = KDone then Some (m\<lparr>mg_await := None\<rparr>) else None
      | None \<Rightarrow>
          (case mg_pc m of
             MHead \<Rightarrow> Some (manager_head m)
           | MRemove cfg client_cfg names \<Rightarrow>
               if names = []
               then Some ((spawn_missing client_cfg (nc_name (cfg_node cfg)) (new_peers (cfg_peers cfg)) m)
                            \<lparr>mg_pc := MWait\<rparr>)
               else None
           | MDrain \<Rightarrow> if mg_leaving m = [] then Some (m\<lparr>mg_last := None, mg_pc := MWait\<rparr>) else None
           | MWait \<Rightarrow>
               if mg_changed m then Some (m\<lparr>mg_pc := MHead\<rparr>)
               else if \<not> mg_sender m then Some (manager_shutdown m) else None
           | MShutdown \<Rightarrow> if mg_leaving m = [] then Some (m\<lparr>mg_pc := MDone\<rparr>) else None
           | MDone \<Rightarrow> None))"

text \<open>A step of the task with a handle, wherever the manager keeps it.\<close>

definition all_tasks :: "manager \<Rightarrow> peer_task list" where
  "all_tasks m =
     map snd (mg_tasks m) @ map snd (mg_leaving m) @ (case mg_await m of None \<Rightarrow> [] | Some p \<Rightarrow> [p])"

definition set_task :: "nat \<Rightarrow> task \<Rightarrow> peer_task \<Rightarrow> peer_task" where
  "set_task h t p = (if pt_handle p = h then p\<lparr>pt_task := t\<rparr> else p)"

definition update_task :: "nat \<Rightarrow> task \<Rightarrow> manager \<Rightarrow> manager" where
  "update_task h t m =
     m\<lparr>mg_tasks := map (\<lambda>(name, p). (name, set_task h t p)) (mg_tasks m),
       mg_leaving := map (\<lambda>(name, p). (name, set_task h t p)) (mg_leaving m),
       mg_await := map_option (set_task h t) (mg_await m)\<rparr>"

definition manager_task :: "nat \<Rightarrow> task_event \<Rightarrow> manager_state \<Rightarrow> manager_state option" where
  "manager_task h e s =
     (case s of (w, m) \<Rightarrow>
        (case find (\<lambda>p. pt_handle p = h) (all_tasks m) of
           None \<Rightarrow> None
         | Some p \<Rightarrow>
             (case task_step (w, pt_task p) e of
                None \<Rightarrow> None
              | Some (w', t') \<Rightarrow> Some (w', update_task h t' m))))"

definition manager_step :: "manager_state \<Rightarrow> manager_event \<Rightarrow> manager_state option" where
  "manager_step s e =
     (case s of (w, m) \<Rightarrow>
        (case e of
           MgTick d time \<Rightarrow> Some (w_tick d time w, m)
         | MgTask h te \<Rightarrow>
             (case te of TTick _ _ \<Rightarrow> None | TCancel \<Rightarrow> None | _ \<Rightarrow> manager_task h te (w, m))
         | MgConfig cfg \<Rightarrow>
             if mg_sender m then Some (w, m\<lparr>mg_config := cfg, mg_changed := True\<rparr>) else None
         | MgSenderGone \<Rightarrow> Some (w, m\<lparr>mg_sender := False\<rparr>)
         | MgCancel \<Rightarrow> Some (w, m\<lparr>mg_cancelled := True\<rparr>)
         | MgPoll \<Rightarrow> map_option (Pair w) (manager_poll m)
         | MgStop name \<Rightarrow> map_option (Pair w) (manager_stop name m)
         | MgCancelled \<Rightarrow>
             if mg_cancelled m \<and> mg_pc m = MWait then Some (w, manager_shutdown m) else None))"

section \<open>Invariant\<close>

definition task_name :: "peer_task \<Rightarrow> rstr" where
  "task_name p = pc_name (pt_peer p)"

text \<open>A task stands under the name of its peer.\<close>

definition keyed :: "(rstr \<times> peer_task) list \<Rightarrow> bool" where
  "keyed xs \<longleftrightarrow> (\<forall>x \<in> set xs. fst x = task_name (snd x))"

text \<open>The tasks are those the configuration asks for.\<close>

definition in_sync :: "config \<Rightarrow> (rstr \<times> peer_task) list \<Rightarrow> bool" where
  "in_sync cfg tasks \<longleftrightarrow>
     (case cfg_client cfg of
        None \<Rightarrow> tasks = []
      | Some _ \<Rightarrow> \<forall>n. map_option pt_peer (map_of tasks n) = map_of (new_peers (cfg_peers cfg)) n)"

definition pc_inv :: "manager \<Rightarrow> bool" where
  "pc_inv m =
     (case mg_pc m of
        MHead \<Rightarrow> mg_leaving m = [] \<and> mg_await m = None
      | MRemove cfg client_cfg names \<Rightarrow>
          mg_leaving m = [] \<and> cfg_client cfg = Some client_cfg \<and> distinct names
          \<and> (\<not> mg_changed m \<longrightarrow> cfg = mg_config m)
          \<and> (\<forall>n p. map_of (mg_tasks m) n = Some p \<longrightarrow>
               (n \<in> set names \<longleftrightarrow> map_of (new_peers (cfg_peers cfg)) n \<noteq> Some (pt_peer p)))
      | MDrain \<Rightarrow> mg_tasks m = [] \<and> (\<not> mg_changed m \<longrightarrow> cfg_client (mg_config m) = None)
      | MWait \<Rightarrow> mg_leaving m = [] \<and> mg_await m = None \<and> (\<not> mg_changed m \<longrightarrow> in_sync (mg_config m) (mg_tasks m))
      | MShutdown \<Rightarrow> mg_tasks m = []
      | MDone \<Rightarrow> all_tasks m = [])"

text \<open>Every task has its own handle and its own peer name, also while some of them are stopped.\<close>

definition bag_inv :: "manager \<Rightarrow> bool" where
  "bag_inv m \<longleftrightarrow>
     distinct (map pt_handle (all_tasks m)) \<and> distinct (map task_name (all_tasks m))
     \<and> (\<forall>p \<in> set (all_tasks m). pt_handle p < mg_next m \<and> tk_peer (pt_task p) = pt_peer p)
     \<and> keyed (mg_tasks m) \<and> keyed (mg_leaving m)
     \<and> (\<forall>p. mg_await m = Some p \<longrightarrow> tk_cancel (pt_task p))"

definition manager_inv :: "manager_state \<Rightarrow> bool" where
  "manager_inv s \<longleftrightarrow> bag_inv (snd s) \<and> pc_inv (snd s)"

lemma bag_inv_cong:
  "mg_tasks m' = mg_tasks m \<Longrightarrow> mg_leaving m' = mg_leaving m \<Longrightarrow> mg_await m' = mg_await m \<Longrightarrow> mg_next m' = mg_next m
     \<Longrightarrow> bag_inv m' = bag_inv m"
  by (simp add: bag_inv_def all_tasks_def)

lemma all_tasks_update: "all_tasks (update_task h t m) = map (set_task h t) (all_tasks m)"
  by (auto simp: all_tasks_def update_task_def split: option.splits)

lemma set_task_simps [simp]:
  "pt_handle (set_task h t p) = pt_handle p" "pt_peer (set_task h t p) = pt_peer p"
  "task_name (set_task h t p) = task_name p"
  by (simp_all add: set_task_def task_name_def)

lemma map_of_update_task:
  "map_of (mg_tasks (update_task h t m)) n = map_option (set_task h t) (map_of (mg_tasks m) n)"
  by (simp add: update_task_def map_of_map)

lemma find_handle:
  assumes "find (\<lambda>p. pt_handle p = h) ps = Some p" and "distinct (map pt_handle ps)"
  shows "p \<in> set ps" "pt_handle p = h" "q \<in> set ps \<Longrightarrow> pt_handle q = h \<Longrightarrow> q = p"
  using assms by (auto simp: find_Some_iff) (metis distinct_map in_set_conv_nth inj_onD nth_mem)+

lemma bag_inv_task:
  assumes bag: "bag_inv m" and p: "find (\<lambda>p. pt_handle p = h) (all_tasks m) = Some p"
    and same: "same_task (pt_task p) t"
  shows "bag_inv (update_task h t m)"
proof -
  from bag have d: "distinct (map pt_handle (all_tasks m))" by (simp add: bag_inv_def)
  note f = find_handle [OF p d]
  have kept: "same_task (pt_task q) (pt_task (set_task h t q))" if "q \<in> set (all_tasks m)" for q
  proof (cases "pt_handle q = h")
    case True
    from f(3) [OF that this] same True show ?thesis by (simp add: set_task_def)
  qed (simp add: set_task_def same_task_def)
  have peer: "tk_peer (pt_task (set_task h t q)) = pt_peer q" if "q \<in> set (all_tasks m)" for q
    using kept [OF that] that bag by (simp add: bag_inv_def same_task_def)
  have await: "tk_cancel (pt_task (set_task h t q))" if "mg_await m = Some q" for q
  proof -
    from that have "q \<in> set (all_tasks m)" by (simp add: all_tasks_def)
    from kept [OF this] that bag show ?thesis by (simp add: bag_inv_def same_task_def)
  qed
  have "keyed (mg_tasks (update_task h t m))" "keyed (mg_leaving (update_task h t m))"
    using bag by (auto simp: bag_inv_def keyed_def update_task_def)
  moreover have "mg_next (update_task h t m) = mg_next m" "mg_await (update_task h t m) = map_option (set_task h t) (mg_await m)"
    by (simp_all add: update_task_def)
  moreover have "distinct (map pt_handle (all_tasks m))" "distinct (map task_name (all_tasks m))"
    "\<forall>q \<in> set (all_tasks m). pt_handle q < mg_next m" using bag by (simp_all add: bag_inv_def)
  ultimately show ?thesis
    using peer await unfolding bag_inv_def all_tasks_update by (auto simp: comp_def)
qed

lemma pc_inv_task: "pc_inv m \<Longrightarrow> pc_inv (update_task h t m)"
proof -
  have eqs: "mg_pc (update_task h t m) = mg_pc m" "mg_changed (update_task h t m) = mg_changed m"
    "mg_config (update_task h t m) = mg_config m"
    "mg_leaving (update_task h t m) = [] \<longleftrightarrow> mg_leaving m = []" "mg_tasks (update_task h t m) = [] \<longleftrightarrow> mg_tasks m = []"
    "mg_await (update_task h t m) = None \<longleftrightarrow> mg_await m = None"
    "all_tasks (update_task h t m) = [] \<longleftrightarrow> all_tasks m = []"
    by (auto simp: update_task_def all_tasks_def split: option.splits)
  have sync: "in_sync cfg (mg_tasks (update_task h t m)) = in_sync cfg (mg_tasks m)" for cfg
    by (simp add: in_sync_def eqs map_of_update_task option.map_comp comp_def split: option.split)
  show "pc_inv m \<Longrightarrow> pc_inv (update_task h t m)"
    unfolding pc_inv_def eqs sync
    by (cases "mg_pc m") (auto simp: map_of_update_task)
qed

section \<open>The peers of a configuration\<close>

lemma map_of_new_peers: "map_of (new_peers ps) = map_of (rev (map (\<lambda>p. (pc_name p, p)) ps))"
  by (induction ps rule: rev_induct) (simp_all add: new_peers_def update_conv)

lemma new_peers_named: "map_of (new_peers ps) n = Some p \<Longrightarrow> n = pc_name p \<and> p \<in> set ps"
  unfolding map_of_new_peers by (drule map_of_SomeD) auto

lemma new_peers_distinct:
  assumes "distinct (map pc_name ps)" and "p \<in> set ps"
  shows "map_of (new_peers ps) (pc_name p) = Some p"
proof -
  have "distinct (map fst (rev (map (\<lambda>p. (pc_name p, p)) ps)))"
    using assms(1) by (simp add: comp_def rev_map [symmetric])
  then show ?thesis
    unfolding map_of_new_peers using assms(2) by (intro map_of_is_SomeI) auto
qed

lemma set_new_peers: "distinct (map fst (new_peers ps))"
  by (induction ps rule: rev_induct) (simp_all add: new_peers_def distinct_update)

section \<open>Spawning\<close>

definition calm :: "manager \<Rightarrow> bool" where
  "calm m \<longleftrightarrow> mg_leaving m = [] \<and> mg_await m = None"

lemma spawn_one:
  assumes "bag_inv m" and "calm m" and "name \<notin> fst ` set (mg_tasks m)" and "name = pc_name peer"
  shows "bag_inv (m\<lparr>mg_tasks := mg_tasks m @ [(name, \<lparr>pt_peer = peer, pt_handle = mg_next m,
      pt_task = task_spawn peer cc node\<rparr>)], mg_next := mg_next m + 1\<rparr>)"
proof -
  from assms(1,2) have f: "distinct (map (\<lambda>x. pt_handle (snd x)) (mg_tasks m))"
    "distinct (map (\<lambda>x. task_name (snd x)) (mg_tasks m))" "keyed (mg_tasks m)"
    "\<forall>x \<in> set (mg_tasks m). pt_handle (snd x) < mg_next m \<and> tk_peer (pt_task (snd x)) = pt_peer (snd x)"
    by (simp_all add: bag_inv_def calm_def all_tasks_def comp_def)
  have "\<forall>x \<in> set (mg_tasks m). fst x = task_name (snd x)" using f(3) by (simp add: keyed_def)
  with assms(3) have "pc_name peer \<notin> (\<lambda>x. task_name (snd x)) ` set (mg_tasks m)"
    using assms(4) by (metis (no_types, lifting) image_cong)
  moreover have "mg_next m \<notin> (\<lambda>x. pt_handle (snd x)) ` set (mg_tasks m)" using f(4) by fastforce
  moreover have "\<forall>x \<in> set (mg_tasks m). pt_handle (snd x) < Suc (mg_next m)" using f(4) by (simp add: less_SucI)
  moreover have "keyed (mg_tasks m @ [(pc_name peer, q)])" if "pt_peer q = peer" for q
    using f(3) that by (auto simp: keyed_def task_name_def)
  ultimately show ?thesis
    using f assms(2,4)
    by (simp add: bag_inv_def calm_def all_tasks_def comp_def task_spawn_def task_name_def keyed_def)
qed

lemma spawn_missing_frame:
  "mg_config (spawn_missing cc node ps m) = mg_config m" "mg_changed (spawn_missing cc node ps m) = mg_changed m"
  "mg_leaving (spawn_missing cc node ps m) = mg_leaving m" "mg_await (spawn_missing cc node ps m) = mg_await m"
  "mg_last (spawn_missing cc node ps m) = mg_last m" "mg_cancelled (spawn_missing cc node ps m) = mg_cancelled m"
  by (induction cc node ps m rule: spawn_missing.induct) simp_all

lemma spawn_missing_bag:
  assumes "bag_inv m" and "calm m" and "\<forall>(n, p) \<in> set ps. n = pc_name p"
  shows "bag_inv (spawn_missing cc node ps m)"
  using assms
proof (induction cc node ps m rule: spawn_missing.induct)
  case (2 cc node name peer rest m)
  show ?case
  proof (cases "name \<in> fst ` set (mg_tasks m)")
    case True
    with 2 show ?thesis by simp
  next
    case False
    with 2 spawn_one [of m name peer cc node] show ?thesis by (simp add: calm_def)
  qed
qed simp

text \<open>Running tasks stay as they are, in front; the missing ones are added.\<close>

lemma spawn_missing_keeps: "\<exists>new. mg_tasks (spawn_missing cc node ps m) = mg_tasks m @ new"
proof (induction cc node ps m rule: spawn_missing.induct)
  case (2 cc node name peer rest m)
  show ?case
  proof (cases "name \<in> fst ` set (mg_tasks m)")
    case True
    with 2 show ?thesis by simp
  next
    case False
    with 2 obtain new where "mg_tasks (spawn_missing cc node ((name, peer) # rest) m) =
      mg_tasks m @ [(name, \<lparr>pt_peer = peer, pt_handle = mg_next m, pt_task = task_spawn peer cc node\<rparr>)] @ new"
      by auto
    then show ?thesis by blast
  qed
qed simp

lemma spawn_missing_peers:
  "map_option pt_peer (map_of (mg_tasks (spawn_missing cc node ps m)) n) =
     (case map_of (mg_tasks m) n of Some p \<Rightarrow> Some (pt_peer p) | None \<Rightarrow> map_of ps n)"
proof (induction cc node ps m rule: spawn_missing.induct)
  case (1 cc node m)
  then show ?case by (simp split: option.splits)
next
  case (2 cc node name peer rest m)
  show ?case
  proof (cases "name \<in> fst ` set (mg_tasks m)")
    case True
    then have "map_of (mg_tasks m) name \<noteq> None" by (simp add: map_of_eq_None_iff)
    with True 2 show ?thesis by (auto split: option.splits)
  next
    case False
    then have "map_of (mg_tasks m) name = None" by (simp add: map_of_eq_None_iff)
    with False 2 show ?thesis
      by (auto simp: map_add_def split: option.splits)
  qed
qed

section \<open>Stopping\<close>

lemma distinct_stopped:
  assumes "map_of xs name = Some p" and "distinct (map f (map snd xs))" and "f p' = f p"
  shows "distinct (map f (map snd (AList.delete name xs) @ [p']))"
proof -
  from assms(1) have mem: "(name, p) \<in> set xs" by (rule map_of_SomeD)
  from assms(2) have inj: "inj_on (\<lambda>x. f (snd x)) (set xs)" and d: "distinct (map (\<lambda>x. f (snd x)) xs)"
    by (simp_all add: distinct_map comp_def)
  have ne: "f (snd x) \<noteq> f p" if "x \<in> set (AList.delete name xs)" for x
  proof
    assume "f (snd x) = f p"
    moreover from that have "x \<in> set xs" "fst x \<noteq> name" by (auto simp: AList.delete_eq)
    ultimately show False using inj_onD [OF inj, of x "(name, p)"] mem by auto
  qed
  then have "f p \<notin> (\<lambda>x. f (snd x)) ` set (AList.delete name xs)" by (metis imageE)
  moreover from d have "distinct (map (\<lambda>x. f (snd x)) (AList.delete name xs))"
    by (simp add: AList.delete_eq distinct_map_filter)
  ultimately show ?thesis using assms(3) by (simp add: comp_def image_image)
qed

lemma stop_task_simps [simp]:
  "pt_handle (stop_task p) = pt_handle p" "pt_peer (stop_task p) = pt_peer p" "task_name (stop_task p) = task_name p"
  "tk_peer (pt_task (stop_task p)) = tk_peer (pt_task p)" "tk_cancel (pt_task (stop_task p))"
  by (simp_all add: stop_task_def task_name_def)

text \<open>Taking one task out of the only list that holds tasks, and waiting for it.\<close>

lemma bag_stop:
  assumes bag: "bag_inv m" and none: "mg_await m = None" and p: "map_of xs name = Some p"
    and all: "all_tasks m = map snd xs" and key: "keyed xs"
    and all': "all_tasks m' = map snd (AList.delete name xs) @ [stop_task p]"
    and m': "mg_next m' = mg_next m" "mg_await m' = Some (stop_task p)"
      "set (mg_tasks m') \<subseteq> set xs" "set (mg_leaving m') \<subseteq> set xs"
  shows "bag_inv m'"
proof -
  from bag have d: "distinct (map pt_handle (map snd xs))" "distinct (map task_name (map snd xs))"
    and q: "\<forall>q \<in> set (map snd xs). pt_handle q < mg_next m \<and> tk_peer (pt_task q) = pt_peer q"
    unfolding bag_inv_def all by blast+
  have sub: "set (map snd (AList.delete name xs)) \<subseteq> set (map snd xs)" by (auto simp: AList.delete_eq)
  have "p \<in> set (map snd xs)" using map_of_SomeD [OF p] by force
  with q have p_ok: "pt_handle p < mg_next m" "tk_peer (pt_task p) = pt_peer p" by blast+
  have "\<forall>q \<in> set (all_tasks m'). pt_handle q < mg_next m' \<and> tk_peer (pt_task q) = pt_peer q"
  proof
    fix r assume "r \<in> set (all_tasks m')"
    then have "r \<in> set (map snd (AList.delete name xs)) \<or> r = stop_task p" unfolding all' by auto
    then show "pt_handle r < mg_next m' \<and> tk_peer (pt_task r) = pt_peer r"
    proof
      assume "r \<in> set (map snd (AList.delete name xs))"
      with sub q m'(1) show ?thesis by (metis subsetD)
    qed (use p_ok m'(1) in simp)
  qed
  moreover have "keyed (mg_tasks m')" "keyed (mg_leaving m')" using key m'(3,4) by (auto simp: keyed_def)
  moreover have "distinct (map pt_handle (all_tasks m'))" "distinct (map task_name (all_tasks m'))"
    unfolding all' by (rule distinct_stopped [OF p], rule d, simp)+
  ultimately show ?thesis using m'(2) by (simp add: bag_inv_def)
qed

text \<open>In a round, and while the tasks of a configuration without clients or of a shutdown are stopped.\<close>

lemma stop_remove_inv:
  assumes step: "manager_stop name m = Some m'" and bag: "bag_inv m" and pc: "pc_inv m"
    and remove: "mg_pc m = MRemove cfg cc names"
  shows "bag_inv m' \<and> pc_inv m'"
proof -
  from step have none: "mg_await m = None" by (auto simp: manager_stop_def split: if_splits)
  from pc remove have leaving: "mg_leaving m = []" and d: "distinct names" by (simp_all add: pc_inv_def)
  from remove step none have name: "name \<in> set names" by (auto simp: manager_stop_def split: if_splits)
  show ?thesis
  proof (cases "map_of (mg_tasks m) name")
    case None
    with remove step none name have m': "m' = m\<lparr>mg_pc := MRemove cfg cc (remove1 name names)\<rparr>"
      by (simp add: manager_stop_def)
    have "bag_inv m'" using bag by (simp add: m' bag_inv_def all_tasks_def)
    moreover have "pc_inv m'" using pc remove d None by (auto simp: m' pc_inv_def)
    ultimately show ?thesis ..
  next
    case (Some p)
    with remove step none name have m': "m' = m\<lparr>mg_pc := MRemove cfg cc (remove1 name names),
        mg_tasks := AList.delete name (mg_tasks m), mg_await := Some (stop_task p)\<rparr>"
      by (simp add: manager_stop_def Let_def)
    have "keyed (mg_tasks m)" using bag by (simp add: bag_inv_def)
    then have "bag_inv m'"
      by (intro bag_stop [OF bag none Some]) (auto simp: all_tasks_def leaving none m' AList.delete_eq)
    moreover have "pc_inv m'" using pc remove d by (auto simp: m' pc_inv_def AList.delete_conv split: if_splits)
    ultimately show ?thesis ..
  qed
qed

lemma stop_leaving_inv:
  assumes step: "manager_stop name m = Some m'" and bag: "bag_inv m" and pc: "pc_inv m"
    and leaving: "mg_pc m = MDrain \<or> mg_pc m = MShutdown"
  shows "bag_inv m' \<and> pc_inv m'"
proof -
  from step have none: "mg_await m = None" by (auto simp: manager_stop_def split: if_splits)
  from step none leaving obtain p where p: "map_of (mg_leaving m) name = Some p"
    and m': "m' = m\<lparr>mg_leaving := AList.delete name (mg_leaving m), mg_await := Some (stop_task p)\<rparr>"
    by (auto simp: manager_stop_def split: option.splits)
  from leaving pc have tasks: "mg_tasks m = []" by (auto simp: pc_inv_def)
  have "keyed (mg_leaving m)" using bag by (simp add: bag_inv_def)
  then have "bag_inv m'"
    by (intro bag_stop [OF bag none p]) (auto simp: all_tasks_def tasks none m' AList.delete_eq)
  with leaving pc show ?thesis by (auto simp: m' pc_inv_def)
qed

lemma manager_stop_inv:
  assumes "manager_stop name m = Some m'" and "bag_inv m" and "pc_inv m"
  shows "bag_inv m' \<and> pc_inv m'"
  using stop_remove_inv [OF assms] stop_leaving_inv [OF assms] assms(1)
  by (cases "mg_pc m") (auto simp: manager_stop_def split: if_splits)

lemma head_inv:
  assumes bag: "bag_inv m" and pc: "pc_inv m" and head: "mg_pc m = MHead"
  shows "bag_inv (manager_head m) \<and> pc_inv (manager_head m)"
proof -
  from pc head have calm: "mg_leaving m = []" "mg_await m = None" by (simp_all add: pc_inv_def)
  show ?thesis
  proof (cases "cfg_client (mg_config m)")
    case None
    with bag calm show ?thesis
      by (simp add: manager_head_def Let_def bag_inv_def pc_inv_def all_tasks_def keyed_def)
  next
    case (Some cc)
    let ?peers = "new_peers (cfg_peers (mg_config m))"
    from bag calm have names: "distinct (map fst (mg_tasks m))"
    proof -
      have "map fst (mg_tasks m) = map (task_name \<circ> snd) (mg_tasks m)"
        using bag by (simp add: bag_inv_def keyed_def)
      moreover have "distinct (map (task_name \<circ> snd) (mg_tasks m))"
        using bag calm by (simp add: bag_inv_def all_tasks_def)
      ultimately show ?thesis by (simp only:)
    qed
    have iff: "n \<in> set (to_remove ?peers (mg_tasks m)) \<longleftrightarrow> map_of ?peers n \<noteq> Some (pt_peer p)"
      if "map_of (mg_tasks m) n = Some p" for n p
    proof -
      have unique: "(n, p') \<in> set (mg_tasks m) \<longleftrightarrow> p' = p" for p'
        using map_of_eq_Some_iff [OF names, of n p'] that by auto
      have "n \<in> set (to_remove ?peers (mg_tasks m)) \<longleftrightarrow>
          (\<exists>p'. (n, p') \<in> set (mg_tasks m) \<and> map_of ?peers n \<noteq> Some (pt_peer p'))"
        by (auto simp: to_remove_def image_iff)
      then show ?thesis by (simp only: unique) blast
    qed
    have "distinct (to_remove ?peers (mg_tasks m))"
      unfolding to_remove_def using names by (rule distinct_map_filter)
    with Some calm iff have "pc_inv (manager_head m)" by (simp add: manager_head_def Let_def pc_inv_def)
    moreover have "bag_inv (manager_head m) = bag_inv m"
      by (rule bag_inv_cong) (simp_all add: manager_head_def Let_def Some)
    ultimately show ?thesis using bag by simp
  qed
qed

lemma spawn_inv:
  assumes bag: "bag_inv m" and pc: "pc_inv m" and remove: "mg_pc m = MRemove cfg cc []" and none: "mg_await m = None"
    and m'_def: "m' = (spawn_missing cc node (new_peers (cfg_peers cfg)) m)\<lparr>mg_pc := MWait\<rparr>"
  shows "bag_inv m' \<and> pc_inv m'"
proof -
  from pc remove have leaving: "mg_leaving m = []" and cc: "cfg_client cfg = Some cc"
    and cfg: "\<not> mg_changed m \<longrightarrow> cfg = mg_config m"
    and kept: "\<And>n p. map_of (mg_tasks m) n = Some p \<Longrightarrow> map_of (new_peers (cfg_peers cfg)) n = Some (pt_peer p)"
    by (simp_all add: pc_inv_def)
  have "\<forall>(n, p) \<in> set (new_peers (cfg_peers cfg)). n = pc_name p"
    using set_new_peers new_peers_named by fastforce
  with bag leaving none have "bag_inv (spawn_missing cc node (new_peers (cfg_peers cfg)) m)"
    by (intro spawn_missing_bag) (simp_all add: calm_def)
  then have "bag_inv m'" by (simp add: m'_def bag_inv_def all_tasks_def)
  moreover have "in_sync cfg (mg_tasks m')"
    using kept by (auto simp: m'_def in_sync_def cc spawn_missing_peers split: option.splits)
  then have "pc_inv m'"
    using cfg leaving none by (auto simp: m'_def pc_inv_def spawn_missing_frame)
  ultimately show ?thesis ..
qed

lemma shutdown_inv:
  assumes "bag_inv m" and "mg_leaving m = []" and "mg_await m = None"
  shows "bag_inv (manager_shutdown m) \<and> pc_inv (manager_shutdown m)"
  using assms by (simp add: manager_shutdown_def bag_inv_def pc_inv_def all_tasks_def keyed_def)

lemma await_over_inv:
  assumes "bag_inv m" and "pc_inv m" and "mg_await m = Some p"
  shows "bag_inv (m\<lparr>mg_await := None\<rparr>) \<and> pc_inv (m\<lparr>mg_await := None\<rparr>)"
proof
  show "bag_inv (m\<lparr>mg_await := None\<rparr>)" using assms by (simp add: bag_inv_def all_tasks_def)
  show "pc_inv (m\<lparr>mg_await := None\<rparr>)" using assms by (cases "mg_pc m") (auto simp: pc_inv_def all_tasks_def)
qed

lemma wait_inv:
  assumes step: "manager_poll m = Some m'" and bag: "bag_inv m" and pc: "pc_inv m"
    and wait: "mg_pc m = MWait" and none: "mg_await m = None"
  shows "bag_inv m' \<and> pc_inv m'"
proof -
  from pc wait have leaving: "mg_leaving m = []" by (simp add: pc_inv_def)
  show ?thesis
  proof (cases "mg_changed m")
    case True
    with wait none step have m': "m' = m\<lparr>mg_pc := MHead\<rparr>" by (simp add: manager_poll_def)
    with bag leaving none show ?thesis by (simp add: pc_inv_def bag_inv_def all_tasks_def)
  next
    case False
    with wait none step have "m' = manager_shutdown m" by (simp add: manager_poll_def split: if_splits)
    with shutdown_inv [OF bag leaving none] show ?thesis by simp
  qed
qed

lemma manager_poll_inv:
  assumes step: "manager_poll m = Some m'" and bag: "bag_inv m" and pc: "pc_inv m"
  shows "bag_inv m' \<and> pc_inv m'"
proof (cases "mg_await m")
  case (Some p)
  with step await_over_inv [OF bag pc] show ?thesis by (simp add: manager_poll_def split: if_splits)
next
  case None
  show ?thesis
  proof (cases "mg_pc m")
    case MHead
    with None step head_inv [OF bag pc MHead] show ?thesis by (simp add: manager_poll_def)
  next
    case (MRemove cfg cc names)
    with None step have "names = []"
      and m': "m' = (spawn_missing cc (nc_name (cfg_node cfg)) (new_peers (cfg_peers cfg)) m)\<lparr>mg_pc := MWait\<rparr>"
      by (simp_all add: manager_poll_def split: if_splits)
    with spawn_inv [OF bag pc _ None] MRemove show ?thesis by simp
  next
    case MWait
    show ?thesis by (rule wait_inv [OF step bag pc MWait None])
  next
    case MDrain
    with None step have "m' = m\<lparr>mg_last := None, mg_pc := MWait\<rparr>" "mg_leaving m = []"
      by (simp_all add: manager_poll_def split: if_splits)
    with MDrain None bag pc show ?thesis by (simp add: pc_inv_def bag_inv_def all_tasks_def in_sync_def)
  next
    case MShutdown
    with None step have "m' = m\<lparr>mg_pc := MDone\<rparr>" "mg_leaving m = []"
      by (simp_all add: manager_poll_def split: if_splits)
    with MShutdown None bag pc show ?thesis by (simp add: pc_inv_def bag_inv_def all_tasks_def)
  next
    case MDone
    with None step show ?thesis by (simp add: manager_poll_def)
  qed
qed

text \<open>The channel and the token change nothing about the tasks.\<close>

lemma env_inv:
  assumes "bag_inv m" and "pc_inv m"
  shows "bag_inv (m\<lparr>mg_sender := False\<rparr>) \<and> pc_inv (m\<lparr>mg_sender := False\<rparr>)"
    and "bag_inv (m\<lparr>mg_cancelled := True\<rparr>) \<and> pc_inv (m\<lparr>mg_cancelled := True\<rparr>)"
    and "bag_inv (m\<lparr>mg_config := cfg, mg_changed := True\<rparr>) \<and> pc_inv (m\<lparr>mg_config := cfg, mg_changed := True\<rparr>)"
  using assms bag_inv_cong [of "m\<lparr>mg_sender := False\<rparr>" m] bag_inv_cong [of "m\<lparr>mg_cancelled := True\<rparr>" m]
    bag_inv_cong [of "m\<lparr>mg_config := cfg, mg_changed := True\<rparr>" m]
  by (cases "mg_pc m"; simp add: pc_inv_def all_tasks_def)+

interpretation manager_machine: stepper manager_step manager_inv
proof
  fix s s' e
  assume step: "manager_step s e = Some s'" and inv: "manager_inv s"
  obtain w m where s: "s = (w, m)" by (cases s)
  from inv s have bag: "bag_inv m" and pc: "pc_inv m" by (simp_all add: manager_inv_def)
  show "manager_inv s'"
  proof (cases e)
    case (MgTask h te)
    with step s obtain w' t' p where p: "find (\<lambda>p. pt_handle p = h) (all_tasks m) = Some p"
      and t: "task_step (w, pt_task p) te = Some (w', t')" and s': "s' = (w', update_task h t' m)"
      by (auto simp: manager_step_def manager_task_def split: task_event.splits option.splits)
    from bag_inv_task [OF bag p task_step_same [OF t]] pc_inv_task [OF pc] s' show ?thesis
      by (simp add: manager_inv_def)
  next
    case MgPoll
    with step s manager_poll_inv [OF _ bag pc] show ?thesis by (auto simp: manager_step_def manager_inv_def)
  next
    case (MgStop name)
    with step s manager_stop_inv [OF _ bag pc] show ?thesis by (auto simp: manager_step_def manager_inv_def)
  next
    case MgCancelled
    with step s have "mg_pc m = MWait" and s': "s' = (w, manager_shutdown m)"
      by (simp_all add: manager_step_def split: if_splits)
    with pc have "mg_leaving m = []" "mg_await m = None" by (simp_all add: pc_inv_def)
    with shutdown_inv [OF bag] s' show ?thesis by (simp add: manager_inv_def)
  next
    case (MgConfig cfg)
    with step s have "s' = (w, m\<lparr>mg_config := cfg, mg_changed := True\<rparr>)"
      by (simp add: manager_step_def split: if_splits)
    with env_inv(3) [OF bag pc, of cfg] show ?thesis by (simp add: manager_inv_def)
  qed (use step s bag pc env_inv [OF bag pc] in \<open>auto simp: manager_step_def manager_inv_def\<close>)
qed

lemma manager_start_inv: "manager_inv (w, manager_start cfg)"
  by (simp add: manager_inv_def manager_start_def bag_inv_def pc_inv_def all_tasks_def keyed_def)

section \<open>What a step does to the tasks\<close>

lemma manager_run_inv:
  "run_steps manager_step (w, manager_start cfg) es = Some (w', m) \<Longrightarrow> bag_inv m \<and> pc_inv m"
  using manager_machine.inv_run [OF _ manager_start_inv] by (fastforce simp: manager_inv_def)

text \<open>The handles of the tasks that run.\<close>

definition handles_in :: "(rstr \<times> peer_task) list \<Rightarrow> nat set" where
  "handles_in xs = (\<lambda>x. pt_handle (snd x)) ` set xs"

definition handles :: "manager \<Rightarrow> nat set" where
  "handles m = pt_handle ` set (all_tasks m)"

lemma handles_in_simps [simp]:
  "handles_in [] = {}" "handles_in (xs @ ys) = handles_in xs \<union> handles_in ys"
  by (simp_all add: handles_in_def image_Un)

lemma handles_eq:
  "handles m = handles_in (mg_tasks m) \<union> handles_in (mg_leaving m) \<union> pt_handle ` set_option (mg_await m)"
  by (cases "mg_await m") (simp_all add: handles_def handles_in_def all_tasks_def image_Un image_image)

lemma handles_update [simp]: "handles (update_task h t m) = handles m"
  by (simp add: handles_def all_tasks_update image_image)

lemma handles_stopped:
  assumes "map_of xs name = Some p" and names: "distinct (map fst xs)"
  shows "handles_in xs \<subseteq> insert (pt_handle p) (handles_in (AList.delete name xs))"
proof
  fix h assume "h \<in> handles_in xs"
  then obtain n q where q: "(n, q) \<in> set xs" "h = pt_handle q" by (force simp: handles_in_def)
  show "h \<in> insert (pt_handle p) (handles_in (AList.delete name xs))"
  proof (cases "n = name")
    case True
    with q assms have "q = p" by (metis map_of_is_SomeI option.inject)
    with q show ?thesis by simp
  next
    case False
    with q have "(n, q) \<in> set (AList.delete name xs)" by (simp add: AList.delete_eq)
    with q show ?thesis by (force simp: handles_in_def)
  qed
qed

lemma bag_names:
  assumes "bag_inv m"
  shows "distinct (map fst (mg_tasks m))" "distinct (map fst (mg_leaving m))"
proof -
  have names: "map fst xs = map task_name (map snd xs)" if "keyed xs" for xs
    using that by (simp add: keyed_def)
  from assms have "keyed (mg_tasks m)" "keyed (mg_leaving m)"
    "distinct (map task_name (map snd (mg_tasks m)))" "distinct (map task_name (map snd (mg_leaving m)))"
    by (simp_all add: bag_inv_def all_tasks_def)
  then show "distinct (map fst (mg_tasks m))" "distinct (map fst (mg_leaving m))" by (simp_all only: names)
qed

lemma stop_handles:
  assumes step: "manager_stop name m = Some m'" and bag: "bag_inv m"
  shows "handles m \<subseteq> handles m'"
proof -
  have tasks: "handles_in (mg_tasks m) \<subseteq> insert (pt_handle p) (handles_in (AList.delete name (mg_tasks m)))"
    if "map_of (mg_tasks m) name = Some p" for p
    using handles_stopped [OF that bag_names(1) [OF bag]] .
  have leaving: "handles_in (mg_leaving m) \<subseteq> insert (pt_handle p) (handles_in (AList.delete name (mg_leaving m)))"
    if "map_of (mg_leaving m) name = Some p" for p
    using handles_stopped [OF that bag_names(2) [OF bag]] .
  from step have none: "mg_await m = None" by (auto simp: manager_stop_def split: if_splits)
  show ?thesis
  proof (cases "mg_pc m")
    case (MRemove cfg cc names)
    with step none show ?thesis
      by (auto simp: manager_stop_def Let_def handles_eq split: if_splits option.splits dest!: tasks)
  qed (use step none in
      \<open>auto simp: manager_stop_def Let_def handles_eq split: if_splits option.splits dest!: leaving\<close>)
qed

lemma poll_handles:
  assumes step: "manager_poll m = Some m'" and pc: "pc_inv m"
  shows "handles m \<subseteq> handles m' \<or>
    (\<exists>p. mg_await m = Some p \<and> tk_pc (pt_task p) = KDone \<and> handles m \<subseteq> insert (pt_handle p) (handles m'))"
proof (cases "mg_await m")
  case (Some p)
  with step show ?thesis by (auto simp: manager_poll_def handles_eq split: if_splits)
next
  case None
  show ?thesis
  proof (cases "mg_pc m")
    case (MRemove cfg cc names)
    obtain new where "mg_tasks (spawn_missing cc (nc_name (cfg_node cfg)) (new_peers (cfg_peers cfg)) m) = mg_tasks m @ new"
      using spawn_missing_keeps by blast
    with MRemove None step show ?thesis
      by (auto simp: manager_poll_def handles_eq spawn_missing_frame split: if_splits)
  qed (use None step pc in \<open>auto simp: manager_poll_def manager_head_def manager_shutdown_def Let_def handles_eq
      pc_inv_def split: if_splits option.splits\<close>)
qed

text \<open>A concrete start: two polls apply the example configuration, which has one peer.\<close>

definition example_task_entry :: peer_task where
  "example_task_entry =
     \<lparr>pt_peer = example_peer, pt_handle = 0, pt_task = task_spawn example_peer example_client (lit ''n1'')\<rparr>"

lemmas manager_run_simps =
  manager_step_def manager_poll_def manager_head_def Let_def new_peers_def to_remove_def client_warnings_def

lemma example_started:
  "run_steps manager_step (fresh_world 0, manager_start example_config) [MgPoll, MgPoll] =
     Some (fresh_world 0, (manager_start example_config)\<lparr>mg_tasks := [(pc_name example_peer, example_task_entry)],
       mg_next := 1, mg_last := Some example_client, mg_pc := MWait\<rparr>)"
  by (simp add: manager_run_simps manager_start_def example_config_def example_task_entry_def)

lemma example_reload:
  "run_steps manager_step (fresh_world 0, manager_start example_config) ([MgPoll, MgPoll] @ [MgConfig example_config, MgPoll]) =
     Some (fresh_world 0, (manager_start example_config)\<lparr>mg_tasks := [(pc_name example_peer, example_task_entry)],
       mg_next := 1, mg_last := Some example_client, mg_pc := MHead, mg_changed := True\<rparr>)"
  by (subst run_steps_appendI [OF example_started]) (simp add: manager_step_def manager_poll_def manager_start_def)

section \<open>Shutting down\<close>

text \<open>
  The steps the manager and its tasks can take by themselves, without the network, the clock or
  the channel: polls, the next task to stop, and the branches of the cancellation tokens.
\<close>

fun own_event :: "manager_event \<Rightarrow> bool" where
  "own_event (MgTask _ e) \<longleftrightarrow> e \<in> {TPoll, TCancelled}"
| "own_event MgPoll \<longleftrightarrow> True"
| "own_event (MgStop _) \<longleftrightarrow> True"
| "own_event MgCancelled \<longleftrightarrow> True"
| "own_event _ \<longleftrightarrow> False"

definition leads :: "manager_state \<Rightarrow> manager_state \<Rightarrow> bool" where
  "leads s s' \<longleftrightarrow> (\<exists>es. list_all own_event es \<and> run_steps manager_step s es = Some s')"

lemma leads_refl: "leads s s"
  unfolding leads_def by (intro exI [of _ "[]"]) simp

lemma leads_trans [trans]:
  assumes "leads s1 s2" and "leads s2 s3"
  shows "leads s1 s3"
proof -
  from assms obtain es fs where "list_all own_event es" "run_steps manager_step s1 es = Some s2"
    "list_all own_event fs" "run_steps manager_step s2 fs = Some s3" by (auto simp: leads_def)
  then show ?thesis
    unfolding leads_def by (intro exI [of _ "es @ fs"]) (simp add: run_steps_append)
qed

lemma leads_step: "manager_step s e = Some s' \<Longrightarrow> own_event e \<Longrightarrow> leads s s'"
  unfolding leads_def by (intro exI [of _ "[e]"]) simp

lemma leads_inv: "leads s s' \<Longrightarrow> manager_inv s \<Longrightarrow> manager_inv s'"
  by (auto simp: leads_def intro: manager_machine.inv_run)

text \<open>A cancelled manager stays cancelled.\<close>

interpretation manager_token: stepper manager_step "\<lambda>s. mg_cancelled (snd s)"
proof
  fix s s' e
  assume step: "manager_step s e = Some s'" and c: "mg_cancelled (snd s)"
  obtain w m where s: "s = (w, m)" by (cases s)
  have poll: "mg_cancelled m'" if "manager_poll m = Some m'" for m'
    using that c s by (auto simp: manager_poll_def manager_head_def manager_shutdown_def spawn_missing_frame Let_def
        split: option.splits manager_pc.splits if_splits)
  have stop: "mg_cancelled m'" if "manager_stop n m = Some m'" for n m'
    using that c s by (auto simp: manager_stop_def Let_def split: option.splits manager_pc.splits if_splits)
  show "mg_cancelled (snd s')"
    using step s c poll stop
    by (cases e) (auto simp: manager_step_def manager_task_def update_task_def manager_shutdown_def
        split: option.splits task_event.splits if_splits)
qed

lemma leads_cancelled: "leads s s' \<Longrightarrow> mg_cancelled (snd s) \<Longrightarrow> mg_cancelled (snd s')"
  unfolding leads_def using manager_token.inv_run by blast

text \<open>The task the manager waits for is the only one with its handle.\<close>

lemma awaited_task:
  assumes bag: "bag_inv m" and p: "mg_await m = Some p"
  shows "find (\<lambda>q. pt_handle q = pt_handle p) (all_tasks m) = Some p"
    and "update_task (pt_handle p) t m = m\<lparr>mg_await := Some (p\<lparr>pt_task := t\<rparr>)\<rparr>"
proof -
  have "pt_handle p \<notin> (\<lambda>x. pt_handle (snd x)) ` (set (mg_tasks m) \<union> set (mg_leaving m))"
    using bag p by (auto simp: bag_inv_def all_tasks_def)
  then have other: "pt_handle (snd x) \<noteq> pt_handle p" if "x \<in> set (mg_tasks m) \<union> set (mg_leaving m)" for x
    using that by (metis image_eqI)
  then have "find (\<lambda>q. pt_handle q = pt_handle p) (map snd (mg_tasks m) @ map snd (mg_leaving m)) = None"
    by (auto simp: find_None_iff)
  then show "find (\<lambda>q. pt_handle q = pt_handle p) (all_tasks m) = Some p"
    using p find_append_None [of _ "map snd (mg_tasks m) @ map snd (mg_leaving m)" "[p]"] by (simp add: all_tasks_def)
  have "map (\<lambda>(n, q). (n, set_task (pt_handle p) t q)) xs = xs" if "set xs \<subseteq> set (mg_tasks m) \<union> set (mg_leaving m)" for xs
    using that other by (intro map_idI) (force simp: set_task_def split: prod.splits)
  then show "update_task (pt_handle p) t m = m\<lparr>mg_await := Some (p\<lparr>pt_task := t\<rparr>)\<rparr>"
    using p by (simp add: update_task_def set_task_def)
qed

lemma awaited_run:
  assumes "run_steps task_step (w, pt_task p) es = Some (w', t')" and "set es \<subseteq> {TPoll, TCancelled}"
    and "manager_inv (w, m)" and "mg_await m = Some p"
  shows "leads (w, m) (w', m\<lparr>mg_await := Some (p\<lparr>pt_task := t'\<rparr>)\<rparr>)"
  using assms
proof (induction es arbitrary: w m p)
  case Nil
  then have "m\<lparr>mg_await := Some (p\<lparr>pt_task := t'\<rparr>)\<rparr> = m" by (cases m; cases p) simp
  with Nil show ?case using leads_refl by (metis option.inject prod.inject run_steps.simps(1))
next
  case (Cons e es)
  then obtain w1 t1 where t: "task_step (w, pt_task p) e = Some (w1, t1)"
    and rest: "run_steps task_step (w1, t1) es = Some (w', t')" by (auto split: option.splits)
  let ?m = "m\<lparr>mg_await := Some (p\<lparr>pt_task := t1\<rparr>)\<rparr>"
  from Cons.prems(3) have "bag_inv m" by (simp add: manager_inv_def)
  from awaited_task [OF this Cons.prems(4)] t Cons.prems(2)
  have "leads (w, m) (w1, ?m)"
    by (intro leads_step [of _ "MgTask (pt_handle p) e"]) (auto simp: manager_step_def manager_task_def)
  also have "leads (w1, ?m) (w', ?m\<lparr>mg_await := Some (p\<lparr>pt_task := t1\<rparr>\<lparr>pt_task := t'\<rparr>)\<rparr>)"
    using rest Cons.prems(2) leads_inv [OF calculation Cons.prems(3)] by (intro Cons.IH) auto
  finally show ?case by simp
qed

lemma await_ends:
  assumes inv: "manager_inv (w, m)" and p: "mg_await m = Some p"
  shows "\<exists>w'. leads (w, m) (w', m\<lparr>mg_await := None\<rparr>)"
proof -
  from inv p have "tk_cancel (pt_task p)" by (simp add: manager_inv_def bag_inv_def)
  from cancelled_ends [OF this, of w] obtain es w' t' where es: "set es \<subseteq> {TPoll, TCancelled}"
    "run_steps task_step (w, pt_task p) es = Some (w', t')" and ended: "tk_pc t' = KDone" by blast
  from awaited_run [OF es(2,1) inv p] have "leads (w, m) (w', m\<lparr>mg_await := Some (p\<lparr>pt_task := t'\<rparr>)\<rparr>)" .
  also have "leads (w', m\<lparr>mg_await := Some (p\<lparr>pt_task := t'\<rparr>)\<rparr>) (w', m\<lparr>mg_await := None\<rparr>)"
    using ended by (intro leads_step [of _ MgPoll]) (simp_all add: manager_step_def manager_poll_def)
  finally show ?thesis by blast
qed

lemma await_clear:
  assumes "manager_inv (w, m)"
  obtains w' where "leads (w, m) (w', m\<lparr>mg_await := None\<rparr>)"
proof (cases "mg_await m")
  case None
  then have "m\<lparr>mg_await := None\<rparr> = m" by (cases m) simp
  with that leads_refl show ?thesis by metis
next
  case (Some p)
  with await_ends [OF assms] that show ?thesis by blast
qed

text \<open>Stopping one task after the other empties the list of those to be stopped.\<close>

lemma stop_one:
  assumes inv: "manager_inv (w, m)" and stop: "manager_stop n m = Some m1"
  obtains w' where "leads (w, m) (w', m1\<lparr>mg_await := None\<rparr>)"
proof -
  have "leads (w, m) (w, m1)" using stop by (intro leads_step [of _ "MgStop n"]) (simp_all add: manager_step_def)
  moreover from await_clear [OF leads_inv [OF this inv]] obtain w' where "leads (w, m1) (w', m1\<lparr>mg_await := None\<rparr>)" .
  ultimately show ?thesis using that leads_trans by blast
qed

lemma leaving_stops:
  assumes "manager_inv (w, m)" and "mg_await m = None" and "mg_pc m = MDrain \<or> mg_pc m = MShutdown"
  shows "\<exists>w'. leads (w, m) (w', m\<lparr>mg_leaving := []\<rparr>)"
  using assms
proof (induction "length (mg_leaving m)" arbitrary: w m rule: less_induct)
  case less
  show ?case
  proof (cases "mg_leaving m")
    case Nil
    then have "m\<lparr>mg_leaving := []\<rparr> = m" by (cases m) simp
    then show ?thesis using leads_refl by metis
  next
    case (Cons x xs)
    obtain n p where x: "x = (n, p)" by (cases x)
    let ?m = "m\<lparr>mg_leaving := AList.delete n (mg_leaving m)\<rparr>"
    have "manager_stop n m = Some (?m\<lparr>mg_await := Some (stop_task p)\<rparr>)"
      using less.prems Cons x by (auto simp: manager_stop_def)
    from stop_one [OF less.prems(1) this] obtain w1 where
      "leads (w, m) (w1, ?m\<lparr>mg_await := Some (stop_task p), mg_await := None\<rparr>)" .
    moreover have "?m\<lparr>mg_await := Some (stop_task p), mg_await := None\<rparr> = ?m" using less.prems(2) by (cases m) simp
    ultimately have l: "leads (w, m) (w1, ?m)" by (simp only:)
    have "length (mg_leaving ?m) < length (mg_leaving m)"
      using Cons x length_delete_le [of n xs] by simp
    from less.hyps [OF this leads_inv [OF l less.prems(1)]] less.prems
    obtain w2 where "leads (w1, ?m) (w2, m\<lparr>mg_leaving := []\<rparr>)" by auto
    with l show ?thesis using leads_trans by blast
  qed
qed

lemma removal_ends:
  assumes "manager_inv (w, m)" and "mg_await m = None" and "mg_pc m = MRemove cfg cc names"
  shows "\<exists>w' m'. leads (w, m) (w', m') \<and> mg_await m' = None \<and> mg_pc m' = MRemove cfg cc []"
  using assms
proof (induction names arbitrary: w m)
  case Nil
  then show ?case using leads_refl by blast
next
  case (Cons n names)
  obtain m1 where m1: "manager_stop n m = Some m1" and pc: "mg_pc m1 = MRemove cfg cc names"
    using Cons.prems by (cases "map_of (mg_tasks m) n") (simp_all add: manager_stop_def Let_def)
  from stop_one [OF Cons.prems(1) m1] obtain w' where l: "leads (w, m) (w', m1\<lparr>mg_await := None\<rparr>)" .
  from Cons.IH [OF leads_inv [OF l Cons.prems(1)]] pc obtain w2 m2 where
    "leads (w', m1\<lparr>mg_await := None\<rparr>) (w2, m2)" "mg_await m2 = None" "mg_pc m2 = MRemove cfg cc []" by auto
  with l show ?case using leads_trans by blast
qed

lemma poll_leads: "manager_poll m = Some m' \<Longrightarrow> leads (w, m) (w, m')"
  by (rule leads_step [of _ MgPoll]) (simp_all add: manager_step_def)

lemma round_ends:
  assumes "manager_inv (w, m)" and "mg_await m = None" and "mg_pc m = MDrain \<or> (\<exists>cfg cc names. mg_pc m = MRemove cfg cc names)"
  shows "\<exists>w' m'. leads (w, m) (w', m') \<and> mg_await m' = None \<and> mg_pc m' = MWait"
  using assms(3)
proof (elim disjE exE)
  assume drain: "mg_pc m = MDrain"
  with leaving_stops [OF assms(1,2)] obtain w' where l: "leads (w, m) (w', m\<lparr>mg_leaving := []\<rparr>)" by blast
  have "leads (w', m\<lparr>mg_leaving := []\<rparr>) (w', m\<lparr>mg_leaving := [], mg_last := None, mg_pc := MWait\<rparr>)"
    using drain assms(2) by (intro poll_leads) (simp add: manager_poll_def)
  with leads_trans [OF l] assms(2) show ?thesis by fastforce
next
  fix cfg cc names assume "mg_pc m = MRemove cfg cc names"
  from removal_ends [OF assms(1,2) this] obtain w' m' where l: "leads (w, m) (w', m')"
    and m': "mg_await m' = None" "mg_pc m' = MRemove cfg cc []" by blast
  let ?m = "(spawn_missing cc (nc_name (cfg_node cfg)) (new_peers (cfg_peers cfg)) m')\<lparr>mg_pc := MWait\<rparr>"
  have "leads (w', m') (w', ?m)" using m' by (intro poll_leads) (simp add: manager_poll_def)
  with leads_trans [OF l] m' show ?thesis by (intro exI [of _ w'] exI [of _ ?m]) (simp add: spawn_missing_frame)
qed

lemma reaches_wait:
  assumes "manager_inv (w, m)" and "mg_pc m \<noteq> MShutdown" and "mg_pc m \<noteq> MDone"
  shows "\<exists>w' m'. leads (w, m) (w', m') \<and> mg_await m' = None \<and> mg_pc m' = MWait"
proof -
  from await_clear [OF assms(1)] obtain w1 where l: "leads (w, m) (w1, m\<lparr>mg_await := None\<rparr>)" .
  note inv = leads_inv [OF l assms(1)]
  show ?thesis
  proof (cases "mg_pc m")
    case MHead
    let ?m = "manager_head (m\<lparr>mg_await := None\<rparr>)"
    have h: "leads (w1, m\<lparr>mg_await := None\<rparr>) (w1, ?m)" using MHead by (intro poll_leads) (simp add: manager_poll_def)
    have "mg_await ?m = None" "mg_pc ?m = MDrain \<or> (\<exists>cfg cc names. mg_pc ?m = MRemove cfg cc names)"
      by (simp_all add: manager_head_def Let_def split: option.splits)
    from round_ends [OF leads_inv [OF h inv] this] obtain w2 m2 where "leads (w1, ?m) (w2, m2)"
      "mg_await m2 = None" "mg_pc m2 = MWait" by blast
    with leads_trans [OF leads_trans [OF l h]] show ?thesis by blast
  next
    case MWait
    with l show ?thesis by fastforce
  qed (use round_ends [OF inv] leads_trans [OF l] assms(2,3) in \<open>fastforce+\<close>)
qed

lemma shutdown_ends:
  assumes "manager_inv (w, m)" and "mg_pc m = MShutdown"
  shows "\<exists>w' m'. leads (w, m) (w', m') \<and> mg_pc m' = MDone"
proof -
  from await_clear [OF assms(1)] obtain w1 where l: "leads (w, m) (w1, m\<lparr>mg_await := None\<rparr>)" .
  from leaving_stops [OF leads_inv [OF l assms(1)]] assms(2) obtain w2 where
    l2: "leads (w1, m\<lparr>mg_await := None\<rparr>) (w2, m\<lparr>mg_await := None, mg_leaving := []\<rparr>)" by auto
  have "leads (w2, m\<lparr>mg_await := None, mg_leaving := []\<rparr>) (w2, m\<lparr>mg_await := None, mg_leaving := [], mg_pc := MDone\<rparr>)"
    using assms(2) by (intro poll_leads) (simp add: manager_poll_def)
  with leads_trans [OF leads_trans [OF l l2]] show ?thesis by fastforce
qed

text \<open>A cancelled manager can always finish.\<close>

lemma manager_finishes:
  assumes inv: "manager_inv (w1, m1)" and "mg_cancelled m1"
  shows "\<exists>fs w2 m2. list_all own_event fs \<and> run_steps manager_step (w1, m1) fs = Some (w2, m2)
    \<and> mg_pc m2 = MDone \<and> all_tasks m2 = []"
proof -
  have "\<exists>w2 m2. leads (w1, m1) (w2, m2) \<and> mg_pc m2 = MDone"
  proof (cases "mg_pc m1 = MShutdown \<or> mg_pc m1 = MDone")
    case True
    with shutdown_ends [OF inv] leads_refl show ?thesis by blast
  next
    case False
    with reaches_wait [OF inv] obtain w' m' where l: "leads (w1, m1) (w', m')" and m': "mg_pc m' = MWait" by blast
    with leads_cancelled [OF l] assms(2) have "leads (w', m') (w', manager_shutdown m')"
      by (intro leads_step [of _ MgCancelled]) (simp_all add: manager_step_def)
    with l have l': "leads (w1, m1) (w', manager_shutdown m')" by (rule leads_trans)
    from shutdown_ends [OF leads_inv [OF this inv]] show ?thesis
      using leads_trans [OF l'] by (fastforce simp: manager_shutdown_def)
  qed
  then obtain w2 m2 where l: "leads (w1, m1) (w2, m2)" "mg_pc m2 = MDone" by blast
  with leads_inv [OF l(1) inv] have "all_tasks m2 = []" by (simp add: manager_inv_def pc_inv_def)
  with l show ?thesis by (auto simp: leads_def)
qed

text \<open>A manager that waits with nothing unseen runs the tasks its configuration asks for.\<close>

lemma waiting_tasks:
  assumes "manager_inv (w, m)" and "mg_pc m = MWait" and "\<not> mg_changed m"
    and "distinct (map pc_name (cfg_peers (mg_config m)))"
  shows "tk_peer ` pt_task ` set (all_tasks m) = (if cfg_client (mg_config m) = None then {} else set (cfg_peers (mg_config m)))
    \<and> distinct (map (\<lambda>p. pc_name (tk_peer (pt_task p))) (all_tasks m))"
proof -
  from assms(1) have bag: "bag_inv m" and pc: "pc_inv m" by (simp_all add: manager_inv_def)
  from pc assms(2,3) have sync: "in_sync (mg_config m) (mg_tasks m)" and all: "all_tasks m = map snd (mg_tasks m)"
    by (simp_all add: pc_inv_def all_tasks_def)
  from bag have peer: "\<And>p. p \<in> set (all_tasks m) \<Longrightarrow> tk_peer (pt_task p) = pt_peer p"
    and "distinct (map task_name (all_tasks m))" by (simp_all add: bag_inv_def)
  then have d: "distinct (map (\<lambda>p. pc_name (tk_peer (pt_task p))) (all_tasks m))"
    by (simp add: task_name_def cong: map_cong)
  have "tk_peer ` pt_task ` set (all_tasks m) = pt_peer ` set (all_tasks m)" using peer by (force simp: image_image)
  moreover have "pt_peer ` set (all_tasks m) = set (cfg_peers (mg_config m))" if "cfg_client (mg_config m) \<noteq> None"
  proof -
    from sync that have s: "map_option pt_peer (map_of (mg_tasks m) n) = map_of (new_peers (cfg_peers (mg_config m))) n" for n
      by (auto simp: in_sync_def)
    show ?thesis
    proof (intro set_eqI iffI)
      fix q assume "q \<in> pt_peer ` set (all_tasks m)"
      then obtain n p where "(n, p) \<in> set (mg_tasks m)" "q = pt_peer p" by (auto simp: all)
      with s [of n] bag_names(1) [OF bag] new_peers_named show "q \<in> set (cfg_peers (mg_config m))"
        by (metis map_of_is_SomeI option.simps(9))
    next
      fix q assume "q \<in> set (cfg_peers (mg_config m))"
      with s [of "pc_name q"] new_peers_distinct [OF assms(4)] obtain p where
        "map_of (mg_tasks m) (pc_name q) = Some p" "pt_peer p = q" by auto
      then show "q \<in> pt_peer ` set (all_tasks m)" using map_of_SomeD by (force simp: all)
    qed
  qed
  moreover have "all_tasks m = []" if "cfg_client (mg_config m) = None" using sync that by (simp add: in_sync_def all)
  ultimately show ?thesis using d by auto
qed

section \<open>Properties\<close>

text \<open>
  C8. Whenever the manager waits and has seen the current configuration, there is exactly one
  session task for each configured peer, running with the current settings of that peer, and
  none besides; without a client section there is no task at all. This holds after any
  sequence of reloads, also ones that arrive while the manager is still stopping tasks.
\<close>

theorem tasks_match_config:
  assumes "run_steps manager_step (w, manager_start cfg0) es = Some (w', m)" and "mg_pc m = MWait" and "\<not> mg_changed m"
    and "distinct (map pc_name (cfg_peers (mg_config m)))"
  shows "tk_peer ` pt_task ` set (all_tasks m) = (if cfg_client (mg_config m) = None then {} else set (cfg_peers (mg_config m)))
    \<and> distinct (map (\<lambda>p. pc_name (tk_peer (pt_task p))) (all_tasks m))"
  using waiting_tasks [OF _ assms(2-4)] manager_run_inv [OF assms(1)] by (simp add: manager_inv_def)

theorem tasks_match_config_witness:
  "\<exists>w m. run_steps manager_step (fresh_world 0, manager_start example_config) [MgPoll, MgPoll] = Some (w, m)
     \<and> tk_peer ` pt_task ` set (all_tasks m) = {example_peer}"
  using tasks_match_config [OF example_started] example_started
  by (simp add: manager_start_def example_config_def)

text \<open>
  C9. No duplicate and no orphan: at every moment, also while tasks are being stopped, no two
  tasks serve the same peer name; the manager drops a task only after that task has ended; and
  when the manager has returned, no task is left.
\<close>

theorem one_task_per_peer:
  assumes "run_steps manager_step (w, manager_start cfg0) es = Some (w1, m1)" and "manager_step (w1, m1) e = Some (w2, m2)"
  shows "distinct (map (\<lambda>p. pc_name (tk_peer (pt_task p))) (all_tasks m1))
    \<and> (\<forall>p \<in> set (all_tasks m1). tk_pc (pt_task p) = KDone \<or> pt_handle p \<in> handles m2)
    \<and> (mg_pc m1 = MDone \<longrightarrow> all_tasks m1 = [])"
proof (intro conjI ballI impI)
  from manager_run_inv [OF assms(1)] have bag: "bag_inv m1" and pc: "pc_inv m1" by simp_all
  from bag have "distinct (map task_name (all_tasks m1))"
    and "\<And>p. p \<in> set (all_tasks m1) \<Longrightarrow> tk_peer (pt_task p) = pt_peer p" by (simp_all add: bag_inv_def)
  then show "distinct (map (\<lambda>p. pc_name (tk_peer (pt_task p))) (all_tasks m1))"
    by (simp add: task_name_def cong: map_cong)
  from pc show "all_tasks m1 = []" if "mg_pc m1 = MDone" using that by (simp add: pc_inv_def)
  fix p assume p: "p \<in> set (all_tasks m1)"
  then have h: "pt_handle p \<in> handles m1" by (simp add: handles_def)
  have inj: "inj_on pt_handle (set (all_tasks m1))" using bag by (simp add: bag_inv_def distinct_map)
  show "tk_pc (pt_task p) = KDone \<or> pt_handle p \<in> handles m2"
  proof (cases e)
    case MgPoll
    with assms(2) have "manager_poll m1 = Some m2" by (auto simp: manager_step_def)
    from poll_handles [OF this pc] h consider "pt_handle p \<in> handles m2"
      | q where "mg_await m1 = Some q" "tk_pc (pt_task q) = KDone" "pt_handle p = pt_handle q" by blast
    then show ?thesis
    proof cases
      case (2 q)
      then have "q \<in> set (all_tasks m1)" by (simp add: all_tasks_def)
      with 2 p inj have "q = p" by (metis inj_onD)
      with 2 show ?thesis by simp
    qed simp
  next
    case (MgStop name)
    with assms(2) have "manager_stop name m1 = Some m2" by (auto simp: manager_step_def)
    from stop_handles [OF this bag] h show ?thesis by blast
  next
    case (MgTask i te)
    with assms(2) h show ?thesis
      by (auto simp: manager_step_def manager_task_def split: task_event.splits option.splits)
  next
    case MgCancelled
    with assms(2) pc h show ?thesis
      by (auto simp: manager_step_def pc_inv_def manager_shutdown_def handles_eq split: if_splits)
  qed (use assms(2) h in \<open>auto simp: manager_step_def handles_eq split: if_splits\<close>)
qed

theorem one_task_per_peer_witness:
  "\<exists>w m m'. run_steps manager_step (fresh_world 0, manager_start example_config)
       ([MgPoll, MgPoll] @ [MgConfig example_config, MgPoll]) = Some (w, m)
     \<and> manager_step (w, m) MgPoll = Some (w, m') \<and> pt_handle example_task_entry \<in> handles m'"
proof -
  let ?m = "(manager_start example_config)\<lparr>mg_tasks := [(pc_name example_peer, example_task_entry)],
       mg_next := 1, mg_last := Some example_client, mg_pc := MHead, mg_changed := True\<rparr>"
  have "manager_step (fresh_world 0, ?m) MgPoll = Some (fresh_world 0, manager_head ?m)"
    by (simp add: manager_step_def manager_poll_def manager_start_def)
  moreover have "example_task_entry \<in> set (all_tasks ?m)" "tk_pc (pt_task example_task_entry) \<noteq> KDone"
    by (simp_all add: all_tasks_def manager_start_def example_task_entry_def task_spawn_def)
  ultimately show ?thesis using one_task_per_peer [OF example_reload] example_reload by blast
qed

text \<open>
  C10. A reload does not disturb a peer whose entry did not change: in the whole round that
  applies a configuration, from its head to the last task stopped and the missing ones
  spawned, the task of such a peer stays exactly as it is.
\<close>

theorem unchanged_peer_keeps_task:
  assumes "run_steps manager_step (w, manager_start cfg0) es = Some (w1, m1)"
    and "(mg_pc m1 = MHead \<and> mg_config m1 = cfg \<and> cfg_client cfg \<noteq> None) \<or> (\<exists>cc names. mg_pc m1 = MRemove cfg cc names)"
    and "map_of (mg_tasks m1) n = Some p" and "map_of (new_peers (cfg_peers cfg)) n = Some (pt_peer p)"
    and "e = MgPoll \<or> (\<exists>name. e = MgStop name)" and "manager_step (w1, m1) e = Some (w2, m2)"
  shows "map_of (mg_tasks m2) n = Some p"
proof -
  from manager_run_inv [OF assms(1)] have pc: "pc_inv m1" by simp
  from assms(5,6) consider "manager_poll m1 = Some m2" | name where "manager_stop name m1 = Some m2"
    by (auto simp: manager_step_def)
  then show ?thesis
  proof cases
    case 1
    show ?thesis
    proof (cases "\<exists>cc names. mg_pc m1 = MRemove cfg cc names")
      case True
      then obtain cc names where r: "mg_pc m1 = MRemove cfg cc names" by blast
      obtain new where "mg_tasks (spawn_missing cc (nc_name (cfg_node cfg)) (new_peers (cfg_peers cfg)) m1) = mg_tasks m1 @ new"
        using spawn_missing_keeps by blast
      with 1 r assms(3) show ?thesis by (auto simp: manager_poll_def split: option.splits if_splits)
    next
      case False
      with 1 assms(2,3) pc show ?thesis
        by (auto simp: manager_poll_def manager_head_def Let_def pc_inv_def split: option.splits)
    qed
  next
    case (2 name)
    then obtain cc names where r: "mg_pc m1 = MRemove cfg cc names"
      using assms(2) by (auto simp: manager_stop_def split: if_splits)
    with pc assms(3,4) have "n \<notin> set names" by (auto simp: pc_inv_def)
    with 2 r assms(3) show ?thesis
      by (auto simp: manager_stop_def Let_def AList.delete_conv split: if_splits option.splits)
  qed
qed

theorem unchanged_peer_keeps_task_witness:
  "\<exists>w m m'. run_steps manager_step (fresh_world 0, manager_start example_config)
       ([MgPoll, MgPoll] @ [MgConfig example_config, MgPoll]) = Some (w, m)
     \<and> manager_step (w, m) MgPoll = Some (w, m') \<and> map_of (mg_tasks m') (pc_name example_peer) = Some example_task_entry"
proof -
  let ?m = "(manager_start example_config)\<lparr>mg_tasks := [(pc_name example_peer, example_task_entry)],
       mg_next := 1, mg_last := Some example_client, mg_pc := MHead, mg_changed := True\<rparr>"
  have step: "manager_step (fresh_world 0, ?m) MgPoll = Some (fresh_world 0, manager_head ?m)"
    by (simp add: manager_step_def manager_poll_def manager_start_def)
  have "map_of (mg_tasks (manager_head ?m)) (pc_name example_peer) = Some example_task_entry"
    by (rule unchanged_peer_keeps_task [OF example_reload _ _ _ _ step, where cfg = example_config])
      (simp_all add: manager_start_def example_config_def new_peers_def example_task_entry_def)
  with example_reload step show ?thesis by blast
qed

text \<open>
  The manager's part of a shutdown: once the token is cancelled, whatever the manager is doing, it and its
  tasks can finish by their own steps alone, without any help from the network, the clock or
  the config channel, and then the manager has returned and no task is left.
\<close>

theorem shutdown_completes:
  assumes "run_steps manager_step (w, manager_start cfg0) es = Some (w1, m1)" and "mg_cancelled m1"
  shows "\<exists>fs w2 m2. list_all own_event fs \<and> run_steps manager_step (w1, m1) fs = Some (w2, m2)
    \<and> mg_pc m2 = MDone \<and> all_tasks m2 = []"
  using manager_finishes [OF _ assms(2)] manager_run_inv [OF assms(1)] by (simp add: manager_inv_def)

theorem shutdown_completes_witness:
  "\<exists>fs w2 m2. list_all own_event fs
     \<and> run_steps manager_step (fresh_world 0, manager_start example_config) ([MgPoll, MgPoll] @ [MgCancel] @ fs) = Some (w2, m2)
     \<and> mg_pc m2 = MDone \<and> all_tasks m2 = []"
proof -
  have "\<exists>m1. run_steps manager_step (fresh_world 0, manager_start example_config) ([MgPoll, MgPoll] @ [MgCancel])
      = Some (fresh_world 0, m1) \<and> mg_cancelled m1"
    by (subst run_steps_appendI [OF example_started]) (simp add: manager_step_def)
  then obtain m1 where r: "run_steps manager_step (fresh_world 0, manager_start example_config) ([MgPoll, MgPoll] @ [MgCancel])
      = Some (fresh_world 0, m1)" "mg_cancelled m1" by blast
  from shutdown_completes [OF this] run_steps_appendI [OF r(1)] show ?thesis by (simp only: append_assoc)
qed

end
