(* ===== verification/App.thy ===== *)
theory App
  imports Server Manager
begin

text \<open>
  \<open>src/main.rs\<close>: the command line, the start-up sequence with its early exits, the reload on
  SIGHUP, the supervision of the three long-running tasks, the shutdown with its exit code,
  and the metrics handler. The file system, the TOML reader, the operating system's \<open>bind\<close>
  and the text encoder of the metrics crate are parameters.
\<close>

section \<open>Command line\<close>

definition DEFAULT_CONFIG_PATH :: rstr where
  "DEFAULT_CONFIG_PATH = lit ''/etc/tcp-monitor/config.toml''"

datatype command = Run rstr | Help

datatype arg_error = PathRequired | UnknownArgument rstr | UnexpectedArgument rstr

definition no_more :: "command \<Rightarrow> rstr list \<Rightarrow> arg_error + command" where
  "no_more command args =
     (case args of [] \<Rightarrow> Inr command | extra # _ \<Rightarrow> Inl (UnexpectedArgument extra))"

definition parse_args :: "rstr list \<Rightarrow> arg_error + command" where
  "parse_args args =
     (case args of
        [] \<Rightarrow> no_more (Run DEFAULT_CONFIG_PATH) []
      | arg # rest \<Rightarrow>
          if arg = lit ''--config'' then
            (case rest of [] \<Rightarrow> Inl PathRequired | path # rest' \<Rightarrow> no_more (Run path) rest')
          else if arg = lit ''--help'' \<or> arg = lit ''-h'' then no_more Help rest
          else Inl (UnknownArgument arg))"

definition print_help :: "rstr list" where
  "print_help =
     [lit ''Usage: tcp-monitor [--config <path>]'',
      lit ''  Default config path: '' @ DEFAULT_CONFIG_PATH,
      lit ''  Log level:           LOG_LEVEL=debug (env var)'']"

section \<open>Start-up\<close>

datatype exit_code = SUCCESS | FAILURE

datatype started = Exit exit_code | Serve rstr config listeners socket_addr

definition metrics_addr :: "u16 \<Rightarrow> socket_addr" where
  "metrics_addr port = \<lparr>sa_ip = V4 [0, 0, 0, 0], sa_port = unat port\<rparr>"

definition start_up ::
    "(rstr \<Rightarrow> rstr io_result) \<Rightarrow> (rstr \<Rightarrow> rstr + raw_config) \<Rightarrow> (socket_addr \<Rightarrow> io_kind option)
       \<Rightarrow> rstr list \<Rightarrow> started" where
  "start_up read_file from_toml os_bind args =
     (case parse_args args of
        Inl _ \<Rightarrow> Exit FAILURE
      | Inr Help \<Rightarrow> Exit SUCCESS
      | Inr (Run config_path) \<Rightarrow>
          (case load read_file from_toml config_path of
             Inl _ \<Rightarrow> Exit FAILURE
           | Inr initial_config \<Rightarrow>
               (case listeners_bind os_bind (cfg_server initial_config) of
                  Inl _ \<Rightarrow> Exit FAILURE
                | Inr ls \<Rightarrow>
                    (let addr = metrics_addr (sc_metrics_port (cfg_server initial_config))
                     in case os_bind addr of
                          Some _ \<Rightarrow> Exit FAILURE
                        | None \<Rightarrow> Serve config_path initial_config ls addr))))"

section \<open>Supervision and shutdown\<close>

text \<open>A spawned task as its \<open>JoinHandle\<close> shows it: running, or ended with or without a panic.\<close>

datatype join = Live | Ended bool

datatype handle = ServerHandle | ClientHandle | MetricsHandle

fun handle_name :: "handle \<Rightarrow> string" where
  "handle_name ServerHandle = ''server''"
| "handle_name ClientHandle = ''client manager''"
| "handle_name MetricsHandle = ''metrics server''"

text \<open>The errors \<open>main\<close> reports about its tasks; \<open>ok\<close> is whether the handle gave no \<open>JoinError\<close>.\<close>

datatype task_report =
    StoppedUnexpectedly string
  | TaskFailed string
  | FailedDuringShutdown string

definition report_early_stop :: "string \<Rightarrow> bool \<Rightarrow> task_report" where
  "report_early_stop task ok = (if ok then StoppedUnexpectedly task else TaskFailed task)"

text \<open>
  \<open>cancel_token_signal\<close> at one poll, from what its two futures yield: \<open>ctrl_c\<close> resolves on
  Ctrl-C, or with an error when its handler cannot be installed; \<open>terminate\<close> counts only if the
  SIGTERM handler was installed, otherwise that branch is pending for ever.
\<close>

definition cancel_token_signal :: "bool \<Rightarrow> unit io_result poll \<Rightarrow> unit poll \<Rightarrow> bool" where
  "cancel_token_signal installed ctrl_c terminate \<longleftrightarrow>
     ctrl_c \<noteq> Pending \<or> (installed \<and> terminate \<noteq> Pending)"

text \<open>
  \<open>Joining early exit rest\<close>: the select is over, \<open>early\<close> is the handle that completed it if
  no signal did, \<open>exit\<close> the code so far and \<open>rest\<close> the handles still to be awaited.
\<close>

datatype phase =
    Selecting
  | Joining "handle option" exit_code "handle list"
  | Exited exit_code

record process =
  ap_path :: rstr
  ap_config :: config
  ap_tx_main :: bool
  ap_tx_sighup :: bool
  ap_rx_server :: bool
  ap_rx_client :: bool
  ap_sigterm :: bool
  ap_cancelled :: bool
  ap_join :: "handle \<Rightarrow> join"
  ap_errors :: "task_report list"
  ap_phase :: phase

datatype process_event =
    ApSighup "rstr \<Rightarrow> rstr io_result"
  | ApSighupInitFailed
  | ApSigtermInitFailed
  | ApSignal "unit io_result poll" "unit poll"
  | ApWatcherEnds
  | ApEnds handle bool
  | ApSelect handle
  | ApJoin

definition process_start :: "rstr \<Rightarrow> config \<Rightarrow> process" where
  "process_start path cfg =
     \<lparr>ap_path = path, ap_config = cfg, ap_tx_main = True, ap_tx_sighup = True, ap_rx_server = True,
      ap_rx_client = True, ap_sigterm = True, ap_cancelled = False, ap_join = (\<lambda>_. Live),
      ap_errors = [], ap_phase = Selecting\<rparr>"

text \<open>\<open>watch_sighup\<close>, for one SIGHUP: sending fails, and ends the task, without any receiver.\<close>

definition watch_sighup ::
    "(rstr \<Rightarrow> rstr + raw_config) \<Rightarrow> (rstr \<Rightarrow> rstr io_result) \<Rightarrow> process \<Rightarrow> process" where
  "watch_sighup from_toml read_file p =
     (case load read_file from_toml (ap_path p) of
        Inl _ \<Rightarrow> p
      | Inr new_cfg \<Rightarrow>
          if ap_rx_server p \<or> ap_rx_client p then p\<lparr>ap_config := new_cfg\<rparr>
          else p\<lparr>ap_tx_sighup := False\<rparr>)"

text \<open>From the select to the first await: the report, the token, the sender, the metrics server.\<close>

definition shut_down :: "handle option \<Rightarrow> process \<Rightarrow> process" where
  "shut_down early p =
     p\<lparr>ap_errors := ap_errors p @
         (case early of None \<Rightarrow> []
          | Some h \<Rightarrow> [report_early_stop (handle_name h) (ap_join p h = Ended True)]),
       ap_cancelled := True, ap_tx_main := False,
       ap_join := (\<lambda>h. if h = MetricsHandle \<and> ap_join p h = Live then Ended False else ap_join p h),
       ap_phase := Joining early (if early = None then SUCCESS else FAILURE)
                     (filter (\<lambda>h. early \<noteq> Some h) [ServerHandle, ClientHandle])\<rparr>"

definition join_next :: "process \<Rightarrow> process option" where
  "join_next p =
     (case ap_phase p of
        Joining early exit [] \<Rightarrow> Some (p\<lparr>ap_phase := Exited exit\<rparr>)
      | Joining early exit (h # rest) \<Rightarrow>
          (case ap_join p h of
             Live \<Rightarrow> None
           | Ended ok \<Rightarrow>
               Some (p\<lparr>ap_errors := ap_errors p @ (if ok then [] else [FailedDuringShutdown (handle_name h)]),
                       ap_phase := Joining early (if ok then exit else FAILURE) rest\<rparr>))
      | _ \<Rightarrow> None)"

definition process_step ::
    "(rstr \<Rightarrow> rstr + raw_config) \<Rightarrow> process \<Rightarrow> process_event \<Rightarrow> process option" where
  "process_step from_toml p e =
     (case e of
        ApSighup read_file \<Rightarrow> if ap_tx_sighup p then Some (watch_sighup from_toml read_file p) else None
      | ApSighupInitFailed \<Rightarrow> if ap_tx_sighup p then Some (p\<lparr>ap_tx_sighup := False\<rparr>) else None
      | ApSigtermInitFailed \<Rightarrow> Some (p\<lparr>ap_sigterm := False\<rparr>)
      | ApSignal ctrl_c terminate \<Rightarrow>
          if ap_phase p = Selecting \<and> cancel_token_signal (ap_sigterm p) ctrl_c terminate
          then Some (shut_down None p) else None
      | ApWatcherEnds \<Rightarrow> Some (p\<lparr>ap_rx_server := False\<rparr>)
      | ApEnds h ok \<Rightarrow>
          if ap_join p h = Live
          then Some (p\<lparr>ap_join := (ap_join p)(h := Ended ok),
                       ap_rx_client := ap_rx_client p \<and> h \<noteq> ClientHandle\<rparr>)
          else None
      | ApSelect h \<Rightarrow>
          if ap_phase p = Selecting \<and> ap_join p h \<noteq> Live then Some (shut_down (Some h) p) else None
      | ApJoin \<Rightarrow> join_next p)"

text \<open>The config channel is closed when no sender is left.\<close>

definition channel_closed :: "process \<Rightarrow> bool" where
  "channel_closed p \<longleftrightarrow> \<not> ap_tx_main p \<and> \<not> ap_tx_sighup p"

section \<open>The metrics endpoint\<close>

text \<open>\<open>rs_content_type\<close> is the header the handler sets itself.\<close>

record response =
  rs_status :: nat
  rs_content_type :: "string option"
  rs_body :: rstr

definition encode_metrics :: "(metrics \<Rightarrow> unit + rstr) \<Rightarrow> metrics \<Rightarrow> unit + rstr" where
  "encode_metrics text_encode m = text_encode m"

definition metrics_handler :: "(metrics \<Rightarrow> unit + rstr) \<Rightarrow> metrics \<Rightarrow> response" where
  "metrics_handler text_encode m =
     (case encode_metrics text_encode m of
        Inl _ \<Rightarrow>
          \<lparr>rs_status = 500, rs_content_type = None, rs_body = lit ''encode error''\<rparr>
      | Inr buf \<Rightarrow>
          \<lparr>rs_status = 200, rs_content_type = Some ''text/plain; version=0.0.4; charset=utf-8'', rs_body = buf\<rparr>)"

section \<open>Invariants\<close>

definition config_inv :: "process \<Rightarrow> bool" where
  "config_inv p \<longleftrightarrow> config_ok (ap_config p)"

text \<open>
  Until the select is over nothing is cancelled and \<open>main\<close> holds its sender; after it, the
  code is SUCCESS only if no task ended early and none awaited so far panicked.
\<close>

definition exit_inv :: "process \<Rightarrow> bool" where
  "exit_inv p =
     (case ap_phase p of
        Selecting \<Rightarrow> \<not> ap_cancelled p \<and> ap_tx_main p
      | Joining early exit rest \<Rightarrow>
          ap_cancelled p \<and> \<not> ap_tx_main p \<and> set rest \<subseteq> {ServerHandle, ClientHandle} \<and> distinct rest
          \<and> (\<forall>h. early = Some h \<longrightarrow> h \<notin> set rest)
          \<and> (\<forall>h \<in> {ServerHandle, ClientHandle}. h \<notin> set rest \<longrightarrow> ap_join p h \<noteq> Live)
          \<and> (exit = SUCCESS \<longleftrightarrow>
               early = None \<and> (\<forall>h \<in> {ServerHandle, ClientHandle}. h \<in> set rest \<or> ap_join p h = Ended True))
      | Exited exit \<Rightarrow>
          ap_cancelled p \<and> \<not> ap_tx_main p
          \<and> ap_join p ServerHandle \<noteq> Live \<and> ap_join p ClientHandle \<noteq> Live
          \<and> (exit = SUCCESS \<longrightarrow> ap_join p ServerHandle = Ended True \<and> ap_join p ClientHandle = Ended True))"

interpretation process_config: stepper "process_step from_toml" config_inv for from_toml
proof
  fix p p' e
  assume step: "process_step from_toml p e = Some p'" and inv: "config_inv p"
  have "config_inv (watch_sighup from_toml rf p)" for rf
    using inv by (auto simp: watch_sighup_def config_inv_def load_ok split: sum.splits)
  with step inv show "config_inv p'"
    by (cases e) (auto simp: process_step_def config_inv_def shut_down_def join_next_def
        split: if_splits phase.splits list.splits join.splits)
qed

lemma exit_inv_update [simp]:
  "exit_inv (p\<lparr>ap_sigterm := b\<rparr>) = exit_inv p" "exit_inv (p\<lparr>ap_rx_server := b\<rparr>) = exit_inv p"
  "exit_inv (p\<lparr>ap_tx_sighup := b\<rparr>) = exit_inv p" "exit_inv (p\<lparr>ap_config := cfg\<rparr>) = exit_inv p"
  by (cases "ap_phase p"; simp add: exit_inv_def)+

lemma shut_down_inv:
  assumes "\<And>h. early = Some h \<Longrightarrow> ap_join p h \<noteq> Live"
  shows "exit_inv (shut_down early p)"
  using assms by (cases early) (auto simp: exit_inv_def shut_down_def)

lemma join_next_inv:
  assumes "join_next p = Some p'" and "exit_inv p"
  shows "exit_inv p'"
proof (cases "ap_phase p")
  case (Joining early exit rest)
  show ?thesis
  proof (cases rest)
    case Nil
    with Joining assms show ?thesis by (auto simp: join_next_def exit_inv_def)
  next
    case (Cons h hs)
    with Joining assms obtain ok log where ok: "ap_join p h = Ended ok"
      and p': "p' = p\<lparr>ap_errors := log, ap_phase := Joining early (if ok then exit else FAILURE) hs\<rparr>"
      by (auto simp: join_next_def split: join.splits)
    from Joining Cons assms(2) have "h = ServerHandle \<or> h = ClientHandle" by (simp add: exit_inv_def)
    with Joining Cons assms(2) ok show ?thesis by (cases ok) (auto simp: p' exit_inv_def)
  qed
qed (use assms in \<open>auto simp: join_next_def\<close>)

interpretation process_exit: stepper "process_step from_toml" exit_inv for from_toml
proof
  fix p p' e
  assume step: "process_step from_toml p e = Some p'" and inv: "exit_inv p"
  have hup: "exit_inv (watch_sighup from_toml rf p)" for rf
    using inv by (simp add: watch_sighup_def split: sum.splits)
  show "exit_inv p'"
  proof (cases e)
    case ApJoin
    with step inv join_next_inv show ?thesis by (simp add: process_step_def)
  next
    case (ApEnds h ok)
    with step inv show ?thesis
      by (cases "ap_phase p") (auto simp: process_step_def exit_inv_def split: if_splits)
  next
    case (ApSignal c t)
    with step shut_down_inv [of None p] show ?thesis by (simp add: process_step_def split: if_splits)
  next
    case (ApSelect h)
    with step shut_down_inv [of "Some h" p] show ?thesis by (simp add: process_step_def split: if_splits)
  next
    case (ApSighup rf)
    with step hup show ?thesis by (auto simp: process_step_def split: if_splits)
  qed (use step inv in \<open>auto simp: process_step_def split: if_splits\<close>)
qed

lemma process_start_inv: "exit_inv (process_start path cfg)" "config_ok cfg \<Longrightarrow> config_inv (process_start path cfg)"
  by (simp_all add: exit_inv_def config_inv_def process_start_def)

section \<open>Histories\<close>

text \<open>
  Ghost values that the events determine: the configuration of the last reload that succeeded,
  whether the SIGHUP handler failed to install, and the task that completed the select.
\<close>

definition reloaded :: "(rstr \<Rightarrow> rstr + raw_config) \<Rightarrow> rstr \<Rightarrow> config \<Rightarrow> process_event \<Rightarrow> config" where
  "reloaded from_toml path c e =
     (case e of
        ApSighup read_file \<Rightarrow> (case load read_file from_toml path of Inl _ \<Rightarrow> c | Inr c' \<Rightarrow> c')
      | _ \<Rightarrow> c)"

definition early_stop :: "handle option \<Rightarrow> process_event \<Rightarrow> handle option" where
  "early_stop g e = (case e of ApSelect h \<Rightarrow> Some h | _ \<Rightarrow> g)"

text \<open>
  Why the select of \<open>main\<close> was over, from the events alone: a signal, a Ctrl-C handler that could
  not be installed, or the end of a task. \<open>installed\<close>: the SIGTERM handler is in place.
\<close>

datatype end_cause = SignalReceived | CtrlCFailed | TaskEnded handle

fun stop_cause :: "bool \<Rightarrow> process_event list \<Rightarrow> end_cause option" where
  "stop_cause installed [] = None"
| "stop_cause installed (ApSigtermInitFailed # es) = stop_cause False es"
| "stop_cause installed (ApSignal ctrl_c terminate # es) =
     Some (if ctrl_c = Ready (Inr ()) \<or> (installed \<and> terminate = Ready ()) then SignalReceived else CtrlCFailed)"
| "stop_cause installed (ApSelect h # es) = Some (TaskEnded h)"
| "stop_cause installed (_ # es) = stop_cause installed es"

definition ended_by :: "end_cause option \<Rightarrow> handle option" where
  "ended_by cause = (case cause of Some (TaskEnded h) \<Rightarrow> Some h | _ \<Rightarrow> None)"

definition has_receiver :: "process \<Rightarrow> bool" where
  "has_receiver p \<longleftrightarrow> ap_rx_server p \<or> ap_rx_client p"

definition reload_inv :: "rstr \<Rightarrow> config \<times> process \<Rightarrow> bool" where
  "reload_inv path s \<longleftrightarrow>
     ap_path (snd s) = path \<and> (has_receiver (snd s) \<longrightarrow> ap_config (snd s) = fst s)"

definition channel_inv :: "bool \<times> process \<Rightarrow> bool" where
  "channel_inv s \<longleftrightarrow> (has_receiver (snd s) \<longrightarrow> ap_tx_sighup (snd s) \<or> fst s)"

text \<open>The code is SUCCESS as long as no error about a task was reported.\<close>

fun log_inv :: "task_report list \<Rightarrow> phase \<Rightarrow> bool" where
  "log_inv log Selecting \<longleftrightarrow> log = []"
| "log_inv log (Joining early exit rest) \<longleftrightarrow> (exit = SUCCESS \<longleftrightarrow> log = [])"
| "log_inv log (Exited exit) \<longleftrightarrow> (exit = SUCCESS \<longleftrightarrow> log = [])"

text \<open>What the exit code says, given the early stop and how the server and the manager ended.\<close>

fun code_inv :: "handle option \<Rightarrow> join \<Rightarrow> join \<Rightarrow> phase \<Rightarrow> bool" where
  "code_inv g server client Selecting \<longleftrightarrow> g = None"
| "code_inv g server client (Joining early exit rest) \<longleftrightarrow> g = early"
| "code_inv g server client (Exited exit) \<longleftrightarrow>
     (exit = SUCCESS \<longleftrightarrow> g = None \<and> server = Ended True \<and> client = Ended True)"

definition early_inv :: "handle option \<times> process \<Rightarrow> bool" where
  "early_inv s =
     (case s of (g, p) \<Rightarrow>
        exit_inv p \<and> code_inv g (ap_join p ServerHandle) (ap_join p ClientHandle) (ap_phase p))"

lemmas process_step_splits =
  process_event.splits phase.splits list.splits join.splits sum.splits if_splits

interpretation process_reload: stepper "with_ghost (process_step from_toml) (reloaded from_toml path)" "reload_inv path"
  for from_toml path
proof
  fix s s' e
  assume "with_ghost (process_step from_toml) (reloaded from_toml path) s e = Some s'" and "reload_inv path s"
  then show "reload_inv path s'"
    by (auto simp: with_ghost_def reload_inv_def has_receiver_def reloaded_def process_step_def watch_sighup_def
        shut_down_def join_next_def split: process_step_splits)
qed

interpretation process_log: stepper "process_step from_toml" "\<lambda>p. log_inv (ap_errors p) (ap_phase p)" for from_toml
proof
  fix p p' e
  assume step: "process_step from_toml p e = Some p'" and inv: "log_inv (ap_errors p) (ap_phase p)"
  have down: "log_inv (ap_errors (shut_down early p)) (ap_phase (shut_down early p))" if "ap_phase p = Selecting" for early
    using inv that by (cases early) (simp_all add: shut_down_def)
  have join: "log_inv (ap_errors q) (ap_phase q)" if "join_next p = Some q" for q
    using inv that by (auto simp: join_next_def split: phase.splits list.splits join.splits if_splits)
  from step inv down join show "log_inv (ap_errors p') (ap_phase p')"
    by (cases e) (auto simp: process_step_def watch_sighup_def split: if_splits sum.splits)
qed

interpretation process_channel:
  stepper "with_ghost (process_step from_toml) (\<lambda>g e. g \<or> e = ApSighupInitFailed)" channel_inv for from_toml
proof
  fix s s' e
  assume "with_ghost (process_step from_toml) (\<lambda>g e. g \<or> e = ApSighupInitFailed) s e = Some s'" and "channel_inv s"
  then show "channel_inv s'"
    by (auto simp: with_ghost_def channel_inv_def has_receiver_def process_step_def watch_sighup_def
        shut_down_def join_next_def split: process_step_splits)
qed

lemma early_inv_join:
  assumes step: "join_next p = Some p'" and inv: "early_inv (g, p)"
  shows "early_inv (g, p')"
proof -
  from inv have e: "exit_inv p" by (simp add: early_inv_def)
  with join_next_inv [OF step] have e': "exit_inv p'" by simp
  from step obtain early exit rest where ph: "ap_phase p = Joining early exit rest"
    by (auto simp: join_next_def split: phase.splits)
  with inv have g: "g = early" by (simp add: early_inv_def)
  show ?thesis
  proof (cases rest)
    case Nil
    with ph step have p': "p' = p\<lparr>ap_phase := Exited exit\<rparr>" by (simp add: join_next_def)
    from e ph Nil have "exit = SUCCESS \<longleftrightarrow>
        early = None \<and> ap_join p ServerHandle = Ended True \<and> ap_join p ClientHandle = Ended True"
      by (simp add: exit_inv_def)
    with e' g show ?thesis by (simp add: early_inv_def p')
  next
    case (Cons h hs)
    with ph step obtain ok where "ap_phase p' = Joining early (if ok then exit else FAILURE) hs"
      by (cases "ap_join p h") (auto simp: join_next_def)
    with e' g show ?thesis by (simp add: early_inv_def)
  qed
qed

interpretation process_early: stepper "with_ghost (process_step from_toml) early_stop" early_inv for from_toml
proof
  fix s s' e
  assume step: "with_ghost (process_step from_toml) early_stop s e = Some s'" and inv: "early_inv s"
  obtain g p where s: "s = (g, p)" by (cases s)
  from step s obtain p' where p': "process_step from_toml p e = Some p'" "s' = (early_stop g e, p')"
    by (auto simp: with_ghost_def)
  from inv s have e: "exit_inv p" by (simp add: early_inv_def)
  from process_exit.inv_step [OF p'(1) e] have e': "exit_inv p'" .
  show "early_inv s'"
  proof (cases e)
    case ApJoin
    with p' early_inv_join [of p p' g] inv s show ?thesis by (simp add: process_step_def early_stop_def)
  next
    case (ApEnds h ok)
    with p' have live: "ap_join p h = Live" and same: "ap_phase p' = ap_phase p" "ap_join p' = (ap_join p)(h := Ended ok)"
      by (auto simp: process_step_def split: if_splits)
    have "ap_join p' ServerHandle = ap_join p ServerHandle" "ap_join p' ClientHandle = ap_join p ClientHandle"
      if "ap_phase p = Exited x" for x
    proof -
      from e that have "ap_join p ServerHandle \<noteq> Live" "ap_join p ClientHandle \<noteq> Live" by (simp_all add: exit_inv_def)
      with live show "ap_join p' ServerHandle = ap_join p ServerHandle" "ap_join p' ClientHandle = ap_join p ClientHandle"
        by (auto simp: same)
    qed
    with p' inv s e' same(1) ApEnds show ?thesis
      by (cases "ap_phase p") (simp_all add: early_stop_def early_inv_def)
  next
    case (ApSighup rf)
    with p' inv s e' show ?thesis
      by (cases "ap_phase p")
        (auto simp: process_step_def watch_sighup_def early_stop_def early_inv_def split: if_splits sum.splits)
  qed (use p' inv s e' in \<open>auto simp: process_step_def shut_down_def early_stop_def early_inv_def split: if_splits\<close>)
qed

text \<open>The select is over exactly when it has a cause.\<close>

lemma after_select:
  assumes "run_steps (process_step from_toml) p es = Some p'" and "ap_phase p \<noteq> Selecting"
  shows "ap_phase p' \<noteq> Selecting \<and> foldl early_stop g es = g"
  using assms
proof (induction es arbitrary: p)
  case (Cons e es)
  from Cons.prems obtain q where q: "process_step from_toml p e = Some q" "run_steps (process_step from_toml) q es = Some p'"
    by (auto split: option.splits)
  with Cons.prems(2) have "ap_phase q \<noteq> Selecting" "early_stop g e = g"
    by (cases e; auto simp: process_step_def watch_sighup_def join_next_def early_stop_def
        split: if_splits sum.splits phase.splits list.splits join.splits)+
  with Cons.IH [OF q(2)] show ?case by simp
qed simp

lemma selecting_step:
  assumes "process_step from_toml p e = Some q" and "ap_phase p = Selecting"
  shows "(ap_phase q = Selecting \<and> early_stop None e = None
      \<and> stop_cause (ap_sigterm p) (e # es) = stop_cause (ap_sigterm q) es)
    \<or> (\<exists>cause. ap_phase q \<noteq> Selecting \<and> early_stop None e = ended_by (Some cause)
      \<and> stop_cause (ap_sigterm p) (e # es) = Some cause)"
  using assms
  by (cases e) (auto simp: process_step_def watch_sighup_def shut_down_def join_next_def early_stop_def ended_by_def
      split: if_splits sum.splits)

lemma stop_cause_run:
  assumes "run_steps (process_step from_toml) p es = Some p'" and "ap_phase p = Selecting"
  shows "(stop_cause (ap_sigterm p) es = None \<longleftrightarrow> ap_phase p' = Selecting)
    \<and> foldl early_stop None es = ended_by (stop_cause (ap_sigterm p) es)"
  using assms
proof (induction es arbitrary: p)
  case (Cons e es)
  from Cons.prems obtain q where q: "process_step from_toml p e = Some q" "run_steps (process_step from_toml) q es = Some p'"
    by (auto split: option.splits)
  from selecting_step [OF q(1) Cons.prems(2), of es] show ?case
  proof (elim disjE exE conjE)
    assume "ap_phase q = Selecting" "early_stop None e = None"
      "stop_cause (ap_sigterm p) (e # es) = stop_cause (ap_sigterm q) es"
    with Cons.IH [OF q(2)] show ?thesis by simp
  next
    fix cause
    assume "ap_phase q \<noteq> Selecting" "early_stop None e = ended_by (Some cause)"
      "stop_cause (ap_sigterm p) (e # es) = Some cause"
    with after_select [OF q(2)] show ?thesis by simp
  qed
qed (simp add: ended_by_def)

lemma ended_by_None: "ended_by (Some cause) = None \<longleftrightarrow> cause = SignalReceived \<or> cause = CtrlCFailed"
  by (simp add: ended_by_def split: end_cause.splits)

text \<open>A TOML reader that yields the example configuration for every text.\<close>

definition example_raw :: raw_config where
  "example_raw =
     \<lparr>raw_node = \<lparr>nc_name = lit ''n1''\<rparr>, raw_server = example_server,
      raw_clientsec = Some \<lparr>rc_heartbeat_interval = None, rc_max_misses = Some 3, rc_reconnect_delay = None\<rparr>,
      raw_peers = Some [\<lparr>rp_name = lit ''n2'', rp_host = lit ''n2.example'', rp_heartbeat_port = None\<rparr>]\<rparr>"

lemma example_load: "load (\<lambda>_. Inr []) (\<lambda>_. Inr example_raw) path = Inr example_config"
proof -
  have "fill_config example_raw = example_config"
    by (simp add: fill_config_def fill_client_def fill_peer_def or_default_def example_raw_def example_config_def
        example_client_def example_peer_def default_heartbeat_interval_def default_reconnect_delay_def
        default_peer_heartbeat_port_def)
  moreover have "validate example_config = Inr ()" by (simp add: validate_iff_ok example_config_ok)
  ultimately show ?thesis by (simp add: load_def parse_def Let_def)
qed

text \<open>What the start-up amounts to once the configuration is loaded.\<close>

lemma start_up_result:
  assumes "parse_args args = Inr (Run path)" and "load read_file from_toml path = Inr cfg"
  shows "\<exists>hb pb mt. config_ok cfg
    \<and> parse_socket_addr (sc_bind (cfg_server cfg) @ colon # show_nat (sa_port hb)) = Some hb
    \<and> parse_socket_addr (sc_bind (cfg_server cfg) @ colon # show_nat (sa_port pb)) = Some pb
    \<and> sa_port hb = unat (sc_heartbeat_port (cfg_server cfg)) \<and> sa_port pb = unat (sc_probe_port (cfg_server cfg))
    \<and> sa_ip pb = sa_ip hb \<and> mt = \<lparr>sa_ip = V4 [0, 0, 0, 0], sa_port = unat (sc_metrics_port (cfg_server cfg))\<rparr>
    \<and> distinct [sa_port hb, sa_port pb, sa_port mt]
    \<and> start_up read_file from_toml os_bind args =
        (if os_bind hb = None \<and> os_bind pb = None \<and> os_bind mt = None
         then Serve path cfg \<lparr>ls_heartbeat = hb, ls_probe = pb\<rparr> mt else Exit FAILURE)"
proof -
  let ?s = "cfg_server cfg"
  from load_ok [OF assms(2)] have ok: "config_ok cfg" .
  then have "parse_socket_addr (sc_bind ?s @ lit '':0'') \<noteq> None"
    and ports: "distinct [sc_heartbeat_port ?s, sc_metrics_port ?s, sc_probe_port ?s]"
    by (simp_all add: config_ok_def server_ok_def)
  then obtain a where "bind_addr (sc_bind ?s) 0 = Inr a" using bind_addr_zero by blast
  from bind_addr_any_port [OF this]
  have addr: "bind_addr (sc_bind ?s) port = Inr \<lparr>sa_ip = sa_ip a, sa_port = unat port\<rparr>" for port by (cases a) simp
  let ?hb = "\<lparr>sa_ip = sa_ip a, sa_port = unat (sc_heartbeat_port ?s)\<rparr>"
  let ?pb = "\<lparr>sa_ip = sa_ip a, sa_port = unat (sc_probe_port ?s)\<rparr>"
  let ?mt = "\<lparr>sa_ip = V4 [0, 0, 0, 0], sa_port = unat (sc_metrics_port ?s)\<rparr>"
  have "parse_socket_addr (sc_bind ?s @ colon # show_nat (unat port)) = Some \<lparr>sa_ip = sa_ip a, sa_port = unat port\<rparr>" for port :: u16
    using addr [of port] by (simp add: bind_addr_def split: option.splits)
  moreover have "start_up read_file from_toml os_bind args =
      (if os_bind ?hb = None \<and> os_bind ?pb = None \<and> os_bind ?mt = None
       then Serve path cfg \<lparr>ls_heartbeat = ?hb, ls_probe = ?pb\<rparr> ?mt else Exit FAILURE)"
    using assms addr by (simp add: start_up_def listeners_bind_def bind_one_def metrics_addr_def Let_def split: option.splits)
  moreover have "distinct [unat (sc_heartbeat_port ?s), unat (sc_probe_port ?s), unat (sc_metrics_port ?s)]"
    using ports by (auto simp: word_unat_eq_iff)
  ultimately show ?thesis using ok by (intro exI [of _ ?hb] exI [of _ ?pb] exI [of _ ?mt]) simp
qed

section \<open>Properties\<close>

text \<open>
  C16. Start-up with a readable configuration: the process serves exactly when the operating
  system grants all three ports; otherwise it exits with a failure. The heartbeat and the probe
  listener are bound to what the configured \<open>bind\<close> text denotes together with their ports, read by
  the grammar of socket addresses, and the metrics listener to the wildcard address. What is
  served is a valid configuration on three different ports, and the address text is never the
  reason of a failure, since \<open>validate\<close> has accepted it.
\<close>

theorem start_up_serves:
  assumes "parse_args args = Inr (Run path)" and "load read_file from_toml path = Inr cfg"
  shows "\<exists>hb pb mt. config_ok cfg
    \<and> parse_socket_addr (sc_bind (cfg_server cfg) @ colon # show_nat (sa_port hb)) = Some hb
    \<and> parse_socket_addr (sc_bind (cfg_server cfg) @ colon # show_nat (sa_port pb)) = Some pb
    \<and> sa_port hb = unat (sc_heartbeat_port (cfg_server cfg)) \<and> sa_port pb = unat (sc_probe_port (cfg_server cfg))
    \<and> sa_ip pb = sa_ip hb \<and> mt = \<lparr>sa_ip = V4 [0, 0, 0, 0], sa_port = unat (sc_metrics_port (cfg_server cfg))\<rparr>
    \<and> distinct [sa_port hb, sa_port pb, sa_port mt]
    \<and> start_up read_file from_toml os_bind args =
        (if os_bind hb = None \<and> os_bind pb = None \<and> os_bind mt = None
         then Serve path cfg \<lparr>ls_heartbeat = hb, ls_probe = pb\<rparr> mt else Exit FAILURE)"
  by (rule start_up_result [OF assms])

theorem start_up_serves_witness:
  "start_up (\<lambda>_. Inr []) (\<lambda>_. Inr example_raw) (\<lambda>_. None) []
     = Serve DEFAULT_CONFIG_PATH example_config
         \<lparr>ls_heartbeat = \<lparr>sa_ip = V4 [0, 0, 0, 0], sa_port = 9700\<rparr>, ls_probe = \<lparr>sa_ip = V4 [0, 0, 0, 0], sa_port = 9701\<rparr>\<rparr>
         \<lparr>sa_ip = V4 [0, 0, 0, 0], sa_port = 9702\<rparr>"
proof -
  have host: "sc_bind (cfg_server example_config) = lit ''0.0.0.0''" by (simp add: example_config_def example_server_def)
  have "parse_socket_addr (lit ''0.0.0.0'' @ colon # show_nat (unat port)) = Some \<lparr>sa_ip = V4 [0, 0, 0, 0], sa_port = unat port\<rparr>" for port :: u16
    using bind_addr_any_port [OF bind_any_ipv4, of port] by (simp add: bind_addr_def split: option.splits)
  from this [of 9700] this [of 9701]
  have addr: "parse_socket_addr (lit ''0.0.0.0'' @ colon # show_nat 9700) = Some \<lparr>sa_ip = V4 [0, 0, 0, 0], sa_port = 9700\<rparr>"
    "parse_socket_addr (lit ''0.0.0.0'' @ colon # show_nat 9701) = Some \<lparr>sa_ip = V4 [0, 0, 0, 0], sa_port = 9701\<rparr>" by simp_all
  have "parse_args [] = Inr (Run DEFAULT_CONFIG_PATH)" by (simp add: parse_args_def no_more_def)
  from start_up_serves [OF this example_load, of "\<lambda>_. None"] addr show ?thesis
    by (auto simp: host) (auto simp: example_config_def example_server_def)
qed

text \<open>
  C17. Reloading never puts a bad configuration into effect: after any sequence of events the
  configuration the tasks see is valid, and as long as a task listens it is the one of the
  last SIGHUP whose file could be read, parsed and validated, or the initial one.
\<close>

theorem reload_keeps_valid_config:
  assumes "run_steps (process_step from_toml) (process_start path cfg) es = Some p" and "config_ok cfg"
  shows "config_ok (ap_config p) \<and>
    (ap_rx_server p \<or> ap_rx_client p \<longrightarrow> ap_config p = foldl (reloaded from_toml path) cfg es)"
proof
  from process_config.inv_run [OF assms(1) process_start_inv(2) [OF assms(2)]] show "config_ok (ap_config p)"
    by (simp add: config_inv_def)
  have "run_steps (with_ghost (process_step from_toml) (reloaded from_toml path)) (cfg, process_start path cfg) es
      = Some (foldl (reloaded from_toml path) cfg es, p)" by (simp add: run_with_ghost assms(1))
  from process_reload.inv_run [OF this]
  show "ap_rx_server p \<or> ap_rx_client p \<longrightarrow> ap_config p = foldl (reloaded from_toml path) cfg es"
    by (simp add: reload_inv_def process_start_def has_receiver_def)
qed

theorem reload_keeps_valid_config_witness:
  "\<exists>p. run_steps (process_step (\<lambda>_. Inr example_raw)) (process_start [] example_config)
       [ApSighup (\<lambda>_. Inr []), ApSighup (\<lambda>_. Inl UnexpectedEof)] = Some p
     \<and> config_ok (ap_config p) \<and> ap_config p = example_config"
proof -
  let ?es = "[ApSighup (\<lambda>_. Inr []), ApSighup (\<lambda>_. Inl UnexpectedEof)]"
  have fail: "load (\<lambda>_. Inl UnexpectedEof) (\<lambda>_. Inr example_raw) path = Inl (ReadFailed path UnexpectedEof)" for path
    by (simp add: load_def)
  have "run_steps (process_step (\<lambda>_. Inr example_raw)) (process_start [] example_config) ?es
      = Some (process_start [] example_config)"
    by (simp add: process_step_def watch_sighup_def example_load fail process_start_def)
  from reload_keeps_valid_config [OF this example_config_ok] this show ?thesis by (simp add: process_start_def)
qed

text \<open>
  C18. The exit code tells the truth. When \<open>main\<close> returns, the token has been cancelled and the
  server and the client manager have both ended, and the select had a cause. The code is SUCCESS
  exactly when that cause was a signal, or the failure to listen for Ctrl-C, and not the end of
  some task, and both tasks ended without a panic. It is also SUCCESS exactly when \<open>main\<close> reported
  no error about any of its tasks.
\<close>

theorem exit_code_truthful:
  assumes "run_steps (process_step from_toml) (process_start path cfg) es = Some p" and "ap_phase p = Exited exit"
  shows "ap_cancelled p \<and> ap_join p ServerHandle \<noteq> Live \<and> ap_join p ClientHandle \<noteq> Live
    \<and> stop_cause True es \<noteq> None
    \<and> (exit = SUCCESS \<longleftrightarrow> stop_cause True es \<in> {Some SignalReceived, Some CtrlCFailed}
          \<and> ap_join p ServerHandle = Ended True \<and> ap_join p ClientHandle = Ended True)
    \<and> (exit = SUCCESS \<longleftrightarrow> ap_errors p = [])"
proof -
  have start: "ap_phase (process_start path cfg) = Selecting" "ap_sigterm (process_start path cfg)"
    by (simp_all add: process_start_def)
  from stop_cause_run [OF assms(1) start(1)] start(2) assms(2) obtain cause
    where cause: "stop_cause True es = Some cause" "foldl early_stop None es = ended_by (Some cause)" by auto
  have "run_steps (with_ghost (process_step from_toml) early_stop) (None, process_start path cfg) es
      = Some (ended_by (Some cause), p)" by (simp add: run_with_ghost assms(1) cause)
  moreover have "early_inv (None, process_start path cfg)"
    by (simp add: early_inv_def process_start_inv(1)) (simp add: process_start_def)
  ultimately have "early_inv (ended_by (Some cause), p)" by (rule process_early.inv_run)
  then have "exit_inv p" and code: "code_inv (ended_by (Some cause)) (ap_join p ServerHandle) (ap_join p ClientHandle) (Exited exit)"
    using assms(2) by (simp_all only: early_inv_def prod.case)
  from this(1) have "ap_cancelled p \<and> ap_join p ServerHandle \<noteq> Live \<and> ap_join p ClientHandle \<noteq> Live"
    by (simp add: exit_inv_def assms(2))
  moreover have "log_inv (ap_errors p) (Exited exit)"
    using process_log.inv_run [OF assms(1)] assms(2) by (simp add: process_start_def)
  ultimately show ?thesis using code cause(1) by (auto simp: ended_by_None)
qed

theorem exit_code_truthful_witness:
  "\<exists>p exit. run_steps (process_step (\<lambda>_. Inr example_raw)) (process_start [] example_config)
       [ApSignal (Ready (Inl (OtherKind 0))) Pending, ApEnds ServerHandle True, ApEnds ClientHandle True, ApJoin, ApJoin, ApJoin]
         = Some p
     \<and> ap_phase p = Exited exit \<and> exit = SUCCESS \<and> ap_errors p = []"
proof -
  let ?es = "[ApSignal (Ready (Inl (OtherKind 0))) Pending, ApEnds ServerHandle True, ApEnds ClientHandle True, ApJoin, ApJoin, ApJoin]"
  have "\<exists>p exit. run_steps (process_step (\<lambda>_. Inr example_raw)) (process_start [] example_config) ?es = Some p
      \<and> ap_phase p = Exited exit \<and> ap_join p ServerHandle = Ended True \<and> ap_join p ClientHandle = Ended True"
    by (simp add: process_step_def process_start_def shut_down_def join_next_def cancel_token_signal_def)
  then obtain p exit where p: "run_steps (process_step (\<lambda>_. Inr example_raw)) (process_start [] example_config) ?es = Some p"
    "ap_phase p = Exited exit" "ap_join p ServerHandle = Ended True" "ap_join p ClientHandle = Ended True" by blast
  from exit_code_truthful [OF p(1,2)] p show ?thesis by auto
qed

text \<open>
  The command line: a run needs no argument or exactly \<open>--config\<close> and a path, help exactly one
  of its two flags; everything else is an error.
\<close>

theorem parse_args_cases:
  "(parse_args args = Inr (Run path) \<longleftrightarrow>
      (args = [] \<and> path = DEFAULT_CONFIG_PATH) \<or> args = [lit ''--config'', path])
   \<and> (parse_args args = Inr Help \<longleftrightarrow> args = [lit ''--help''] \<or> args = [lit ''-h''])"
  by (auto simp: parse_args_def no_more_def lit_def split: list.splits)

text \<open>
  C36. The config channel never closes under a task that still listens, whatever \<open>main\<close> does, if
  the SIGHUP handler could be installed: the task that waits for SIGHUP keeps its own sender.
  What stops the client manager is therefore the token alone.
\<close>

theorem channel_stays_open:
  assumes "run_steps (process_step from_toml) (process_start path cfg) es = Some p" and "ApSighupInitFailed \<notin> set es"
    and "ap_rx_server p \<or> ap_rx_client p"
  shows "\<not> channel_closed p"
proof -
  have ghost: "foldl (\<lambda>g e. g \<or> e = ApSighupInitFailed) b es \<longleftrightarrow> b \<or> ApSighupInitFailed \<in> set es" for b
    by (induction es arbitrary: b) auto
  have "run_steps (with_ghost (process_step from_toml) (\<lambda>g e. g \<or> e = ApSighupInitFailed)) (False, process_start path cfg) es
      = Some (False, p)" using assms(2) by (simp add: run_with_ghost assms(1) ghost)
  from process_channel.inv_run [OF this] assms(3) show ?thesis
    by (simp add: channel_inv_def process_start_def has_receiver_def channel_closed_def)
qed

theorem channel_stays_open_witness:
  "\<exists>p. run_steps (process_step (\<lambda>_. Inr example_raw)) (process_start [] example_config) [ApSignal (Ready (Inr ())) Pending] = Some p
     \<and> \<not> ap_tx_main p \<and> \<not> channel_closed p"
proof -
  have r: "run_steps (process_step (\<lambda>_. Inr example_raw)) (process_start [] example_config) [ApSignal (Ready (Inr ())) Pending]
      = Some (shut_down None (process_start [] example_config))"
    by (simp add: process_step_def process_start_def cancel_token_signal_def)
  have "\<not> channel_closed (shut_down None (process_start [] example_config))"
    by (rule channel_stays_open [OF r]) (simp_all add: shut_down_def process_start_def)
  with r show ?thesis by (simp add: shut_down_def)
qed

end
