(* ===== verification/Gauges.thy ===== *)
theory Gauges
  imports App
begin

text \<open>
  What the steps of the session tasks and of the server do to the gauges. The readings of the
  metrics are compositional: only the \<open>GaugeSet\<close> calls of a step count, and every step of a task
  makes one of four short sequences of them. From this the gauges of all peers together follow,
  for any interleaving of the tasks with the manager and the server.
\<close>

section \<open>The gauge calls of a step\<close>

type_synonym gauge_set = "gauge_family \<times> peer_label \<times> i64"

fun gauge_sets :: "metric_call list \<Rightarrow> gauge_set list" where
  "gauge_sets [] = []"
| "gauge_sets (GaugeSet f l v # cs) = (f, l, v) # gauge_sets cs"
| "gauge_sets (_ # cs) = gauge_sets cs"

fun read_gauge :: "gauge_family \<Rightarrow> peer_label \<Rightarrow> i64 option \<Rightarrow> gauge_set list \<Rightarrow> i64 option" where
  "read_gauge f l v [] = v"
| "read_gauge f l v ((f', l', x) # gs) = read_gauge f l (if f' = f \<and> l' = l then Some x else v) gs"

lemma gauge_sets_append [simp]: "gauge_sets (cs @ ds) = gauge_sets cs @ gauge_sets ds"
  by (induction cs rule: gauge_sets.induct) simp_all

lemma read_gauge_append [simp]: "read_gauge f l v (gs @ hs) = read_gauge f l (read_gauge f l v gs) hs"
  by (induction f l v gs rule: read_gauge.induct) simp_all

lemma read_gauge_other: "(\<forall>(f', l', x) \<in> set gs. f' \<noteq> f \<or> l' \<noteq> l) \<Longrightarrow> read_gauge f l v gs = v"
  by (induction f l v gs rule: read_gauge.induct) auto

lemma gauge_after:
  assumes "calls m' = calls m @ cs"
  shows "gauge_value m' f l = read_gauge f l (gauge_value m f l) (gauge_sets cs)"
proof -
  have "foldl (\<lambda>v c. gauge_eff f l c v) v cs = read_gauge f l v (gauge_sets cs)" for v
    by (induction cs arbitrary: v rule: gauge_sets.induct) (simp_all add: gauge_eff_def)
  then show ?thesis by (simp add: gauge_value_def read_calls_def assms)
qed

lemma gauge_sets_init [simp]: "gauge_sets (init_calls node peer) = []"
proof -
  have "gauge_sets (map (\<lambda>r. DisconnectTouch f (g r)) rs) = []" for f rs and g :: "string \<Rightarrow> disconnect_label"
    by (induction rs) simp_all
  then show ?thesis by (simp add: init_calls_def)
qed

section \<open>Session tasks\<close>

text \<open>
  What a step of a session task does to the gauges: nothing, it opens a session, it sets the run
  of misses, or it ends a session (after a last miss or not).
\<close>

inductive task_effect :: "task \<Rightarrow> task \<Rightarrow> gauge_set list \<Rightarrow> bool" where
  still: "\<lbrakk>in_session (tk_pc t') = in_session (tk_pc t); in_session (tk_pc t) \<Longrightarrow> tk_missed t' = tk_missed t\<rbrakk>
          \<Longrightarrow> task_effect t t' []"
| opens: "\<lbrakk>\<not> in_session (tk_pc t); in_session (tk_pc t'); tk_missed t' = 0\<rbrakk>
          \<Longrightarrow> task_effect t t' [(client_session_active, task_label t, 1), (client_consecutive_missed, task_label t, 0)]"
| counts: "\<lbrakk>in_session (tk_pc t); in_session (tk_pc t')\<rbrakk>
          \<Longrightarrow> task_effect t t' [(client_consecutive_missed, task_label t, tk_missed t')]"
| ends: "\<lbrakk>in_session (tk_pc t); \<not> in_session (tk_pc t'); ms = [] \<or> ms = [(client_consecutive_missed, task_label t, v)]\<rbrakk>
          \<Longrightarrow> task_effect t t' (ms @ [(client_session_active, task_label t, 0)])"

definition task_gauge_step :: "task_state \<Rightarrow> task_state \<Rightarrow> bool" where
  "task_gauge_step s s' \<longleftrightarrow>
     (\<exists>cs. w_metrics (fst s') = emit cs (w_metrics (fst s)) \<and> call_peers cs \<subseteq> {pl_peer (task_label (snd s))}
        \<and> task_effect (snd s) (snd s') (gauge_sets cs))"

lemma task_gauge_stepE:
  assumes "task_gauge_step (w, t) (w', t')"
  obtains cs where "w_calls w' = w_calls w @ cs" "w_peers w' = w_peers w" "call_peers cs \<subseteq> {pl_peer (task_label t)}"
    "task_effect t t' (gauge_sets cs)"
  using assms that by (auto simp: task_gauge_step_def)

lemma emit_Nil [simp]: "emit [] m = m"
  by (simp add: emit_def)

lemma peers_of_calls [simp]:
  "call_peers (session_end_calls l d reason) = {pl_peer l}" "call_peers (record_session_start l ts) = {pl_peer l}"
  "call_peers (miss_calls l n) = {pl_peer l}" "call_peers (record_echo l ts now x) = {pl_peer l}"
  by (auto simp: call_peers_def session_end_calls_def record_session_start_def miss_calls_def record_echo_def
      reason_label_def split: option.splits)

lemma task_gauge_stepI:
  "w_metrics w' = emit cs (w_metrics w) \<Longrightarrow> call_peers cs \<subseteq> {pl_peer (task_label t)} \<Longrightarrow> task_effect t t' (gauge_sets cs) \<Longrightarrow> task_gauge_step (w, t) (w', t')"
  by (auto simp: task_gauge_step_def)

lemma turn_shape [simp]:
  "fst (session_turn (w, t)) = w" "in_session (tk_pc (snd (session_turn (w, t))))"
  "tk_missed (snd (session_turn (w, t))) = tk_missed t"
  by (simp_all add: session_turn_def session_send_def)

lemma end_shape [simp]:
  "\<not> in_session (tk_pc (snd (session_end reason (w, t))))"
  "gauge_sets (session_end_calls l d reason) = [(client_session_active, l, 0)]"
  by (simp_all add: session_end_def task_backoff_def Let_def session_end_calls_def)

lemma end_step:
  assumes "in_session (tk_pc t)" and "task_label t1 = task_label t" and "w_metrics w1 = emit cs (w_metrics w)"
    and "call_peers cs \<subseteq> {pl_peer (task_label t)}"
    and "gauge_sets cs = [] \<or> gauge_sets cs = [(client_consecutive_missed, task_label t, v)]"
  shows "task_gauge_step (w, t) (session_end reason (w1, t1))"
proof -
  have "task_effect t (snd (session_end reason (w1, t1))) (gauge_sets cs @ [(client_session_active, task_label t, 0)])"
    using assms(1,5) by (intro task_effect.ends) simp_all
  moreover have "w_metrics (fst (session_end reason (w1, t1)))
      = emit (session_end_calls (task_label t1) (f64_sub (w_now w1) (tk_start_ts t1)) reason) (w_metrics w1)"
    by (simp add: session_end_def task_backoff_def Let_def w_emit_def)
  ultimately show ?thesis
    unfolding task_gauge_step_def fst_conv snd_conv
    by (intro exI [of _ "cs @ session_end_calls (task_label t1) (f64_sub (w_now w1) (tk_start_ts t1)) reason"])
      (simp add: assms emit_emit)
qed

lemma turn_step:
  assumes "in_session (tk_pc t)" and "w_metrics w1 = emit cs (w_metrics w)" and "call_peers cs \<subseteq> {pl_peer (task_label t)}"
    and "gauge_sets cs = [(client_consecutive_missed, task_label t, tk_missed t1)] \<or> gauge_sets cs = [] \<and> tk_missed t1 = tk_missed t"
  shows "task_gauge_step (w, t) (session_turn (w1, t1))"
  using assms unfolding task_gauge_step_def
  by (auto intro!: exI [of _ cs] task_effect.counts task_effect.still)
    (metis task_effect.counts turn_shape(2,3))

lemma timeout_step:
  assumes "in_session (tk_pc t)" and "task_label t1 = task_label t" and "tk_missed t1 = tk_missed t"
  shows "task_gauge_step (w, t) (echo_timeout got (w, t1))"
proof -
  let ?cs = "miss_calls (task_label t1) (tk_missed t1 + 1)"
  have gs: "gauge_sets ?cs = [(client_consecutive_missed, task_label t, tk_missed t1 + 1)]"
    using assms(2) by (simp add: miss_calls_def)
  show ?thesis
  proof (cases got)
    case True
    with assms show ?thesis by (simp add: echo_timeout_def) (rule turn_step [of _ _ "[]"], simp_all)
  next
    case False
    have "task_gauge_step (w, t) (session_turn (w_emit ?cs w, t1\<lparr>tk_missed := tk_missed t1 + 1, tk_next_send := n\<rparr>))" for n
      using assms gs by (intro turn_step [of _ _ ?cs]) (simp_all add: w_emit_def)
    moreover have "task_gauge_step (w, t) (session_end ''timeout'' (w_emit ?cs w, t1\<lparr>tk_missed := tk_missed t1 + 1\<rparr>))"
      using assms gs by (intro end_step [of _ _ _ ?cs]) (simp_all add: w_emit_def)
    ultimately show ?thesis using False by (simp add: echo_timeout_def Let_def)
  qed
qed

lemma echo_step:
  assumes "in_session (tk_pc t)" and "task_label t1 = task_label t"
  shows "task_gauge_step (w, t) (echo_received echo q ts d (w, t1))"
proof -
  let ?cs = "record_echo (task_label t1) (tk_start_ts t1) (w_now w) (if hb_seq echo = q then Some ts else None)"
  have gs: "gauge_sets ?cs = [(client_consecutive_missed, task_label t, 0)]"
    using assms(2) by (simp add: record_echo_def)
  have "task_gauge_step (w, t) (session_turn (w_emit ?cs w, t1\<lparr>tk_missed := 0\<rparr>))"
    using assms gs by (intro turn_step [of _ _ ?cs]) (simp_all add: w_emit_def)
  moreover have "task_gauge_step (w, t) (w_emit ?cs w, t1\<lparr>tk_missed := 0, tk_pc := KEcho q ts d True\<rparr>)"
    using assms gs task_effect.counts [of t "t1\<lparr>tk_missed := 0, tk_pc := KEcho q ts d True\<rparr>"]
    by (intro task_gauge_stepI [of _ ?cs]) (simp_all add: w_emit_def)
  ultimately show ?thesis by (cases "hb_seq echo = q") (simp_all add: echo_received_def Let_def)
qed

lemma start_step:
  assumes "\<not> in_session (tk_pc t)" and "task_label t1 = task_label t"
  shows "task_gauge_step (w, t) (session_start (w, t1))"
proof -
  let ?cs = "record_session_start (task_label t1) (w_now w)"
  let ?s = "(w_emit ?cs w, t1\<lparr>tk_start_ts := w_now w, tk_seq := 0, tk_missed := 0, tk_next_send := w_mono w, tk_reader := reader_new\<rparr>)"
  have "task_effect t (snd (session_turn ?s)) (gauge_sets ?cs)"
    using assms task_effect.opens [of t "snd (session_turn ?s)"] by (simp add: record_session_start_def)
  then have "task_gauge_step (w, t) (session_turn ?s)"
    unfolding task_gauge_step_def using assms(2) by (intro exI [of _ ?cs]) (simp add: w_emit_def)
  then show ?thesis by (simp add: session_start_def Let_def)
qed

text \<open>A step that stays outside sessions, or stays inside with the same run of misses.\<close>

lemma still_step:
  assumes "w_metrics w' = emit cs (w_metrics w)" and "call_peers cs \<subseteq> {pl_peer (task_label t)}" and "gauge_sets cs = []" and "in_session (tk_pc t') = in_session (tk_pc t)"
    and "in_session (tk_pc t) \<Longrightarrow> tk_missed t' = tk_missed t"
  shows "task_gauge_step (w, t) (w', t')"
  using assms task_effect.still [of t' t] by (intro task_gauge_stepI [of _ cs]) simp_all

lemma poll_echo_step:
  assumes "poll_echo q ts d got (w, t) = Some s'" and "in_session (tk_pc t)"
  shows "task_gauge_step (w, t) s'"
  using assms
  by (auto simp: poll_echo_def split: prod.splits poll.splits sum.splits if_splits
      intro!: timeout_step echo_step end_step [of _ _ _ "[]"])

lemma poll_send_step:
  assumes "in_session (tk_pc t)"
  shows "task_gauge_step (w, t) (poll_send time (w, t))"
  using assms
  by (auto simp: poll_send_def w_emit_def split: prod.splits sum.splits
      intro!: end_step [of _ _ _ "[]"] still_step [of _ "[CounterInc client_heartbeats_sent (task_label t)]"])

lemma handshake_step:
  assumes "\<not> in_session (tk_pc t)"
  shows "task_gauge_step (w, t) (poll_handshake (w, t))"
  using assms
  by (auto simp: poll_handshake_def task_backoff_def split: prod.splits sum.splits
      intro!: start_step still_step [of _ "[]"])

lemma task_poll_step:
  assumes "task_poll (w, t) = Some s'"
  shows "task_gauge_step (w, t) s'"
proof (cases "tk_pc t")
  case KStart
  with assms show ?thesis
    by (auto simp: task_poll_def task_connect_def w_emit_def call_peers_session task_label_def intro!: still_step [of _ "init_calls (tk_node t) (pc_name (tk_peer t))"])
next
  case (KBackoff u)
  with assms show ?thesis by (auto simp: task_poll_def task_connect_def split: if_splits intro!: still_step [of _ "[]"])
next
  case KSleep
  with assms show ?thesis by (auto simp: task_poll_def session_send_def split: if_splits intro!: still_step [of _ "[]"])
next
  case (KSend time)
  with assms poll_send_step [of t w time] show ?thesis by (auto simp: task_poll_def)
next
  case (KEcho q ts d got)
  with assms poll_echo_step show ?thesis by (simp add: task_poll_def)
next
  case KHandshake
  with assms handshake_step [of t w] show ?thesis by (auto simp: task_poll_def)
qed (use assms in \<open>auto simp: task_poll_def\<close>)

lemma task_step_gauges:
  assumes "task_step (w, t) e = Some s'"
  shows "task_gauge_step (w, t) s'"
proof (cases e)
  case TPoll
  with assms task_poll_step show ?thesis by (simp add: task_step_def)
next
  case TCancelled
  with assms show ?thesis
    by (auto simp: task_step_def task_cancelled_def split: task_pc.splits if_splits
        intro!: end_step [of _ _ _ "[]"] still_step [of _ "[]"])
next
  case (TConnectFailed k)
  with assms show ?thesis
    by (auto simp: task_step_def connect_failed_def task_backoff_def w_emit_def reason_label_def task_label_def split: task_pc.splits
        intro!: still_step [of _ "[DisconnectInc client_disconnects \<lparr>dl_node = tk_node t, dl_peer = pc_name (tk_peer t), dl_reason = ''connect_failed''\<rparr>]"])
qed (use assms in \<open>auto simp: task_step_def connected_def split: task_pc.splits intro!: still_step [of _ "[]"]\<close>)

text \<open>A task and its label's gauges agree.\<close>

definition task_shown :: "metrics \<Rightarrow> task \<Rightarrow> bool" where
  "task_shown m t \<longleftrightarrow>
     (in_session (tk_pc t) \<longleftrightarrow> gauge_value m client_session_active (task_label t) = Some 1)
     \<and> (in_session (tk_pc t) \<longrightarrow> gauge_value m client_consecutive_missed (task_label t) = Some (tk_missed t))"

lemma task_shown_step:
  assumes "task_step (w, t) e = Some (w', t')" and "task_shown (w_metrics w) t"
  shows "task_shown (w_metrics w') t'"
proof -
  from task_step_gauges [OF assms(1)] obtain cs where cs: "w_calls w' = w_calls w @ cs"
    and eff: "task_effect t t' (gauge_sets cs)" by (rule task_gauge_stepE)
  have "task_label t' = task_label t" using task_step_same [OF assms(1)] by (simp add: same_task_def task_label_def)
  with eff assms(2) show ?thesis
    unfolding task_shown_def gauge_after [OF cs] by cases auto
qed

text \<open>The gauges of other labels, and those of the server, stay.\<close>

lemma task_step_others:
  assumes "task_step (w, t) e = Some (w', t')" and "l \<noteq> task_label t \<or> f = server_session_active"
  shows "gauge_value (w_metrics w') f l = gauge_value (w_metrics w) f l"
proof -
  from task_step_gauges [OF assms(1)] obtain cs where cs: "w_calls w' = w_calls w @ cs"
    and eff: "task_effect t t' (gauge_sets cs)" by (rule task_gauge_stepE)
  from eff have "\<forall>(f', l', x) \<in> set (gauge_sets cs). l' = task_label t \<and> f' \<noteq> server_session_active" by cases auto
  with assms(2) show ?thesis unfolding gauge_after [OF cs] by (intro read_gauge_other) auto
qed

section \<open>All tasks of the manager\<close>

text \<open>What the gauges may depend on: where a task stands, its label and its run of misses.\<close>

type_synonym task_view = "peer_label \<times> task_pc \<times> i64"

definition task_view :: "peer_task \<Rightarrow> task_view" where
  "task_view p = (task_label (pt_task p), tk_pc (pt_task p), tk_missed (pt_task p))"

definition views :: "manager \<Rightarrow> task_view set" where
  "views m = task_view ` set (all_tasks m)"

text \<open>The client gauges show exactly the open sessions among the tasks.\<close>

definition clients_shown :: "metrics \<Rightarrow> task_view set \<Rightarrow> bool" where
  "clients_shown x vs \<longleftrightarrow>
     (\<forall>(l, pc, k) \<in> vs. (in_session pc \<longleftrightarrow> gauge_value x client_session_active l = Some 1)
        \<and> (in_session pc \<longrightarrow> gauge_value x client_consecutive_missed l = Some k))
     \<and> (\<forall>l. gauge_value x client_session_active l = Some 1 \<longrightarrow> (\<exists>pc k. (l, pc, k) \<in> vs \<and> in_session pc))"

definition views_in :: "(rstr \<times> peer_task) list \<Rightarrow> task_view set" where
  "views_in xs = (\<lambda>x. task_view (snd x)) ` set xs"

lemma views_in_simps [simp]: "views_in [] = {}" "views_in (xs @ ys) = views_in xs \<union> views_in ys"
  by (auto simp: views_in_def)

lemma views_eq: "views m = views_in (mg_tasks m) \<union> views_in (mg_leaving m) \<union> task_view ` set_option (mg_await m)"
  by (cases "mg_await m") (auto simp: views_def views_in_def all_tasks_def image_Un image_image)

lemma view_stop [simp]: "task_view (stop_task p) = task_view p"
  by (simp add: task_view_def stop_task_def task_label_def)

lemma views_stopped:
  assumes "map_of xs name = Some p" and "distinct (map fst xs)"
  shows "views_in xs = insert (task_view p) (views_in (AList.delete name xs))"
proof -
  have mem: "(name, p) \<in> set xs" by (rule map_of_SomeD [OF assms(1)])
  have uniq: "snd x = p" if "x \<in> set xs" "fst x = name" for x
    using map_of_is_SomeI [OF assms(2), of name "snd x"] that assms(1) by (cases x) simp
  have "set xs = insert (name, p) (set (AList.delete name xs))"
  proof (rule set_eqI)
    fix x
    show "x \<in> set xs \<longleftrightarrow> x \<in> insert (name, p) (set (AList.delete name xs))"
    proof (cases "fst x = name")
      case True
      then have "x = (name, p)" if "x \<in> set xs" using uniq [OF that True] by (simp add: prod_eq_iff)
      with True mem show ?thesis by (auto simp: AList.delete_eq)
    next
      case False
      then show ?thesis by (auto simp: AList.delete_eq)
    qed
  qed
  then have "(\<lambda>x. task_view (snd x)) ` set xs = (\<lambda>x. task_view (snd x)) ` insert (name, p) (set (AList.delete name xs))"
    by (rule arg_cong)
  then show ?thesis unfolding views_in_def image_insert snd_conv .
qed

lemma stop_views:
  assumes step: "manager_stop name m = Some m'" and bag: "bag_inv m"
  shows "views m' = views m"
proof -
  have tasks: "insert (task_view p) (views_in (AList.delete name (mg_tasks m))) = views_in (mg_tasks m)"
    if "map_of (mg_tasks m) name = Some p" for p
    by (rule views_stopped [OF that bag_names(1) [OF bag], symmetric])
  have leaving: "insert (task_view p) (views_in (AList.delete name (mg_leaving m))) = views_in (mg_leaving m)"
    if "map_of (mg_leaving m) name = Some p" for p
    by (rule views_stopped [OF that bag_names(2) [OF bag], symmetric])
  from step have none: "mg_await m = None" by (auto simp: manager_stop_def split: if_splits)
  from step consider "mg_tasks m' = mg_tasks m" "mg_leaving m' = mg_leaving m" "mg_await m' = mg_await m"
    | p where "map_of (mg_tasks m) name = Some p" "mg_tasks m' = AList.delete name (mg_tasks m)"
        "mg_leaving m' = mg_leaving m" "mg_await m' = Some (stop_task p)"
    | p where "map_of (mg_leaving m) name = Some p" "mg_leaving m' = AList.delete name (mg_leaving m)"
        "mg_tasks m' = mg_tasks m" "mg_await m' = Some (stop_task p)"
    by (auto simp: manager_stop_def Let_def none split: manager_pc.splits if_splits option.splits)
  then show ?thesis
  proof cases
    case (2 p)
    then show ?thesis using tasks [OF 2(1)] by (simp add: views_eq none flip: insert_is_Un Un_insert_left)
  next
    case (3 p)
    then show ?thesis by (auto simp: views_eq none simp flip: leaving [OF 3(1)])
  qed (simp add: views_eq)
qed

lemma spawn_views:
  "views_in (mg_tasks (spawn_missing cc node ps m))
     \<subseteq> views_in (mg_tasks m) \<union> {(l, pc, k). pc = KStart \<and> pl_peer l \<in> (\<lambda>x. pc_name (snd x)) ` set ps}"
proof (induction cc node ps m rule: spawn_missing.induct)
  case (2 cc node name peer rest m)
  have "views_in (mg_tasks m @ [(name, \<lparr>pt_peer = peer, pt_handle = h, pt_task = task_spawn peer cc node\<rparr>)])
      \<subseteq> views_in (mg_tasks m) \<union> {(l, pc, k). pc = KStart \<and> pl_peer l = pc_name peer}" for h
    by (simp add: views_in_def task_view_def task_spawn_def task_label_def)
  with 2 show ?case by (cases "name \<in> fst ` set (mg_tasks m)") auto
qed simp

text \<open>The names in the configuration that the current round applies.\<close>

definition peer_names :: "config \<Rightarrow> rstr set" where
  "peer_names cfg = pc_name ` set (cfg_peers cfg)"

definition applied_names :: "manager \<Rightarrow> rstr set" where
  "applied_names m = (case mg_pc m of MRemove cfg _ _ \<Rightarrow> peer_names cfg | _ \<Rightarrow> {})"

lemma new_peers_names: "(\<lambda>x. pc_name (snd x)) ` set (new_peers (cfg_peers cfg)) \<subseteq> peer_names cfg"
proof
  fix n assume "n \<in> (\<lambda>x. pc_name (snd x)) ` set (new_peers (cfg_peers cfg))"
  then obtain k p where "(k, p) \<in> set (new_peers (cfg_peers cfg))" "n = pc_name p" by auto
  moreover from map_of_is_SomeI [OF set_new_peers this(1)] have "p \<in> set (cfg_peers cfg)" by (blast dest: new_peers_named)
  ultimately show "n \<in> peer_names cfg" by (simp add: peer_names_def)
qed

lemma poll_views:
  assumes step: "manager_poll m = Some m'" and pc: "pc_inv m"
  shows "views m' \<subseteq> views m \<union> {(l, pc, k). pc = KStart \<and> pl_peer l \<in> applied_names m} \<and> views m \<subseteq> views m' \<union> {(l, pc, k). pc = KDone}"
proof (cases "mg_await m")
  case (Some p)
  with step show ?thesis by (auto simp: manager_poll_def views_eq task_view_def split: if_splits)
next
  case None
  show ?thesis
  proof (cases "mg_pc m")
    case (MRemove cfg cc names)
    let ?m = "spawn_missing cc (nc_name (cfg_node cfg)) (new_peers (cfg_peers cfg)) m"
    obtain new where "mg_tasks ?m = mg_tasks m @ new" using spawn_missing_keeps by blast
    then have "views_in (mg_tasks m) \<subseteq> views_in (mg_tasks ?m)" by simp
    moreover from MRemove None step have "m' = ?m\<lparr>mg_pc := MWait\<rparr>" by (simp add: manager_poll_def split: if_splits)
    ultimately show ?thesis
      using spawn_views [of cc "nc_name (cfg_node cfg)" "new_peers (cfg_peers cfg)" m] None
        new_peers_names [of cfg] MRemove
      by (auto simp: views_eq spawn_missing_frame applied_names_def)
  qed (use None step pc in \<open>auto simp: manager_poll_def manager_head_def manager_shutdown_def Let_def views_eq
      pc_inv_def split: if_splits option.splits\<close>)
qed

lemma label_unique:
  assumes bag: "bag_inv m" and q: "q \<in> set (all_tasks m)" and p: "p \<in> set (all_tasks m)"
  shows "task_label (pt_task q) = task_label (pt_task p) \<longleftrightarrow> q = p"
proof
  assume eq: "task_label (pt_task q) = task_label (pt_task p)"
  from bag q p have "tk_peer (pt_task p) = pt_peer p" "tk_peer (pt_task q) = pt_peer q"
    and inj: "inj_on task_name (set (all_tasks m))" by (simp_all add: bag_inv_def distinct_map)
  with eq have "task_name q = task_name p" by (simp add: task_label_def task_name_def)
  from inj_onD [OF inj this q p] show "q = p" .
qed simp

lemma view_unique:
  assumes "bag_inv m" and "(l, pc, k) \<in> views m" and "(l, pc', k') \<in> views m"
  shows "pc' = pc"
proof -
  from assms obtain p q where p: "p \<in> set (all_tasks m)" "(l, pc, k) = task_view p"
    and q: "q \<in> set (all_tasks m)" "(l, pc', k') = task_view q" by (auto simp: views_def)
  from p(2) q(2) have "task_label (pt_task q) = task_label (pt_task p)" unfolding task_view_def by (metis prod.inject)
  with label_unique [OF assms(1) q(1) p(1)] have "q = p" by (rule iffD1)
  with p(2) q(2) show ?thesis by (metis prod.inject)
qed

lemma shown_views:
  assumes shown: "clients_shown x (views m)" and bag: "bag_inv m'"
    and new: "views m' \<subseteq> views m \<union> {(l, pc, k). pc = KStart}" and old: "views m \<subseteq> views m' \<union> {(l, pc, k). pc = KDone}"
  shows "clients_shown x (views m')"
proof -
  have open': "\<exists>pc k. (l, pc, k) \<in> views m' \<and> in_session pc" if "gauge_value x client_session_active l = Some 1" for l
  proof -
    from shown that obtain pc k where "(l, pc, k) \<in> views m" "in_session pc" unfolding clients_shown_def by blast
    moreover from subsetD [OF old this(1)] this(2) have "(l, pc, k) \<in> views m'" by auto
    ultimately show ?thesis by blast
  qed
  have "(in_session pc \<longleftrightarrow> gauge_value x client_session_active l = Some 1)
      \<and> (in_session pc \<longrightarrow> gauge_value x client_consecutive_missed l = Some k)" if v: "(l, pc, k) \<in> views m'" for l pc k
  proof (cases "(l, pc, k) \<in> views m")
    case True
    with shown show ?thesis unfolding clients_shown_def by blast
  next
    case False
    with v new have "pc = KStart" by blast
    moreover have "gauge_value x client_session_active l \<noteq> Some 1"
      using open' [of l] view_unique [OF bag v] \<open>pc = KStart\<close> in_session_simps by metis
    ultimately show ?thesis by simp
  qed
  with open' show ?thesis unfolding clients_shown_def by blast
qed

lemma shown_cong:
  assumes "\<And>f l. f \<noteq> server_session_active \<Longrightarrow> gauge_value x' f l = gauge_value x f l"
  shows "clients_shown x' vs = clients_shown x vs"
  using assms by (simp add: clients_shown_def)

text \<open>A step of one task, among the others.\<close>

lemma update_views:
  assumes bag: "bag_inv m" and p: "find (\<lambda>p. pt_handle p = h) (all_tasks m) = Some p"
    and same: "task_label t' = task_label (pt_task p)"
  shows "views (update_task h t' m) =
    insert (task_label (pt_task p), tk_pc t', tk_missed t') {v \<in> views m. fst v \<noteq> task_label (pt_task p)}"
proof -
  from bag have "distinct (map pt_handle (all_tasks m))" by (simp add: bag_inv_def)
  note f = find_handle [OF p this]
  note label = label_unique [OF bag _ f(1)]
  have hit: "task_view (set_task h t' q) = (if q = p then (task_label (pt_task p), tk_pc t', tk_missed t') else task_view q)"
    if "q \<in> set (all_tasks m)" for q
  proof (cases "q = p")
    case True
    with f(2) same show ?thesis by (simp add: set_task_def task_view_def)
  next
    case False
    with f(3) [OF that] have "pt_handle q \<noteq> h" by blast
    with False show ?thesis by (simp add: set_task_def)
  qed
  have "views (update_task h t' m) = (\<lambda>q. task_view (set_task h t' q)) ` set (all_tasks m)"
    by (simp add: views_def all_tasks_update image_image)
  also have "\<dots> = insert (task_label (pt_task p), tk_pc t', tk_missed t') (task_view ` (set (all_tasks m) - {p}))"
  proof -
    have "set (all_tasks m) = insert p (set (all_tasks m) - {p})" using f(1) by (simp add: insert_absorb)
    then have "(\<lambda>q. task_view (set_task h t' q)) ` set (all_tasks m)
        = (\<lambda>q. task_view (set_task h t' q)) ` insert p (set (all_tasks m) - {p})" by (rule arg_cong)
    moreover have "(\<lambda>q. task_view (set_task h t' q)) ` (set (all_tasks m) - {p}) = task_view ` (set (all_tasks m) - {p})"
      by (rule image_cong) (simp_all add: hit)
    ultimately show ?thesis unfolding image_insert by (simp only: hit [OF f(1)] if_True simp_thms)
  qed
  also have "task_view ` (set (all_tasks m) - {p}) = {v \<in> views m. fst v \<noteq> task_label (pt_task p)}"
  proof -
    have "{v \<in> views m. fst v \<noteq> task_label (pt_task p)}
        = task_view ` {q \<in> set (all_tasks m). fst (task_view q) \<noteq> task_label (pt_task p)}"
      unfolding views_def by blast
    also have "{q \<in> set (all_tasks m). fst (task_view q) \<noteq> task_label (pt_task p)} = set (all_tasks m) - {p}"
      unfolding task_view_def fst_conv using label by blast
    finally show ?thesis by (rule sym)
  qed
  finally show ?thesis .
qed

lemma task_in_views:
  "find (\<lambda>p. pt_handle p = h) (all_tasks m) = Some p \<Longrightarrow> (task_label (pt_task p), tk_pc (pt_task p), tk_missed (pt_task p)) \<in> views m"
  by (force simp: views_def task_view_def find_Some_iff)

lemma shown_task:
  assumes shown: "clients_shown (w_metrics w) (views m)" and bag: "bag_inv m"
    and p: "find (\<lambda>p. pt_handle p = h) (all_tasks m) = Some p"
    and t: "task_step (w, pt_task p) e = Some (w', t')"
  shows "clients_shown (w_metrics w') (views (update_task h t' m))"
proof -
  let ?l = "task_label (pt_task p)"
  have l: "task_label t' = ?l" using task_step_same [OF t] by (simp add: same_task_def task_label_def)
  from shown task_in_views [OF p] have "task_shown (w_metrics w) (pt_task p)"
    unfolding clients_shown_def task_shown_def by blast
  from task_shown_step [OF t this] have own: "task_shown (w_metrics w') t'" .
  have other: "gauge_value (w_metrics w') f l' = gauge_value (w_metrics w) f l'" if "l' \<noteq> ?l" for f l'
    using task_step_others [OF t] that by blast
  have "\<exists>pc k. (l', pc, k) \<in> views (update_task h t' m) \<and> in_session pc"
    if g: "gauge_value (w_metrics w') client_session_active l' = Some 1" for l'
  proof (cases "l' = ?l")
    case True
    with own g show ?thesis unfolding update_views [OF bag p l] 
      by (intro exI [of _ "tk_pc t'"] exI [of _ "tk_missed t'"]) (simp add: task_shown_def l)
  next
    case False
    with g shown other [OF False] obtain pc k where "(l', pc, k) \<in> views m" "in_session pc"
      unfolding clients_shown_def by metis
    with False show ?thesis unfolding update_views [OF bag p l]
      by (intro exI [of _ pc] exI [of _ k]) simp
  qed
  moreover have "(in_session pc \<longleftrightarrow> gauge_value (w_metrics w') client_session_active l' = Some 1)
      \<and> (in_session pc \<longrightarrow> gauge_value (w_metrics w') client_consecutive_missed l' = Some k)"
    if v: "(l', pc, k) \<in> views (update_task h t' m)" for l' pc k
  proof (cases "l' = ?l")
    case True
    with v own show ?thesis unfolding update_views [OF bag p l] by (simp add: task_shown_def l)
  next
    case False
    with v have "(l', pc, k) \<in> views m" unfolding update_views [OF bag p l] by auto
    with shown show ?thesis unfolding other [OF False] clients_shown_def by blast
  qed
  ultimately show ?thesis unfolding clients_shown_def by blast
qed

lemma shown_manager:
  assumes step: "manager_step (w, m) e = Some (w', m')" and inv: "manager_inv (w, m)"
    and shown: "clients_shown (w_metrics w) (views m)"
  shows "clients_shown (w_metrics w') (views m')"
proof -
  from inv have bag: "bag_inv m" and pc: "pc_inv m" by (simp_all add: manager_inv_def)
  from manager_machine.inv_step [OF step inv] have bag': "bag_inv m'" by (simp add: manager_inv_def)
  show ?thesis
  proof (cases e)
    case (MgTask h te)
    with step obtain t' p where p: "find (\<lambda>p. pt_handle p = h) (all_tasks m) = Some p"
      and t: "task_step (w, pt_task p) te = Some (w', t')" and m': "m' = update_task h t' m"
      by (auto simp: manager_step_def manager_task_def split: task_event.splits option.splits)
    from shown_task [OF shown bag p t] m' show ?thesis by simp
  next
    case MgPoll
    with step have w': "w' = w" and m': "manager_poll m = Some m'" by (auto simp: manager_step_def)
    from poll_views [OF m' pc] have "views m' \<subseteq> views m \<union> {(l, pc, k). pc = KStart}"
      "views m \<subseteq> views m' \<union> {(l, pc, k). pc = KDone}" by auto
    from shown_views [OF shown bag' this] show ?thesis by (simp add: w')
  next
    case (MgStop name)
    with step have "w' = w" and "manager_stop name m = Some m'" by (auto simp: manager_step_def)
    with stop_views [OF this(2) bag] shown show ?thesis by simp
  next
    case MgCancelled
    with step pc have "w' = w" "views m' = views m"
      by (auto simp: manager_step_def pc_inv_def manager_shutdown_def views_eq split: if_splits)
    with shown show ?thesis by simp
  qed (use step shown in \<open>auto simp: manager_step_def views_eq split: if_splits\<close>)
qed

text \<open>Each side leaves the other side's gauges alone.\<close>

lemma manager_server_gauge:
  assumes "manager_step (w, m) e = Some (w', m')"
  shows "gauge_value (w_metrics w') server_session_active l = gauge_value (w_metrics w) server_session_active l"
proof (cases e)
  case (MgTask h te)
  with assms obtain t' and p :: peer_task where "task_step (w, pt_task p) te = Some (w', t')"
    by (auto simp: manager_step_def manager_task_def split: task_event.splits option.splits)
  then show ?thesis by (rule task_step_others) simp
qed (use assms in \<open>auto simp: manager_step_def split: if_splits\<close>)

lemma server_client_gauges:
  assumes "server_step uni (w, sv) e = Some (w', sv')" and "f \<noteq> server_session_active"
  shows "gauge_value (w_metrics w') f l = gauge_value (w_metrics w) f l"
  using assms(1)
proof (cases rule: server_step_cases)
  case (conn k c')
  have frame: "gauge_value (w_metrics w') f l = gauge_value (w_metrics w) f l"
    if "w_calls w' = w_calls w @ cs" and "\<forall>(f', l', x) \<in> set (gauge_sets cs). f' = server_session_active" for cs
    using that assms(2) unfolding gauge_after [OF that(1)] by (intro read_gauge_other) auto
  from conn(2) show ?thesis
  proof cases
    case quiet
    then show ?thesis by simp
  next
    case (admit seen t)
    then have "w_calls w' = w_calls w @ (init_calls (cn_node c') (cn_peer c') @ server_start_calls (conn_label c') t)" by simp
    then show ?thesis by (rule frame) (simp add: server_start_calls_def)
  next
    case (beat t n)
    then have "w_calls w' = w_calls w @ (server_beat_calls (conn_label (sv_conns sv ! k)) t n)" by simp
    then show ?thesis by (rule frame) (simp add: server_beat_calls_def)
  next
    case (finish d reason)
    then have "w_calls w' = w_calls w @ (server_end_calls (conn_label (sv_conns sv ! k)) d reason)" by simp
    then show ?thesis by (rule frame) (simp add: server_end_calls_def)
  qed
qed simp_all

end
