(* ===== verification/Labels.thy ===== *)
theory Labels
  imports Gauges
begin

text \<open>
  Which peer names the steps of the two sides can put into a label: the manager and its tasks
  those of the configurations they were given, the server those it has registered. Each side
  keeps its own bound in any run, whatever the other side records meanwhile.
\<close>

section \<open>The client side\<close>

definition names_known :: "rstr set \<Rightarrow> manager \<Rightarrow> bool" where
  "names_known N m \<longleftrightarrow>
     (\<forall>v \<in> views m. pl_peer (fst v) \<in> N) \<and> applied_names m \<subseteq> N \<and> peer_names (mg_config m) \<subseteq> N"

text \<open>A step that records labels from a set of names, and registers none.\<close>

definition records :: "rstr set \<Rightarrow> world \<Rightarrow> world \<Rightarrow> bool" where
  "records N w w' \<longleftrightarrow> w_peers w' = w_peers w \<and> (\<exists>cs. w_calls w' = w_calls w @ cs \<and> call_peers cs \<subseteq> N)"

lemma records_refl [simp]: "records N w w" and records_tick [simp]: "records N w (w_tick d t w)"
  by (simp_all add: records_def)

lemma records_trans: "records N w1 w2 \<Longrightarrow> records N w2 w3 \<Longrightarrow> records N w1 w3"
  unfolding records_def by (metis append.assoc call_peers_simps(3) le_sup_iff)

lemma task_step_records:
  assumes "task_step (w, t) e = Some (w', t')" and "pl_peer (task_label t) \<in> N"
  shows "records N w w'"
proof -
  from task_step_gauges [OF assms(1)] obtain cs where
    "w_calls w' = w_calls w @ cs" "w_peers w' = w_peers w" "call_peers cs \<subseteq> {pl_peer (task_label t)}"
    by (rule task_gauge_stepE)
  with assms(2) show ?thesis unfolding records_def by blast
qed

lemma applied_poll:
  assumes "manager_poll m = Some m'"
  shows "applied_names m' \<subseteq> applied_names m \<union> peer_names (mg_config m)" "mg_config m' = mg_config m"
  using assms
  by (auto simp: manager_poll_def manager_head_def manager_shutdown_def applied_names_def Let_def spawn_missing_frame
      split: option.splits manager_pc.splits if_splits)

lemma applied_stop:
  "manager_stop name m = Some m' \<Longrightarrow> applied_names m' = applied_names m \<and> mg_config m' = mg_config m"
  by (auto simp: manager_stop_def applied_names_def Let_def split: option.splits manager_pc.splits if_splits)

lemma applied_same:
  "applied_names (update_task h t m) = applied_names m" "mg_config (update_task h t m) = mg_config m"
  by (simp_all add: applied_names_def update_task_def)

lemma manager_step_records:
  assumes step: "manager_step (w, m) e = Some (w', m')" and inv: "manager_inv (w, m)" and known: "names_known N m"
    and cfg: "\<And>cfg. e = MgConfig cfg \<Longrightarrow> peer_names cfg \<subseteq> N"
  shows "records N w w' \<and> names_known N m'"
proof -
  from inv have bag: "bag_inv m" and pc: "pc_inv m" by (simp_all add: manager_inv_def)
  show ?thesis
  proof (cases e)
    case (MgTask h te)
    with step obtain t' p where p: "find (\<lambda>p. pt_handle p = h) (all_tasks m) = Some p"
      and t: "task_step (w, pt_task p) te = Some (w', t')" and m': "m' = update_task h t' m"
      by (auto simp: manager_step_def manager_task_def split: task_event.splits option.splits)
    have l: "task_label t' = task_label (pt_task p)" using task_step_same [OF t] by (simp add: same_task_def task_label_def)
    from known task_in_views [OF p] have "pl_peer (task_label (pt_task p)) \<in> N" unfolding names_known_def by fastforce
    with task_step_records [OF t] known show ?thesis
      by (simp add: m' names_known_def applied_same update_views [OF bag p l])
  next
    case MgPoll
    with step have w': "w' = w" and m': "manager_poll m = Some m'" by (auto simp: manager_step_def)
    have "pl_peer (fst v) \<in> N" if "v \<in> views m'" for v
    proof -
      from that poll_views [OF m' pc] consider "v \<in> views m" | "pl_peer (fst v) \<in> applied_names m" by fastforce
      with known show ?thesis unfolding names_known_def by cases blast+
    qed
    with known applied_poll [OF m'] show ?thesis by (auto simp: w' names_known_def)
  next
    case (MgStop name)
    with step have "w' = w" and m': "manager_stop name m = Some m'" by (auto simp: manager_step_def)
    with stop_views [OF m' bag] applied_stop [OF m'] known show ?thesis by (simp add: names_known_def)
  next
    case MgCancelled
    with step pc have "w' = w" "views m' = views m" "applied_names m' = {}" "mg_config m' = mg_config m"
      by (auto simp: manager_step_def pc_inv_def manager_shutdown_def views_eq applied_names_def split: if_splits)
    with known show ?thesis by (simp add: names_known_def)
  next
    case (MgConfig c)
    with step cfg [OF MgConfig] known show ?thesis
      by (auto simp: manager_step_def names_known_def views_eq applied_names_def split: if_splits)
  qed (use step known in \<open>auto simp: manager_step_def names_known_def views_eq applied_names_def split: if_splits\<close>)
qed

lemma manager_run_records:
  assumes "run_steps manager_step (w, m) es = Some (w', m')" and "manager_inv (w, m)" and "names_known N m"
    and "\<And>cfg. MgConfig cfg \<in> set es \<Longrightarrow> peer_names cfg \<subseteq> N"
  shows "records N w w' \<and> names_known N m'"
  using assms
proof (induction es arbitrary: w m)
  case (Cons e es)
  then obtain w1 m1 where e: "manager_step (w, m) e = Some (w1, m1)" and rest: "run_steps manager_step (w1, m1) es = Some (w', m')"
    by (auto split: option.splits)
  from manager_step_records [OF e Cons.prems(2,3)] Cons.prems(4) have s: "records N w w1" "names_known N m1" by simp_all
  from Cons.IH [OF rest manager_machine.inv_step [OF e Cons.prems(2)] s(2)] Cons.prems(4)
  have "records N w1 w' \<and> names_known N m'" by simp
  with s(1) records_trans show ?case by blast
qed simp

section \<open>The server side\<close>

interpretation server_grows: stepper "server_step uni" "\<lambda>s. P \<subseteq> w_peers (fst s)" for uni P
proof
  fix s e s'
  assume step: "server_step uni s e = Some s'" and inv: "P \<subseteq> w_peers (fst s)"
  obtain w sv w' sv' where s: "s = (w, sv)" "s' = (w', sv')" by (cases s, cases s')
  from step have "server_step uni (w, sv) e = Some (w', sv')" by (simp add: s)
  then have "w_peers w \<subseteq> w_peers w'"
  proof (cases rule: server_step_cases)
    case (conn k c')
    from conn(2) show ?thesis
    proof cases
      case (admit seen t)
      from peers.keeps [OF admit(5)] admit(6) show ?thesis by simp
    qed simp_all
  qed simp_all
  with inv s show "P \<subseteq> w_peers (fst s')" by simp
qed

text \<open>
  The part of the server's invariant that does not depend on what was recorded before: it can be
  started from any moment on.
\<close>

definition registry_inv :: "(rchar \<Rightarrow> bool) \<Rightarrow> server_state \<Rightarrow> bool" where
  "registry_inv uni s \<longleftrightarrow> names_inv uni (w_calls (fst s)) s"

lemma registry_records:
  assumes "records N w w'" and "registry_inv uni (w, sv)"
  shows "registry_inv uni (w', sv)"
  using assms by (auto simp: registry_inv_def names_inv_def records_def)

lemma server_run_records:
  assumes run: "run_steps (server_step uni) (w, sv) es = Some (w', sv')" and inv: "registry_inv uni (w, sv)"
    and calls: "call_peers (w_calls w) \<subseteq> w_peers w \<union> N"
  shows "registry_inv uni (w', sv')" "call_peers (w_calls w') \<subseteq> w_peers w' \<union> N"
proof -
  have "names_inv uni (w_calls w) (w', sv')"
    using server_names.inv_run [OF run] inv by (simp add: registry_inv_def)
  then show "registry_inv uni (w', sv')" by (auto simp: registry_inv_def names_inv_def)
  from \<open>names_inv uni (w_calls w) (w', sv')\<close> obtain cs where "w_calls w' = w_calls w @ cs" "call_peers cs \<subseteq> w_peers w'"
    by (auto simp: names_inv_def)
  moreover from server_grows.inv_run [OF run, of "w_peers w"] have "w_peers w \<subseteq> w_peers w'" by simp
  ultimately show "call_peers (w_calls w') \<subseteq> w_peers w' \<union> N" using calls by auto
qed

end
