(* ===== verification/System.thy ===== *)
theory System
  imports Labels
begin

text \<open>
  The whole process of \<open>src/main.rs\<close>: what \<open>main\<close> spawns (the server, the client manager, the task
  that waits for SIGHUP) runs over one world, one config channel and one cancellation token. A
  step of the system is a step of one component together with what the others learn from it:
  the channel's new value, the token, the end of a task as its handle shows it.
\<close>

section \<open>State\<close>

text \<open>\<open>sy_unseen\<close>: the config watcher of the server has not yet read the channel's value.\<close>

record system =
  sy_world :: world
  sy_process :: process
  sy_manager :: manager
  sy_server :: server
  sy_unseen :: bool

datatype system_event =
    SyTick nat sys_time
  | SyProcess process_event
  | SyManager manager_event
  | SyServer server_event
  | SyServerReads
  | SyServerSenderGone
  | SyServerReturns

definition system_start :: "sys_time \<Rightarrow> rstr \<Rightarrow> config \<Rightarrow> system" where
  "system_start time path cfg =
     \<lparr>sy_world = fresh_world time, sy_process = process_start path cfg, sy_manager = manager_start cfg,
      sy_server = server_start (cfg_server cfg) (nc_name (cfg_node cfg)), sy_unseen = False\<rparr>"

lemma system_start_simps [simp]:
  "ap_path (sy_process (system_start time path cfg)) = path" "ap_config (sy_process (system_start time path cfg)) = cfg"
  by (simp_all add: system_start_def process_start_def)

text \<open>\<open>main\<close> up to its select: an early exit, or the spawned tasks.\<close>

definition boot ::
    "(rstr \<Rightarrow> rstr io_result) \<Rightarrow> (rstr \<Rightarrow> rstr + raw_config) \<Rightarrow> (socket_addr \<Rightarrow> io_kind option)
       \<Rightarrow> sys_time \<Rightarrow> rstr list \<Rightarrow> exit_code + system" where
  "boot read_file from_toml os_bind time args =
     (case start_up read_file from_toml os_bind args of
        Exit code \<Rightarrow> Inl code
      | Serve path cfg ls addr \<Rightarrow> Inr (system_start time path cfg))"

section \<open>Steps\<close>

text \<open>
  The events of each component that have their cause outside the others. The rest happens inside
  the system: the clock is shared, a config comes from a SIGHUP, the token and the end of the
  sender from \<open>main\<close>, and a handle ends when its task returns.
\<close>

fun process_input :: "process_event \<Rightarrow> bool" where
  "process_input ApWatcherEnds \<longleftrightarrow> False"
| "process_input (ApEnds h ok) \<longleftrightarrow> h = MetricsHandle"
| "process_input _ \<longleftrightarrow> True"

fun manager_input :: "manager_event \<Rightarrow> bool" where
  "manager_input (MgTick d t) \<longleftrightarrow> False"
| "manager_input (MgConfig c) \<longleftrightarrow> False"
| "manager_input MgSenderGone \<longleftrightarrow> False"
| "manager_input MgCancel \<longleftrightarrow> False"
| "manager_input _ \<longleftrightarrow> True"

fun server_input :: "server_event \<Rightarrow> bool" where
  "server_input (SvTick d t) \<longleftrightarrow> False"
| "server_input (SvConfig c) \<longleftrightarrow> False"
| "server_input SvConfigGone \<longleftrightarrow> False"
| "server_input SvCancel \<longleftrightarrow> False"
| "server_input _ \<longleftrightarrow> True"

text \<open>The configuration that a SIGHUP sends over the channel, if it does.\<close>

definition broadcast :: "(rstr \<Rightarrow> rstr + raw_config) \<Rightarrow> process \<Rightarrow> process_event \<Rightarrow> config option" where
  "broadcast from_toml p e =
     (case e of
        ApSighup read_file \<Rightarrow>
          (case load read_file from_toml (ap_path p) of
             Inl _ \<Rightarrow> None
           | Inr cfg \<Rightarrow> if ap_rx_server p \<or> ap_rx_client p then Some cfg else None)
      | _ \<Rightarrow> None)"

text \<open>What the manager and the server learn from a step of \<open>main\<close> or of the SIGHUP task.\<close>

definition manager_news :: "config option \<Rightarrow> process \<Rightarrow> manager_event list" where
  "manager_news news p =
     (case news of None \<Rightarrow> [] | Some cfg \<Rightarrow> [MgConfig cfg])
     @ (if ap_cancelled p then [MgCancel] else []) @ (if channel_closed p then [MgSenderGone] else [])"

definition server_news :: "process \<Rightarrow> server_event list" where
  "server_news p = (if ap_cancelled p then [SvCancel] else [])"

definition system_process ::
    "(rchar \<Rightarrow> bool) \<Rightarrow> (rstr \<Rightarrow> rstr + raw_config) \<Rightarrow> process_event \<Rightarrow> system \<Rightarrow> system option" where
  "system_process uni from_toml e s =
     (case process_step from_toml (sy_process s) e of
        None \<Rightarrow> None
      | Some p \<Rightarrow>
          (let news = broadcast from_toml (sy_process s) e
           in case run_steps manager_step (sy_world s, sy_manager s) (manager_news news p) of
                None \<Rightarrow> None
              | Some (w, m) \<Rightarrow>
                  (case run_steps (server_step uni) (w, sy_server s) (server_news p) of
                     None \<Rightarrow> None
                   | Some (w', sv) \<Rightarrow>
                       Some (s\<lparr>sy_world := w', sy_process := p, sy_manager := m, sy_server := sv,
                               sy_unseen := sy_unseen s \<or> news \<noteq> None\<rparr>))))"

text \<open>A task that returns ends its handle; one that ends while a handle is awaited wakes \<open>main\<close>.\<close>

definition system_manager ::
    "(rstr \<Rightarrow> rstr + raw_config) \<Rightarrow> manager_event \<Rightarrow> system \<Rightarrow> system option" where
  "system_manager from_toml e s =
     (case manager_step (sy_world s, sy_manager s) e of
        None \<Rightarrow> None
      | Some (w, m) \<Rightarrow>
          (case (if mg_pc m = MDone then process_step from_toml (sy_process s) (ApEnds ClientHandle True)
                 else Some (sy_process s)) of
             None \<Rightarrow> None
           | Some p \<Rightarrow> Some (s\<lparr>sy_world := w, sy_process := p, sy_manager := m\<rparr>)))"

definition system_server ::
    "(rchar \<Rightarrow> bool) \<Rightarrow> (rstr \<Rightarrow> rstr + raw_config) \<Rightarrow> server_event \<Rightarrow> system \<Rightarrow> system option" where
  "system_server uni from_toml e s =
     (case server_step uni (sy_world s, sy_server s) e of
        None \<Rightarrow> None
      | Some (w, sv) \<Rightarrow>
          (case (if sv_watching (sy_server s) \<and> \<not> sv_watching sv
                 then process_step from_toml (sy_process s) ApWatcherEnds else Some (sy_process s)) of
             None \<Rightarrow> None
           | Some p \<Rightarrow> Some (s\<lparr>sy_world := w, sy_process := p, sy_server := sv\<rparr>)))"

text \<open>When \<open>main\<close> has returned, the runtime drops every task: nothing happens any more.\<close>

definition exited :: "process \<Rightarrow> bool" where
  "exited p = (case ap_phase p of Exited _ \<Rightarrow> True | _ \<Rightarrow> False)"

definition system_step ::
    "(rchar \<Rightarrow> bool) \<Rightarrow> (rstr \<Rightarrow> rstr + raw_config) \<Rightarrow> system \<Rightarrow> system_event \<Rightarrow> system option" where
  "system_step uni from_toml s e =
     (if exited (sy_process s) then None
      else case e of
        SyTick d t \<Rightarrow> Some (s\<lparr>sy_world := w_tick d t (sy_world s)\<rparr>)
      | SyProcess pe \<Rightarrow> if process_input pe then system_process uni from_toml pe s else None
      | SyManager me \<Rightarrow> if manager_input me then system_manager from_toml me s else None
      | SyServer se \<Rightarrow> if server_input se then system_server uni from_toml se s else None
      | SyServerReads \<Rightarrow>
          if sy_unseen s
          then map_option (\<lambda>s'. s'\<lparr>sy_unseen := False\<rparr>)
                 (system_server uni from_toml (SvConfig (ap_config (sy_process s))) s)
          else None
      | SyServerSenderGone \<Rightarrow>
          if \<not> sy_unseen s \<and> channel_closed (sy_process s) then system_server uni from_toml SvConfigGone s else None
      | SyServerReturns \<Rightarrow>
          if run_result (sy_server s) = Running then None
          else map_option (\<lambda>p. s\<lparr>sy_process := p\<rparr>)
                 (process_step from_toml (sy_process s) (ApEnds ServerHandle True)))"

text \<open>
  Every step of the system is a step of its parts: any number of steps of the process, then of the
  manager and of the server, each over the world the one before left.
\<close>

definition parts_run ::
    "(rchar \<Rightarrow> bool) \<Rightarrow> (rstr \<Rightarrow> rstr + raw_config) \<Rightarrow> system \<Rightarrow> process_event list \<Rightarrow> manager_event list
       \<Rightarrow> server_event list \<Rightarrow> system \<Rightarrow> bool" where
  "parts_run uni from_toml s ps ms ss s' \<longleftrightarrow>
     run_steps (process_step from_toml) (sy_process s) ps = Some (sy_process s')
     \<and> (\<exists>w. run_steps manager_step (sy_world s, sy_manager s) ms = Some (w, sy_manager s')
          \<and> run_steps (server_step uni) (w, sy_server s) ss = Some (sy_world s', sy_server s'))"

lemma system_serverE:
  assumes "system_server uni from_toml e s = Some s'"
  obtains w sv p where "server_step uni (sy_world s, sy_server s) e = Some (w, sv)"
    "s' = s\<lparr>sy_world := w, sy_process := p, sy_server := sv\<rparr>"
    "run_steps (process_step from_toml) (sy_process s)
       (if sv_watching (sy_server s) \<and> \<not> sv_watching sv then [ApWatcherEnds] else []) = Some p"
  using assms by (auto simp: system_server_def split: option.splits if_splits)

lemma system_managerE:
  assumes "system_manager from_toml e s = Some s'"
  obtains w m p where "manager_step (sy_world s, sy_manager s) e = Some (w, m)"
    "s' = s\<lparr>sy_world := w, sy_process := p, sy_manager := m\<rparr>"
    "run_steps (process_step from_toml) (sy_process s)
       (if mg_pc m = MDone then [ApEnds ClientHandle True] else []) = Some p"
  using assms by (auto simp: system_manager_def split: option.splits if_splits)

lemma system_processE:
  assumes "system_process uni from_toml e s = Some s'"
  obtains w m sv p where "process_step from_toml (sy_process s) e = Some p"
    "run_steps manager_step (sy_world s, sy_manager s) (manager_news (broadcast from_toml (sy_process s) e) p) = Some (w, m)"
    "run_steps (server_step uni) (w, sy_server s) (server_news p) = Some (sy_world s', sv)"
    "sy_process s' = p" "sy_manager s' = m" "sy_server s' = sv"
    "sy_unseen s' \<longleftrightarrow> sy_unseen s \<or> broadcast from_toml (sy_process s) e \<noteq> None"
  using assms by (auto simp: system_process_def Let_def split: option.splits)

fun process_events :: "system_event list \<Rightarrow> process_event list" where
  "process_events [] = []"
| "process_events (SyProcess pe # es) = pe # process_events es"
| "process_events (_ # es) = process_events es"

lemma server_parts:
  assumes "system_server uni from_toml se s = Some t"
  shows "\<exists>ps. parts_run uni from_toml s ps [] [se] t \<and> filter process_input ps = []"
  using assms
proof (rule system_serverE)
  fix w sv p
  assume "server_step uni (sy_world s, sy_server s) se = Some (w, sv)"
    "t = s\<lparr>sy_world := w, sy_process := p, sy_server := sv\<rparr>"
    "run_steps (process_step from_toml) (sy_process s)
       (if sv_watching (sy_server s) \<and> \<not> sv_watching sv then [ApWatcherEnds] else []) = Some p"
  then show ?thesis
    by (intro exI [of _ "if sv_watching (sy_server s) \<and> \<not> sv_watching sv then [ApWatcherEnds] else []"]) (simp add: parts_run_def)
qed

lemma manager_parts:
  assumes "system_manager from_toml me s = Some t"
  shows "\<exists>ps. parts_run uni from_toml s ps [me] [] t \<and> filter process_input ps = []"
  using assms
proof (rule system_managerE)
  fix w m p
  assume "manager_step (sy_world s, sy_manager s) me = Some (w, m)"
    "t = s\<lparr>sy_world := w, sy_process := p, sy_manager := m\<rparr>"
    "run_steps (process_step from_toml) (sy_process s) (if mg_pc m = MDone then [ApEnds ClientHandle True] else []) = Some p"
  then show ?thesis
    by (intro exI [of _ "if mg_pc m = MDone then [ApEnds ClientHandle True] else []"]) (auto simp: parts_run_def)
qed

lemma news_config: "MgConfig cfg \<in> set (manager_news news p) \<longleftrightarrow> news = Some cfg"
  by (auto simp: manager_news_def split: option.splits)

lemma news_server: "SvConfig cfg \<notin> set (server_news p)"
  by (simp add: server_news_def)

lemma system_step_parts:
  assumes "system_step uni from_toml s e = Some s'"
  shows "\<exists>ps ms ss. parts_run uni from_toml s ps ms ss s' \<and> filter process_input ps = process_events [e]
    \<and> (\<forall>cfg. MgConfig cfg \<in> set ms \<longrightarrow> (\<exists>pe. e = SyProcess pe \<and> broadcast from_toml (sy_process s) pe = Some cfg))
    \<and> (\<forall>cfg. SvConfig cfg \<in> set ss \<longrightarrow> cfg = ap_config (sy_process s))"
proof (cases e)
  case (SyTick d t)
  with assms show ?thesis
    by (intro exI [of _ "[]"] exI [of _ "[MgTick d t]"])
      (auto simp: system_step_def parts_run_def manager_step_def split: if_splits)
next
  case (SyProcess pe)
  with assms have i: "process_input pe" and "system_process uni from_toml pe s = Some s'"
    by (simp_all add: system_step_def split: if_splits)
  from this(2) show ?thesis
    by (rule system_processE) (intro exI [of _ "[pe]"] exI
        [of _ "manager_news (broadcast from_toml (sy_process s) pe) (sy_process s')"]
        exI [of _ "server_news (sy_process s')"], simp add: parts_run_def i SyProcess news_config news_server)
next
  case (SyManager me)
  with assms have i: "manager_input me" and t: "system_manager from_toml me s = Some s'"
    by (simp_all add: system_step_def split: if_splits)
  from manager_parts [OF t] obtain ps where "parts_run uni from_toml s ps [me] [] s'" "filter process_input ps = []" by blast
  with i show ?thesis by (intro exI [of _ ps] exI [of _ "[me]"] exI [of _ "[]"]) (auto simp: SyManager)
next
  case SyServerReads
  with assms obtain t where t: "system_server uni from_toml (SvConfig (ap_config (sy_process s))) s = Some t"
    "s' = t\<lparr>sy_unseen := False\<rparr>" by (auto simp: system_step_def split: if_splits)
  from server_parts [OF t(1)] obtain ps where "parts_run uni from_toml s ps [] [SvConfig (ap_config (sy_process s))] t"
    "filter process_input ps = []" by blast
  then show ?thesis
    by (intro exI [of _ ps] exI [of _ "[]"] exI [of _ "[SvConfig (ap_config (sy_process s))]"])
      (simp add: parts_run_def t(2) SyServerReads)
next
  case SyServerReturns
  with assms show ?thesis
    by (intro exI [of _ "[ApEnds ServerHandle True]"] exI [of _ "[]"])
      (auto simp: system_step_def parts_run_def split: if_splits)
next
  case (SyServer se)
  with assms have i: "server_input se" and t: "system_server uni from_toml se s = Some s'"
    by (simp_all add: system_step_def split: if_splits)
  from server_parts [OF t] obtain ps where "parts_run uni from_toml s ps [] [se] s'" "filter process_input ps = []" by blast
  with i show ?thesis by (intro exI [of _ ps] exI [of _ "[]"] exI [of _ "[se]"]) (auto simp: SyServer)
next
  case SyServerSenderGone
  with assms have t: "system_server uni from_toml SvConfigGone s = Some s'" by (simp add: system_step_def split: if_splits)
  from server_parts [OF t] obtain ps where "parts_run uni from_toml s ps [] [SvConfigGone] s'" "filter process_input ps = []" by blast
  then show ?thesis by (intro exI [of _ ps] exI [of _ "[]"] exI [of _ "[SvConfigGone]"]) (simp add: SyServerSenderGone)
qed

section \<open>What a step leaves alone\<close>

lemma manager_input_frame:
  assumes "manager_step (w, m) e = Some (w', m')" and "manager_input e" and "manager_inv (w, m)"
  shows "mg_config m' = mg_config m" "mg_cancelled m' = mg_cancelled m" "mg_sender m' = mg_sender m"
    "mg_pc m \<noteq> MDone" "mg_pc m' = MShutdown \<or> mg_pc m' = MDone \<Longrightarrow> mg_pc m = MShutdown \<or> mg_cancelled m \<or> \<not> mg_sender m"
proof -
  have poll: "mg_config m'' = mg_config m \<and> mg_cancelled m'' = mg_cancelled m \<and> mg_sender m'' = mg_sender m \<and> mg_pc m \<noteq> MDone
      \<and> (mg_pc m'' = MShutdown \<or> mg_pc m'' = MDone \<longrightarrow> mg_pc m = MShutdown \<or> mg_cancelled m \<or> \<not> mg_sender m)"
    if "manager_poll m = Some m''" for m''
  proof (cases "mg_await m")
    case (Some p)
    with that assms(3) show ?thesis
      by (auto simp: manager_poll_def manager_inv_def pc_inv_def all_tasks_def split: if_splits)
  next
    case None
    have spawn: "mg_sender (spawn_missing cc node ps m) = mg_sender m" for cc node ps
      by (induction cc node ps m rule: spawn_missing.induct) simp_all
    from None that show ?thesis
      by (cases "mg_pc m") (auto simp: manager_poll_def manager_head_def manager_shutdown_def Let_def
          spawn_missing_frame spawn split: if_splits option.splits)
  qed
  have stop: "mg_config m'' = mg_config m \<and> mg_cancelled m'' = mg_cancelled m \<and> mg_sender m'' = mg_sender m \<and> mg_pc m \<noteq> MDone
      \<and> (mg_pc m'' = MShutdown \<or> mg_pc m'' = MDone \<longrightarrow> mg_pc m = MShutdown)"
    if "manager_stop n m = Some m''" for n m''
    using that by (auto simp: manager_stop_def Let_def split: manager_pc.splits if_splits option.splits)
  have task: "mg_config m'' = mg_config m \<and> mg_cancelled m'' = mg_cancelled m \<and> mg_sender m'' = mg_sender m \<and> mg_pc m \<noteq> MDone
      \<and> mg_pc m'' = mg_pc m" if "manager_task h te (w, m) = Some (w'', m'')" for h te w'' m''
    using that assms(3) by (auto simp: manager_task_def update_task_def manager_inv_def pc_inv_def split: option.splits)
  from assms(1,2) have "mg_config m' = mg_config m \<and> mg_cancelled m' = mg_cancelled m \<and> mg_sender m' = mg_sender m \<and> mg_pc m \<noteq> MDone
      \<and> (mg_pc m' = MShutdown \<or> mg_pc m' = MDone \<longrightarrow> mg_pc m = MShutdown \<or> mg_cancelled m \<or> \<not> mg_sender m)"
    by (cases e) (auto simp: manager_step_def manager_shutdown_def split: task_event.splits if_splits dest!: poll stop task)
  then show "mg_config m' = mg_config m" "mg_cancelled m' = mg_cancelled m" "mg_sender m' = mg_sender m"
    "mg_pc m \<noteq> MDone" "mg_pc m' = MShutdown \<or> mg_pc m' = MDone \<Longrightarrow> mg_pc m = MShutdown \<or> mg_cancelled m \<or> \<not> mg_sender m"
    by simp_all
qed

lemma server_input_frame:
  assumes "server_step uni (w, sv) e = Some (w', sv')" and "server_input e"
  shows "sv_cancelled sv' = sv_cancelled sv" "sv_recv_timeout sv' = sv_recv_timeout sv"
    "sv_probe_timeout sv' = sv_probe_timeout sv"
    "sv_watching sv' = sv_watching sv \<or> \<not> sv_watching sv' \<and> sv_cancelled sv"
  using assms
  by (cases e; auto simp: server_step_def accept_conn_def accept_error_def accept_probe_def accept_probe_error_def
      step_conn_def Let_def split: if_splits option.splits)+

lemma manager_news_run:
  assumes "run_steps manager_step (w, m) (manager_news news p) = Some (w', m')"
  shows "w' = w" "mg_config m' = (case news of None \<Rightarrow> mg_config m | Some cfg \<Rightarrow> cfg)"
    "mg_cancelled m' \<longleftrightarrow> mg_cancelled m \<or> ap_cancelled p" "mg_sender m' \<longleftrightarrow> mg_sender m \<and> \<not> channel_closed p"
    "mg_changed m' \<longleftrightarrow> mg_changed m \<or> news \<noteq> None"
    "mg_pc m' = mg_pc m" "mg_tasks m' = mg_tasks m" "mg_leaving m' = mg_leaving m" "mg_await m' = mg_await m"
  using assms by (auto simp: manager_news_def manager_step_def split: option.splits if_splits)

lemma server_news_run:
  assumes "run_steps (server_step uni) (w, sv) (server_news p) = Some (w', sv')"
  shows "w' = w" "sv' = sv\<lparr>sv_cancelled := sv_cancelled sv \<or> ap_cancelled p\<rparr>"
  using assms by (auto simp: server_news_def server_step_def split: if_splits)

lemma process_input_frame:
  assumes "process_step from_toml p e = Some p'"
  shows "ap_cancelled p \<Longrightarrow> ap_cancelled p'" "channel_closed p \<Longrightarrow> channel_closed p'"
    "ap_config p' = (case broadcast from_toml p e of None \<Rightarrow> ap_config p | Some cfg \<Rightarrow> cfg)"
    "process_input e \<Longrightarrow> ap_rx_server p' = ap_rx_server p" "process_input e \<Longrightarrow> ap_rx_client p' = ap_rx_client p"
    "process_input e \<Longrightarrow> h \<noteq> MetricsHandle \<Longrightarrow> ap_join p' h = ap_join p h"
  using assms
  by (cases e; auto simp: process_step_def broadcast_def channel_closed_def watch_sighup_def shut_down_def join_next_def
      split: if_splits sum.splits phase.splits list.splits join.splits)+

section \<open>How the parts hang together\<close>

text \<open>
  The token and the channel are the same for all, a handle ends exactly when its task has
  returned, and no task returns before the token is cancelled.
\<close>

definition link_inv :: "process \<Rightarrow> manager \<Rightarrow> server \<Rightarrow> bool" where
  "link_inv p m sv \<longleftrightarrow>
     mg_cancelled m = ap_cancelled p \<and> sv_cancelled sv = ap_cancelled p
     \<and> mg_sender m = (\<not> channel_closed p) \<and> mg_config m = ap_config p
     \<and> sv_watching sv = ap_rx_server p \<and> ap_rx_client p = (mg_pc m \<noteq> MDone)
     \<and> ap_join p ClientHandle = (if mg_pc m = MDone then Ended True else Live)
     \<and> ap_join p ServerHandle \<in> {Live, Ended True}
     \<and> (ap_join p ServerHandle \<noteq> Live \<or> mg_pc m = MShutdown \<or> mg_pc m = MDone \<or> \<not> sv_watching sv \<longrightarrow> ap_cancelled p)"

text \<open>The server's timeouts are those of the channel's value, unless it has not seen that yet.\<close>

definition timeouts_inv :: "bool \<Rightarrow> process \<Rightarrow> server \<Rightarrow> bool" where
  "timeouts_inv unseen p sv \<longleftrightarrow>
     unseen \<or> (sv_recv_timeout sv = sc_heartbeat_recv_timeout (cfg_server (ap_config p))
              \<and> sv_probe_timeout sv = sc_probe_idle_timeout (cfg_server (ap_config p)))"

definition system_inv :: "system \<Rightarrow> bool" where
  "system_inv s \<longleftrightarrow>
     exit_inv (sy_process s) \<and> manager_inv (sy_world s, sy_manager s) \<and> tasks_inv (sy_world s, sy_server s)
     \<and> link_inv (sy_process s) (sy_manager s) (sy_server s) \<and> timeouts_inv (sy_unseen s) (sy_process s) (sy_server s)"

lemma closed_cancelled: "exit_inv p \<Longrightarrow> channel_closed p \<Longrightarrow> ap_cancelled p"
  by (auto simp: exit_inv_def channel_closed_def split: phase.splits)

lemma manager_inv_world: "manager_inv (w, m) = manager_inv (w', m)"
  by (simp add: manager_inv_def)

lemma tasks_inv_world: "tasks_inv (w, sv) = tasks_inv (w', sv)"
  by (simp add: tasks_inv_def)

lemma parts_run_inv:
  assumes "parts_run uni from_toml s ps ms ss s'" and "exit_inv (sy_process s)"
    and "manager_inv (sy_world s, sy_manager s)" and "tasks_inv (sy_world s, sy_server s)"
  shows "exit_inv (sy_process s')" "manager_inv (sy_world s', sy_manager s')" "tasks_inv (sy_world s', sy_server s')"
proof -
  from assms(1) obtain w where p: "run_steps (process_step from_toml) (sy_process s) ps = Some (sy_process s')"
    and m: "run_steps manager_step (sy_world s, sy_manager s) ms = Some (w, sy_manager s')"
    and sv: "run_steps (server_step uni) (w, sy_server s) ss = Some (sy_world s', sy_server s')"
    by (auto simp: parts_run_def)
  show "exit_inv (sy_process s')" by (rule process_exit.inv_run [OF p assms(2)])
  show "manager_inv (sy_world s', sy_manager s')"
    using manager_machine.inv_run [OF m assms(3)] manager_inv_world by blast
  show "tasks_inv (sy_world s', sy_server s')"
    using server_tasks.inv_run [OF sv] assms(4) tasks_inv_world by blast
qed

lemma link_process:
  assumes "system_process uni from_toml e s = Some s'" and "process_input e" and "system_inv s"
  shows "link_inv (sy_process s') (sy_manager s') (sy_server s') \<and> timeouts_inv (sy_unseen s') (sy_process s') (sy_server s')"
  using assms(1)
proof (rule system_processE)
  fix w m sv p
  assume p: "process_step from_toml (sy_process s) e = Some p"
    and m: "run_steps manager_step (sy_world s, sy_manager s) (manager_news (broadcast from_toml (sy_process s) e) p) = Some (w, m)"
    and sv: "run_steps (server_step uni) (w, sy_server s) (server_news p) = Some (sy_world s', sv)"
    and s': "sy_process s' = p" "sy_manager s' = m" "sy_server s' = sv"
      "sy_unseen s' \<longleftrightarrow> sy_unseen s \<or> broadcast from_toml (sy_process s) e \<noteq> None"
  note f = process_input_frame [OF p] manager_news_run [OF m] server_news_run [OF sv]
  from assms(3) have inv: "link_inv (sy_process s) (sy_manager s) (sy_server s)"
    "timeouts_inv (sy_unseen s) (sy_process s) (sy_server s)" by (simp_all add: system_inv_def)
  have "link_inv p m sv"
    using inv(1) f(1,2) assms(2)
    by (auto simp: link_inv_def f(3-) split: option.splits)
  moreover have "timeouts_inv (sy_unseen s') p sv"
    using inv(2) by (auto simp: timeouts_inv_def s'(4) f(3) f(17) split: option.splits)
  ultimately show ?thesis by (simp add: s')
qed

lemma link_manager:
  assumes "system_manager from_toml e s = Some s'" and "manager_input e" and "system_inv s"
  shows "link_inv (sy_process s') (sy_manager s') (sy_server s') \<and> timeouts_inv (sy_unseen s') (sy_process s') (sy_server s')"
  using assms(1)
proof (rule system_managerE)
  fix w m p
  assume m: "manager_step (sy_world s, sy_manager s) e = Some (w, m)"
    and s': "s' = s\<lparr>sy_world := w, sy_process := p, sy_manager := m\<rparr>"
    and p: "run_steps (process_step from_toml) (sy_process s) (if mg_pc m = MDone then [ApEnds ClientHandle True] else []) = Some p"
  from assms(3) have inv: "link_inv (sy_process s) (sy_manager s) (sy_server s)"
    "timeouts_inv (sy_unseen s) (sy_process s) (sy_server s)" "manager_inv (sy_world s, sy_manager s)" "exit_inv (sy_process s)"
    by (simp_all add: system_inv_def)
  note f = manager_input_frame [OF m assms(2) inv(3)]
  have down: "ap_cancelled (sy_process s)" if "mg_pc m = MShutdown \<or> mg_pc m = MDone"
    using f(5) [OF that] inv(1) closed_cancelled [OF inv(4)] by (auto simp: link_inv_def)
  show ?thesis
  proof (cases "mg_pc m = MDone")
    case True
    with p have "p = (sy_process s)\<lparr>ap_join := (ap_join (sy_process s))(ClientHandle := Ended True), ap_rx_client := False\<rparr>"
      by (auto simp: process_step_def split: if_splits)
    with inv(1,2) f(1-4) down True show ?thesis by (simp add: s' link_inv_def timeouts_inv_def channel_closed_def)
  next
    case False
    with p have "p = sy_process s" by simp
    with inv(1,2) f(1-4) down False show ?thesis by (auto simp: s' link_inv_def timeouts_inv_def)
  qed
qed

lemma link_server:
  assumes "system_server uni from_toml e s = Some s'" and "system_inv s" and "s'' = s'\<lparr>sy_unseen := u\<rparr>"
    and "server_input e \<and> u = sy_unseen s \<or> e = SvConfig (ap_config (sy_process s)) \<and> u = False
      \<or> e = SvConfigGone \<and> channel_closed (sy_process s) \<and> u = sy_unseen s"
  shows "link_inv (sy_process s'') (sy_manager s'') (sy_server s'') \<and> timeouts_inv (sy_unseen s'') (sy_process s'') (sy_server s'')"
  using assms(1)
proof (rule system_serverE)
  fix w sv p
  assume sv: "server_step uni (sy_world s, sy_server s) e = Some (w, sv)"
    and s': "s' = s\<lparr>sy_world := w, sy_process := p, sy_server := sv\<rparr>"
    and p: "run_steps (process_step from_toml) (sy_process s)
      (if sv_watching (sy_server s) \<and> \<not> sv_watching sv then [ApWatcherEnds] else []) = Some p"
  from assms(2) have inv: "link_inv (sy_process s) (sy_manager s) (sy_server s)"
    "timeouts_inv (sy_unseen s) (sy_process s) (sy_server s)" "exit_inv (sy_process s)" by (simp_all add: system_inv_def)
  have "sv_cancelled sv = sv_cancelled (sy_server s) \<and> timeouts_inv u (sy_process s) sv
    \<and> (sv_watching sv = sv_watching (sy_server s) \<or> \<not> sv_watching sv \<and> ap_cancelled (sy_process s))"
    using assms(4)
  proof (elim disjE conjE)
    assume i: "server_input e" and u: "u = sy_unseen s"
    note f = server_input_frame [OF sv i]
    show ?thesis
      using f inv(1,2) by (auto simp: timeouts_inv_def link_inv_def u)
  qed (use sv inv(1,2) closed_cancelled [OF inv(3)] in
      \<open>auto simp: server_step_def watch_config_def Let_def timeouts_inv_def split: if_splits\<close>)
  then have eff: "sv_cancelled sv = sv_cancelled (sy_server s)" "timeouts_inv u (sy_process s) sv"
    "sv_watching sv = sv_watching (sy_server s) \<or> \<not> sv_watching sv \<and> ap_cancelled (sy_process s)" by blast+
  show ?thesis
  proof (cases "sv_watching (sy_server s) \<and> \<not> sv_watching sv")
    case True
    with p have "p = (sy_process s)\<lparr>ap_rx_server := False\<rparr>" by (simp add: process_step_def)
    with eff inv(1) True show ?thesis by (auto simp: assms(3) s' link_inv_def timeouts_inv_def channel_closed_def)
  next
    case False
    with p have "p = sy_process s" by auto
    with eff inv(1) False show ?thesis by (auto simp: assms(3) s' link_inv_def)
  qed
qed

lemma link_returns:
  assumes "process_step from_toml (sy_process s) (ApEnds ServerHandle True) = Some p"
    and "run_result (sy_server s) \<noteq> Running" and "system_inv s"
  shows "link_inv p (sy_manager s) (sy_server s) \<and> timeouts_inv (sy_unseen s) p (sy_server s)"
proof -
  from assms(1) have p: "p = (sy_process s)\<lparr>ap_join := (ap_join (sy_process s))(ServerHandle := Ended True)\<rparr>"
    by (cases "sy_process s") (auto simp: process_step_def split: if_splits)
  from assms(3) have inv: "link_inv (sy_process s) (sy_manager s) (sy_server s)"
    "timeouts_inv (sy_unseen s) (sy_process s) (sy_server s)" "tasks_inv (sy_world s, sy_server s)" by (simp_all add: system_inv_def)
  from assms(2) inv(1,3) have "ap_cancelled (sy_process s)"
    by (auto simp: run_result_def tasks_inv_def link_inv_def split: if_splits)
  with inv(1,2) show ?thesis by (simp add: p link_inv_def timeouts_inv_def channel_closed_def)
qed

lemma system_step_linked:
  assumes step: "system_step uni from_toml s e = Some s'" and inv: "system_inv s"
  shows "link_inv (sy_process s') (sy_manager s') (sy_server s') \<and> timeouts_inv (sy_unseen s') (sy_process s') (sy_server s')"
proof (cases e)
  case (SyTick d t)
  with step inv show ?thesis by (auto simp: system_step_def system_inv_def split: if_splits)
next
  case (SyProcess pe)
  with step inv link_process show ?thesis by (auto simp: system_step_def split: if_splits)
next
  case (SyManager me)
  with step inv link_manager show ?thesis by (auto simp: system_step_def split: if_splits)
next
  case (SyServer se)
  with step have "server_input se" "system_server uni from_toml se s = Some s'"
    by (auto simp: system_step_def split: if_splits)
  then show ?thesis by (intro link_server [OF _ inv, of uni from_toml se s' s' "sy_unseen s"]) (auto elim!: system_serverE)
next
  case SyServerReads
  with step obtain t where "system_server uni from_toml (SvConfig (ap_config (sy_process s))) s = Some t"
    "s' = t\<lparr>sy_unseen := False\<rparr>" by (auto simp: system_step_def split: if_splits)
  then show ?thesis by (intro link_server [OF _ inv]) auto
next
  case SyServerSenderGone
  with step have "channel_closed (sy_process s)" "system_server uni from_toml SvConfigGone s = Some s'"
    by (auto simp: system_step_def split: if_splits)
  then show ?thesis by (intro link_server [OF _ inv, of uni from_toml SvConfigGone s' s' "sy_unseen s"]) (auto elim!: system_serverE)
next
  case SyServerReturns
  with step obtain p where "process_step from_toml (sy_process s) (ApEnds ServerHandle True) = Some p"
    "run_result (sy_server s) \<noteq> Running" "s' = s\<lparr>sy_process := p\<rparr>" by (auto simp: system_step_def split: if_splits)
  with link_returns [OF _ _ inv] show ?thesis by simp
qed

interpretation system_machine: stepper "system_step uni from_toml" system_inv for uni from_toml
proof
  fix s e s'
  assume step: "system_step uni from_toml s e = Some s'" and inv: "system_inv s"
  from system_step_parts [OF step] obtain ps ms ss where "parts_run uni from_toml s ps ms ss s'" by (elim exE conjE)
  from parts_run_inv [OF this] system_step_linked [OF step inv] inv show "system_inv s'"
    by (simp add: system_inv_def)
qed

lemma system_start_inv: "system_inv (system_start time path cfg)"
  by (simp add: system_inv_def system_start_def process_start_inv(1) manager_start_inv)
    (simp add: process_start_def manager_start_def server_start_def tasks_inv_def link_inv_def timeouts_inv_def channel_closed_def)

text \<open>A run of the system is a run of the process machine, with the same events from outside.\<close>

lemma system_run_process:
  assumes "run_steps (system_step uni from_toml) s es = Some s'"
  shows "\<exists>ps. run_steps (process_step from_toml) (sy_process s) ps = Some (sy_process s')
    \<and> filter process_input ps = process_events es"
  using assms
proof (induction es arbitrary: s)
  case Nil
  then show ?case by (intro exI [of _ "[]"]) simp
next
  case (Cons e es)
  then obtain t where t: "system_step uni from_toml s e = Some t" "run_steps (system_step uni from_toml) t es = Some s'"
    by (auto split: option.splits)
  from system_step_parts [OF t(1)] obtain ps where "run_steps (process_step from_toml) (sy_process s) ps = Some (sy_process t)"
    "filter process_input ps = process_events [e]" by (auto simp: parts_run_def)
  moreover from Cons.IH [OF t(2)] obtain qs where "run_steps (process_step from_toml) (sy_process t) qs = Some (sy_process s')"
    "filter process_input qs = process_events es" by blast
  moreover have "process_events (e # es) = process_events [e] @ process_events es" by (cases e) simp_all
  ultimately show ?case by (intro exI [of _ "ps @ qs"]) (simp add: run_steps_append)
qed

lemma reloaded_input: "foldl (reloaded from_toml path) c ps = foldl (reloaded from_toml path) c (filter process_input ps)"
proof (induction ps arbitrary: c)
  case (Cons e ps)
  have "reloaded from_toml path c e = c" if "\<not> process_input e"
    using that by (cases e) (simp_all add: reloaded_def)
  with Cons show ?case by simp
qed simp

lemma early_input: "foldl early_stop g ps = foldl early_stop g (filter process_input ps)"
proof (induction ps arbitrary: g)
  case (Cons e ps)
  have "early_stop g e = g" if "\<not> process_input e"
    using that by (cases e) (simp_all add: early_stop_def)
  with Cons show ?case by simp
qed simp

lemma cause_input: "stop_cause installed ps = stop_cause installed (filter process_input ps)"
  by (induction installed ps rule: stop_cause.induct) simp_all

section \<open>The gauges of the whole process\<close>

interpretation manager_shown:
  stepper manager_step "\<lambda>s. manager_inv s \<and> clients_shown (w_metrics (fst s)) (views (snd s))"
proof
  fix s e s'
  assume "manager_step s e = Some s'" and "manager_inv s \<and> clients_shown (w_metrics (fst s)) (views (snd s))"
  then show "manager_inv s' \<and> clients_shown (w_metrics (fst s')) (views (snd s'))"
    using manager_machine.inv_step [of s e s'] shown_manager [of "fst s" "snd s" e "fst s'" "snd s'"] by simp
qed

text \<open>In a run of one side the other side's gauges keep a given reading.\<close>

interpretation manager_frame: stepper manager_step "\<lambda>s. \<forall>l. gauge_value (w_metrics (fst s)) server_session_active l = g l" for g
proof
  fix s e s'
  assume "manager_step s e = Some s'" and "\<forall>l. gauge_value (w_metrics (fst s)) server_session_active l = g l"
  then show "\<forall>l. gauge_value (w_metrics (fst s')) server_session_active l = g l"
    using manager_server_gauge [of "fst s" "snd s" e "fst s'" "snd s'"] by simp
qed

interpretation server_frame:
  stepper "server_step uni" "\<lambda>s. \<forall>f l. f \<noteq> server_session_active \<longrightarrow> gauge_value (w_metrics (fst s)) f l = g f l" for uni g
proof
  fix s e s'
  assume "server_step uni s e = Some s'" and "\<forall>f l. f \<noteq> server_session_active \<longrightarrow> gauge_value (w_metrics (fst s)) f l = g f l"
  then show "\<forall>f l. f \<noteq> server_session_active \<longrightarrow> gauge_value (w_metrics (fst s')) f l = g f l"
    using server_client_gauges [of uni "fst s" "snd s" e "fst s'" "snd s'"] by simp
qed

definition shown_inv :: "system \<Rightarrow> bool" where
  "shown_inv s \<longleftrightarrow>
     system_inv s \<and> clients_shown (w_metrics (sy_world s)) (views (sy_manager s)) \<and> gauge_inv (sy_world s, sy_server s)"

interpretation system_shown: stepper "system_step uni from_toml" shown_inv for uni from_toml
proof
  fix s e s'
  assume step: "system_step uni from_toml s e = Some s'" and inv: "shown_inv s"
  from system_step_parts [OF step] obtain ps ms ss w where
    m: "run_steps manager_step (sy_world s, sy_manager s) ms = Some (w, sy_manager s')" and
    sv: "run_steps (server_step uni) (w, sy_server s) ss = Some (sy_world s', sy_server s')" by (auto simp: parts_run_def)
  from inv have i: "system_inv s" "manager_inv (sy_world s, sy_manager s)"
    "clients_shown (w_metrics (sy_world s)) (views (sy_manager s))" "gauge_inv (sy_world s, sy_server s)"
    by (simp_all add: shown_inv_def system_inv_def)
  have "clients_shown (w_metrics w) (views (sy_manager s'))"
    using manager_shown.inv_run [OF m] i(2,3) by simp
  moreover have "gauge_value (w_metrics (sy_world s')) f l = gauge_value (w_metrics w) f l" if "f \<noteq> server_session_active" for f l
    using server_frame.inv_run [OF sv, of "gauge_value (w_metrics w)"] that by simp
  ultimately have "clients_shown (w_metrics (sy_world s')) (views (sy_manager s'))" using shown_cong by blast
  moreover have "gauge_value (w_metrics w) server_session_active l = gauge_value (w_metrics (sy_world s)) server_session_active l" for l
    using manager_frame.inv_run [OF m, of "gauge_value (w_metrics (sy_world s)) server_session_active"] by simp
  with i(4) have "gauge_inv (w, sy_server s)" by (simp add: gauge_inv_def)
  from server_gauge.inv_run [OF sv this] have "gauge_inv (sy_world s', sy_server s')" .
  ultimately show "shown_inv s'"
    using system_machine.inv_step [OF step i(1)] by (simp add: shown_inv_def)
qed

lemma boot_start:
  assumes "boot read_file from_toml os_bind time args = Inr s"
  obtains path cfg where "s = system_start time path cfg" "config_ok cfg" "load read_file from_toml path = Inr cfg"
proof -
  from assms obtain path cfg ls addr where "start_up read_file from_toml os_bind args = Serve path cfg ls addr"
    "s = system_start time path cfg" by (auto simp: boot_def split: started.splits)
  moreover from this(1) have "load read_file from_toml path = Inr cfg"
    by (auto simp: start_up_def Let_def split: sum.splits command.splits option.splits)
  ultimately show ?thesis using that load_ok by blast
qed

lemma boot_inv:
  assumes "boot read_file from_toml os_bind time args = Inr s"
  shows "shown_inv s"
  using assms
proof (rule boot_start)
  fix path cfg assume "s = system_start time path cfg"
  moreover have "gauge_value metrics_new f l = None" for f l by (simp add: gauge_value_def read_calls_def)
  ultimately show ?thesis
    by (simp add: shown_inv_def system_start_inv)
      (simp add: system_start_def clients_shown_def gauge_inv_def views_def all_tasks_def manager_start_def)
qed

section \<open>Stopping\<close>

text \<open>
  Before the token is cancelled the server and the manager run, so no task but the metrics server
  can end the select.
\<close>

interpretation system_early:
  stepper "with_ghost (system_step uni from_toml) (\<lambda>g e. foldl early_stop g (process_events [e]))"
    "\<lambda>s. system_inv (snd s) \<and> fst s \<in> {None, Some MetricsHandle}" for uni from_toml
proof
  fix x e x'
  assume "with_ghost (system_step uni from_toml) (\<lambda>g e. foldl early_stop g (process_events [e])) x e = Some x'"
    and "system_inv (snd x) \<and> fst x \<in> {None, Some MetricsHandle}"
  then obtain g s s' where x: "x = (g, s)" "x' = (foldl early_stop g (process_events [e]), s')"
    and step: "system_step uni from_toml s e = Some s'" and inv: "system_inv s" and g: "g \<in> {None, Some MetricsHandle}"
    by (cases x) (auto simp: with_ghost_def)
  have "h = MetricsHandle" if e: "e = SyProcess (ApSelect h)" for h
  proof -
    from step e have "ap_phase (sy_process s) = Selecting" "ap_join (sy_process s) h \<noteq> Live"
      by (auto simp: system_step_def system_process_def process_step_def split: if_splits)
    with inv show ?thesis by (cases h) (auto simp: system_inv_def exit_inv_def link_inv_def split: if_splits)
  qed
  then have "foldl early_stop g (process_events [e]) \<in> {None, Some MetricsHandle}"
    using g by (cases e) (auto simp: early_stop_def split: process_event.splits)
  with system_machine.inv_step [OF step inv] show "system_inv (snd x') \<and> fst x' \<in> {None, Some MetricsHandle}"
    by (simp add: x)
qed

definition first_stop :: "system_event list \<Rightarrow> handle option" where
  "first_stop es = foldl early_stop None (process_events es)"

lemma process_events_append: "process_events (es @ fs) = process_events es @ process_events fs"
  by (induction es rule: process_events.induct) simp_all

lemma ghost_early:
  "foldl (\<lambda>g e. foldl early_stop g (process_events [e])) g es = foldl early_stop g (process_events es)"
proof (induction es arbitrary: g)
  case (Cons e es)
  then show ?case using process_events_append [of "[e]" es] by simp
qed simp

lemma first_stop_cases:
  assumes "run_steps (system_step uni from_toml) s0 es = Some s" and "system_inv s0"
  shows "first_stop es = None \<or> first_stop es = Some MetricsHandle"
proof -
  have "run_steps (with_ghost (system_step uni from_toml) (\<lambda>g e. foldl early_stop g (process_events [e]))) (None, s0) es
      = Some (first_stop es, s)" by (simp add: run_with_ghost assms(1) ghost_early first_stop_def)
  from system_early.inv_run [OF this] assms(2) show ?thesis by simp
qed

lemma system_run_early:
  assumes "run_steps (system_step uni from_toml) (system_start time path cfg) es = Some s"
  shows "early_inv (first_stop es, sy_process s)"
proof -
  from system_run_process [OF assms] obtain ps where
    ps: "run_steps (process_step from_toml) (process_start path cfg) ps = Some (sy_process s)" "filter process_input ps = process_events es"
    by (auto simp: system_start_def)
  have "run_steps (with_ghost (process_step from_toml) early_stop) (None, process_start path cfg) ps = Some (first_stop es, sy_process s)"
    using early_input [of None ps] by (simp add: run_with_ghost ps first_stop_def)
  moreover have "early_inv (None, process_start path cfg)"
    by (simp add: early_inv_def process_start_inv(1)) (simp add: process_start_def)
  ultimately show ?thesis by (rule process_early.inv_run)
qed

lemma system_run_cause:
  assumes "run_steps (system_step uni from_toml) (system_start time path cfg) es = Some s"
  shows "stop_cause True (process_events es) = None \<longleftrightarrow> ap_phase (sy_process s) = Selecting"
    "first_stop es = ended_by (stop_cause True (process_events es))"
proof -
  have start: "ap_phase (process_start path cfg) = Selecting" "ap_sigterm (process_start path cfg)"
    by (simp_all add: process_start_def)
  from system_run_process [OF assms] obtain ps where
    ps: "run_steps (process_step from_toml) (process_start path cfg) ps = Some (sy_process s)" "filter process_input ps = process_events es"
    by (auto simp: system_start_def)
  from stop_cause_run [OF ps(1) start(1)] start(2) ps(2) cause_input [of True ps] early_input [of None ps]
  show "stop_cause True (process_events es) = None \<longleftrightarrow> ap_phase (sy_process s) = Selecting"
    "first_stop es = ended_by (stop_cause True (process_events es))" by (simp_all add: first_stop_def)
qed

definition exit_of :: "handle option \<Rightarrow> exit_code" where
  "exit_of early = (if early = None then SUCCESS else FAILURE)"

lemma exit_of_iff: "exit = exit_of g \<longleftrightarrow> (exit = SUCCESS \<longleftrightarrow> g = None)"
  by (cases exit) (auto simp: exit_of_def)

text \<open>Neither task ever fails, so only what ended the select decides the code.\<close>

lemma exited_code:
  assumes "early_inv (g, p)" and "link_inv p m sv" and "ap_phase p = Exited exit"
  shows "exit = exit_of g" "mg_pc m = MDone" "ap_cancelled p"
proof -
  from assms(1,3) have e: "exit_inv p"
    and c: "exit = SUCCESS \<longleftrightarrow> g = None \<and> ap_join p ServerHandle = Ended True \<and> ap_join p ClientHandle = Ended True"
    by (simp_all add: early_inv_def)
  from e assms(3) have j: "ap_cancelled p" "ap_join p ServerHandle \<noteq> Live" "ap_join p ClientHandle \<noteq> Live"
    by (simp_all add: exit_inv_def)
  with assms(2) have t: "ap_join p ServerHandle = Ended True" "ap_join p ClientHandle = Ended True" "mg_pc m = MDone"
    by (auto simp: link_inv_def split: if_splits)
  with c show "exit = exit_of g" unfolding exit_of_iff by blast
  from t j show "mg_pc m = MDone" "ap_cancelled p" by simp_all
qed

lemma joining_code:
  assumes "early_inv (g, p)" and "link_inv p m sv" and "ap_phase p = Joining early exit rest"
  shows "exit = exit_of g"
proof -
  from assms(1,3) have e: "exit_inv p" and g: "g = early" by (simp_all add: early_inv_def)
  from e assms(3) have live: "\<forall>h \<in> {ServerHandle, ClientHandle}. h \<notin> set rest \<longrightarrow> ap_join p h \<noteq> Live"
    and c: "exit = SUCCESS \<longleftrightarrow> early = None \<and> (\<forall>h \<in> {ServerHandle, ClientHandle}. h \<in> set rest \<or> ap_join p h = Ended True)"
    by (simp_all add: exit_inv_def)
  from live assms(2) have "\<forall>h \<in> {ServerHandle, ClientHandle}. h \<in> set rest \<or> ap_join p h = Ended True"
    by (auto simp: link_inv_def split: if_splits)
  with c g show ?thesis unfolding exit_of_iff by blast
qed

section \<open>Finishing a shutdown\<close>

text \<open>The steps the process can take by itself, without the network, the clock, or a signal.\<close>

fun system_own :: "system_event \<Rightarrow> bool" where
  "system_own (SyManager e) \<longleftrightarrow> own_event e"
| "system_own SyServerReturns \<longleftrightarrow> True"
| "system_own (SyProcess e) \<longleftrightarrow> e = ApJoin"
| "system_own _ \<longleftrightarrow> False"

lemma own_input: "own_event e \<Longrightarrow> manager_input e"
  by (cases e) simp_all

lemma lift_manager_step:
  assumes "manager_step (sy_world s, sy_manager s) e = Some (w, m)" and "own_event e"
    and inv: "system_inv s" and run: "\<not> exited (sy_process s)"
  shows "\<exists>s'. system_step uni from_toml s (SyManager e) = Some s' \<and> sy_world s' = w \<and> sy_manager s' = m
    \<and> ap_phase (sy_process s') = ap_phase (sy_process s)"
proof -
  from inv have "mg_pc (sy_manager s) \<noteq> MDone"
    using manager_input_frame(4) [OF assms(1) own_input [OF assms(2)]] by (simp add: system_inv_def)
  with inv have "ap_join (sy_process s) ClientHandle = Live" by (simp add: system_inv_def link_inv_def)
  then show ?thesis
    using assms own_input [OF assms(2)] by (simp add: system_step_def system_manager_def process_step_def)
qed

lemma lift_manager:
  assumes "run_steps manager_step (sy_world s, sy_manager s) ms = Some (w, m)" and "list_all own_event ms"
    and "system_inv s" and "\<not> exited (sy_process s)"
  shows "\<exists>s'. run_steps (system_step uni from_toml) s (map SyManager ms) = Some s' \<and> sy_manager s' = m
    \<and> ap_phase (sy_process s') = ap_phase (sy_process s)"
  using assms
proof (induction ms arbitrary: s)
  case (Cons e ms)
  from Cons.prems(1) obtain w1 m1 where e: "manager_step (sy_world s, sy_manager s) e = Some (w1, m1)"
    and rest: "run_steps manager_step (w1, m1) ms = Some (w, m)" by (auto split: option.splits)
  from Cons.prems(2) have "own_event e" by simp
  from lift_manager_step [OF e this Cons.prems(3,4), of uni from_toml] obtain s1 where
    s1: "system_step uni from_toml s (SyManager e) = Some s1" "sy_world s1 = w1" "sy_manager s1 = m1"
      "ap_phase (sy_process s1) = ap_phase (sy_process s)" by blast
  have "\<not> exited (sy_process s1)" using Cons.prems(4) s1(4) by (simp add: exited_def)
  with Cons.IH [of s1] rest Cons.prems(2) system_machine.inv_step [OF s1(1) Cons.prems(3)] s1 show ?case by auto
qed simp

text \<open>An event of \<open>main\<close> that sends no configuration always goes through.\<close>

lemma process_goes_through:
  assumes "process_step from_toml (sy_process s) e = Some p" and "broadcast from_toml (sy_process s) e = None"
  shows "\<exists>s'. system_process uni from_toml e s = Some s' \<and> sy_process s' = p"
proof -
  have "\<exists>m'. run_steps manager_step (w, m) (manager_news None p) = Some (w, m')" for w m
    by (simp add: manager_news_def manager_step_def)
  then obtain m' where "run_steps manager_step (sy_world s, sy_manager s) (manager_news None p) = Some (sy_world s, m')" by blast
  moreover have "\<exists>sv'. run_steps (server_step uni) (w, sv) (server_news p) = Some (w, sv')" for w sv
    by (simp add: server_news_def server_step_def)
  then obtain sv' where "run_steps (server_step uni) (sy_world s, sy_server s) (server_news p) = Some (sy_world s, sv')" by blast
  ultimately show ?thesis using assms by (simp add: system_process_def Let_def)
qed

lemma joins_end:
  assumes "ap_phase (sy_process s) = Joining early exit rest"
    and "ap_join (sy_process s) ServerHandle = Ended True" and "ap_join (sy_process s) ClientHandle = Ended True"
    and "set rest \<subseteq> {ServerHandle, ClientHandle}"
  shows "\<exists>fs s'. list_all system_own fs \<and> run_steps (system_step uni from_toml) s fs = Some s'
    \<and> ap_phase (sy_process s') = Exited exit"
  using assms
proof (induction rest arbitrary: s)
  case Nil
  have "process_step from_toml (sy_process s) ApJoin = Some ((sy_process s)\<lparr>ap_phase := Exited exit\<rparr>)"
    using Nil(1) by (simp add: process_step_def join_next_def)
  from process_goes_through [OF this, of uni] obtain s' where s':
    "system_process uni from_toml ApJoin s = Some s'" "sy_process s' = (sy_process s)\<lparr>ap_phase := Exited exit\<rparr>"
    by (auto simp: broadcast_def)
  then show ?case
    using Nil(1) by (intro exI [of _ "[SyProcess ApJoin]"]) (simp add: system_step_def exited_def)
next
  case (Cons h rest)
  then have "ap_join (sy_process s) h = Ended True" by auto
  with Cons.prems(1) have "process_step from_toml (sy_process s) ApJoin
      = Some ((sy_process s)\<lparr>ap_errors := ap_errors (sy_process s), ap_phase := Joining early exit rest\<rparr>)"
    by (simp add: process_step_def join_next_def)
  from process_goes_through [OF this, of uni] obtain s1 where s1: "system_process uni from_toml ApJoin s = Some s1"
    "sy_process s1 = (sy_process s)\<lparr>ap_errors := ap_errors (sy_process s), ap_phase := Joining early exit rest\<rparr>"
    by (auto simp: broadcast_def)
  from Cons.IH [of s1] Cons.prems s1(2) obtain fs s' where "list_all system_own fs"
    "run_steps (system_step uni from_toml) s1 fs = Some s'" "ap_phase (sy_process s') = Exited exit" by auto
  moreover have "system_step uni from_toml s (SyProcess ApJoin) = Some s1"
    using s1(1) Cons.prems(1) by (simp add: system_step_def exited_def)
  ultimately show ?case by (intro exI [of _ "SyProcess ApJoin # fs"]) simp
qed

lemma server_returns:
  assumes "system_inv s" and "ap_cancelled (sy_process s)" and "\<not> exited (sy_process s)"
  obtains fs s' where "list_all system_own fs" "run_steps (system_step uni from_toml) s fs = Some s'"
    "ap_phase (sy_process s') = ap_phase (sy_process s)" "sy_manager s' = sy_manager s"
    "ap_join (sy_process s') ServerHandle = Ended True"
proof (cases "ap_join (sy_process s) ServerHandle = Live")
  case True
  from assms(1,2) have "run_result (sy_server s) \<noteq> Running" by (simp add: system_inv_def link_inv_def run_result_def)
  with True assms(3) have "system_step uni from_toml s SyServerReturns = Some (s\<lparr>sy_process := (sy_process s)
      \<lparr>ap_join := (ap_join (sy_process s))(ServerHandle := Ended True), ap_rx_client := ap_rx_client (sy_process s)\<rparr>\<rparr>)"
    by (simp add: system_step_def process_step_def)
  then show ?thesis
    by (intro that [of "[SyServerReturns]" "s\<lparr>sy_process := (sy_process s)
      \<lparr>ap_join := (ap_join (sy_process s))(ServerHandle := Ended True), ap_rx_client := ap_rx_client (sy_process s)\<rparr>\<rparr>"])
      simp_all
next
  case False
  with assms(1) show ?thesis by (intro that [of "[]" s]) (auto simp: system_inv_def link_inv_def)
qed

lemma shutdown_reaches_exit:
  assumes inv: "system_inv s" and c: "ap_cancelled (sy_process s)" and ph: "ap_phase (sy_process s) = Joining early exit rest"
  shows "\<exists>fs s'. list_all system_own fs \<and> run_steps (system_step uni from_toml) s fs = Some s'
    \<and> ap_phase (sy_process s') = Exited exit"
proof -
  from ph have run: "\<not> exited (sy_process s)" by (simp add: exited_def)
  from inv c have "manager_inv (sy_world s, sy_manager s)" "mg_cancelled (sy_manager s)"
    by (simp_all add: system_inv_def link_inv_def)
  from manager_finishes [OF this] obtain ms w m where ms: "list_all own_event ms"
    "run_steps manager_step (sy_world s, sy_manager s) ms = Some (w, m)" "mg_pc m = MDone" by blast
  from lift_manager [OF ms(2,1) inv run, of uni from_toml] obtain s1 where
    r1: "run_steps (system_step uni from_toml) s (map SyManager ms) = Some s1" "sy_manager s1 = m"
      "ap_phase (sy_process s1) = ap_phase (sy_process s)" by blast
  from system_machine.inv_run [OF r1(1) inv] have inv1: "system_inv s1" .
  with r1 ph have c1: "ap_cancelled (sy_process s1)" "\<not> exited (sy_process s1)"
    by (simp_all add: system_inv_def exit_inv_def exited_def)
  from server_returns [OF inv1 this] obtain fs s2 where r2: "list_all system_own fs"
    "run_steps (system_step uni from_toml) s1 fs = Some s2" "ap_phase (sy_process s2) = ap_phase (sy_process s1)"
    "sy_manager s2 = sy_manager s1" "ap_join (sy_process s2) ServerHandle = Ended True" by blast
  from system_machine.inv_run [OF r2(2) inv1] r1(2) r2(3,4) r1(3) ph ms(3)
  have "ap_join (sy_process s2) ClientHandle = Ended True" "set rest \<subseteq> {ServerHandle, ClientHandle}"
    by (simp_all add: system_inv_def link_inv_def exit_inv_def)
  with joins_end [of s2 early exit rest uni from_toml] r1(3) r2(3,5) ph obtain gs s3 where r3: "list_all system_own gs"
    "run_steps (system_step uni from_toml) s2 gs = Some s3" "ap_phase (sy_process s3) = Exited exit" by auto
  have "list_all system_own (map SyManager ms)" using ms(1) by (simp add: list_all_iff)
  with r2(1) r3 show ?thesis
    by (intro exI [of _ "map SyManager ms @ fs @ gs"] exI [of _ s3]) (simp add: run_steps_append r1(1) r2(2))
qed

section \<open>The names in the labels\<close>

text \<open>The peer names of all configurations that were in effect, as the SIGHUPs bring them.\<close>

definition seen_names :: "(rstr \<Rightarrow> rstr + raw_config) \<Rightarrow> rstr \<Rightarrow> rstr set \<Rightarrow> system_event \<Rightarrow> rstr set" where
  "seen_names from_toml path N e =
     (case e of
        SyProcess (ApSighup read_file) \<Rightarrow>
          (case load read_file from_toml path of Inl _ \<Rightarrow> N | Inr cfg \<Rightarrow> N \<union> peer_names cfg)
      | _ \<Rightarrow> N)"

definition labels_inv :: "(rchar \<Rightarrow> bool) \<Rightarrow> rstr \<Rightarrow> rstr set \<times> system \<Rightarrow> bool" where
  "labels_inv uni path x =
     (case x of (N, s) \<Rightarrow>
        system_inv s \<and> ap_path (sy_process s) = path \<and> finite N \<and> names_known N (sy_manager s)
        \<and> registry_inv uni (sy_world s, sy_server s)
        \<and> call_peers (w_calls (sy_world s)) \<subseteq> w_peers (sy_world s) \<union> N)"

interpretation process_path: stepper "process_step from_toml" "\<lambda>p. ap_path p = path" for from_toml path
  by unfold_locales (auto simp: process_step_def watch_sighup_def shut_down_def join_next_def split: process_step_splits)

lemma seen_names_grow: "N \<subseteq> seen_names from_toml path N e"
  by (auto simp: seen_names_def split: system_event.splits process_event.splits sum.splits)

lemma seen_names_finite: "finite N \<Longrightarrow> finite (seen_names from_toml path N e)"
  by (auto simp: seen_names_def peer_names_def split: system_event.splits process_event.splits sum.splits)

lemma seen_names_broadcast:
  "broadcast from_toml p pe = Some cfg \<Longrightarrow> peer_names cfg \<subseteq> seen_names from_toml (ap_path p) N (SyProcess pe)"
  by (auto simp: seen_names_def broadcast_def split: process_event.splits sum.splits if_splits)

lemma names_known_mono: "names_known N m \<Longrightarrow> N \<subseteq> N' \<Longrightarrow> names_known N' m"
  by (auto simp: names_known_def)

interpretation system_labels:
  stepper "with_ghost (system_step uni from_toml) (seen_names from_toml path)" "labels_inv uni path" for uni from_toml path
proof
  fix x e x'
  assume "with_ghost (system_step uni from_toml) (seen_names from_toml path) x e = Some x'" and inv': "labels_inv uni path x"
  moreover obtain N s where s: "x = (N, s)" by (cases x)
  ultimately obtain s' where x: "x' = (seen_names from_toml path N e, s')" and step: "system_step uni from_toml s e = Some s'"
    by (auto simp: with_ghost_def)
  from inv' s have inv: "labels_inv uni path (N, s)" by simp
  let ?N = "seen_names from_toml path N e"
  from inv have i: "system_inv s" "ap_path (sy_process s) = path" "finite N" "names_known N (sy_manager s)"
    "registry_inv uni (sy_world s, sy_server s)" "call_peers (w_calls (sy_world s)) \<subseteq> w_peers (sy_world s) \<union> N"
    "manager_inv (sy_world s, sy_manager s)" by (simp_all add: labels_inv_def system_inv_def)
  from system_step_parts [OF step] obtain ps ms ss w where
    p: "run_steps (process_step from_toml) (sy_process s) ps = Some (sy_process s')"
    and m: "run_steps manager_step (sy_world s, sy_manager s) ms = Some (w, sy_manager s')"
    and sv: "run_steps (server_step uni) (w, sy_server s) ss = Some (sy_world s', sy_server s')"
    and cfg: "\<forall>cfg. MgConfig cfg \<in> set ms \<longrightarrow> (\<exists>pe. e = SyProcess pe \<and> broadcast from_toml (sy_process s) pe = Some cfg)"
    by (auto simp: parts_run_def)
  have "peer_names c \<subseteq> ?N" if c: "MgConfig c \<in> set ms" for c
  proof -
    from cfg c obtain pe where e: "e = SyProcess pe" and b: "broadcast from_toml (sy_process s) pe = Some c" by (elim allE impE exE conjE)
    from seen_names_broadcast [OF b, of N] show ?thesis unfolding e i(2) .
  qed
  from manager_run_records [OF m i(7) names_known_mono [OF i(4) seen_names_grow] this]
  have r: "records ?N (sy_world s) w" and known: "names_known ?N (sy_manager s')" by blast+
  from r obtain cs where "w_calls w = w_calls (sy_world s) @ cs" "call_peers cs \<subseteq> ?N" "w_peers w = w_peers (sy_world s)"
    by (auto simp: records_def)
  with i(6) seen_names_grow [of N from_toml path e] have "call_peers (w_calls w) \<subseteq> w_peers w \<union> ?N"
    unfolding call_peers_simps(3) by (simp only: call_peers_simps(3)) blast
  from server_run_records [OF sv registry_records [OF r i(5)] this] known system_machine.inv_step [OF step i(1)]
    process_path.inv_run [OF p i(2)] seen_names_finite [OF i(3)]
  show "labels_inv uni path x'" by (simp add: x labels_inv_def)
qed

text \<open>A concrete process: it boots with the example configuration.\<close>

lemma example_boot:
  "boot (\<lambda>_. Inr []) (\<lambda>_. Inr example_raw) (\<lambda>_. None) 0 [] = Inr (system_start 0 DEFAULT_CONFIG_PATH example_config)"
proof -
  have "parse_args [] = Inr (Run DEFAULT_CONFIG_PATH)" by (simp add: parse_args_def no_more_def)
  from start_up_result [OF this example_load, of "\<lambda>_. None"] show ?thesis by (auto simp: boot_def Let_def)
qed

lemmas system_run_simps =
  system_step_def exited_def system_process_def system_manager_def system_server_def manager_news_def server_news_def
  broadcast_def process_step_def shut_down_def join_next_def channel_closed_def process_start_def system_start_def
  manager_run_simps manager_stop_def manager_task_def manager_shutdown_def update_task_def set_task_def all_tasks_def
  manager_start_def stop_task_def server_start_def server_step_def

lemma example_reload_run:
  "\<exists>s. run_steps (system_step (\<lambda>_. False) (\<lambda>_. Inr example_raw)) (system_start 0 DEFAULT_CONFIG_PATH example_config)
       [SyProcess (ApSighup (\<lambda>_. Inr [])), SyServerReads, SyManager MgPoll, SyManager MgPoll] = Some s
     \<and> mg_pc (sy_manager s) = MWait \<and> \<not> mg_changed (sy_manager s) \<and> \<not> sy_unseen s"
  by (simp add: system_run_simps example_load watch_sighup_def watch_config_def)
    (simp add: example_config_def to_remove_def spawn_missing_frame)

lemma example_session_run:
  "\<exists>s p. run_steps (system_step (\<lambda>_. False) (\<lambda>_. Inr example_raw)) (system_start 0 DEFAULT_CONFIG_PATH example_config)
       [SyManager MgPoll, SyManager MgPoll, SyManager (MgTask 0 TPoll), SyManager (MgTask 0 (TConnected [])),
        SyManager (MgTask 0 TPoll)] = Some s
     \<and> p \<in> set (all_tasks (sy_manager s)) \<and> in_session (tk_pc (pt_task p))"
  by (simp add: system_run_simps example_config_def task_spawn_def task_run_simps)

lemma example_exit_run:
  "\<exists>s. run_steps (system_step (\<lambda>_. False) (\<lambda>_. Inr example_raw)) (system_start 0 DEFAULT_CONFIG_PATH example_config)
       [SyManager MgPoll, SyManager MgPoll, SyProcess (ApSignal (Ready (Inr ())) Pending), SyManager MgCancelled,
        SyManager (MgStop (pc_name example_peer)), SyManager (MgTask 0 TPoll), SyManager (MgTask 0 TCancelled),
        SyManager MgPoll, SyManager MgPoll, SyServerReturns, SyProcess ApJoin, SyProcess ApJoin, SyProcess ApJoin] = Some s
     \<and> ap_phase (sy_process s) = Exited SUCCESS"
  by (simp add: system_run_simps example_config_def task_spawn_def task_run_simps cancel_token_signal_def
      task_cancelled_def run_result_def)

section \<open>Properties\<close>

text \<open>
  C5. The gauges of the whole process tell the truth at every moment, for any interleaving of the
  session tasks, the manager, the server, reloads and a shutdown: \<open>client_session_active\<close> shows
  1 for exactly the labels of the open outbound sessions, \<open>client_consecutive_missed\<close> then shows
  that session's run of misses, and where \<open>server_session_active\<close> shows 1 an inbound session
  with that label is open.
\<close>

theorem session_gauges:
  assumes "boot read_file from_toml os_bind time args = Inr s0" and "run_steps (system_step uni from_toml) s0 es = Some s"
  shows "(\<forall>l. gauge_value (w_metrics (sy_world s)) client_session_active l = Some 1
        \<longleftrightarrow> (\<exists>p \<in> set (all_tasks (sy_manager s)). in_session (tk_pc (pt_task p)) \<and> task_label (pt_task p) = l))
    \<and> (\<forall>p \<in> set (all_tasks (sy_manager s)). in_session (tk_pc (pt_task p)) \<longrightarrow>
         gauge_value (w_metrics (sy_world s)) client_consecutive_missed (task_label (pt_task p)) = Some (tk_missed (pt_task p)))
    \<and> (\<forall>l. gauge_value (w_metrics (sy_world s)) server_session_active l = Some 1
        \<longrightarrow> (\<exists>c \<in> set (sv_conns (sy_server s)). conn_session c \<and> conn_label c = l))"
proof -
  from system_shown.inv_run [OF assms(2) boot_inv [OF assms(1)]]
  have c: "clients_shown (w_metrics (sy_world s)) (views (sy_manager s))" and g: "gauge_inv (sy_world s, sy_server s)"
    by (simp_all add: shown_inv_def)
  from c have own: "(in_session (tk_pc (pt_task p))
        \<longleftrightarrow> gauge_value (w_metrics (sy_world s)) client_session_active (task_label (pt_task p)) = Some 1)
      \<and> (in_session (tk_pc (pt_task p)) \<longrightarrow>
         gauge_value (w_metrics (sy_world s)) client_consecutive_missed (task_label (pt_task p)) = Some (tk_missed (pt_task p)))"
    if "p \<in> set (all_tasks (sy_manager s))" for p
    using that unfolding clients_shown_def views_def task_view_def by blast
  moreover have "\<exists>p \<in> set (all_tasks (sy_manager s)). in_session (tk_pc (pt_task p)) \<and> task_label (pt_task p) = l"
    if v: "gauge_value (w_metrics (sy_world s)) client_session_active l = Some 1" for l
    using c v unfolding clients_shown_def views_def task_view_def by blast
  ultimately show ?thesis using g unfolding gauge_inv_def fst_conv snd_conv by blast
qed

theorem session_gauges_witness:
  "\<exists>s0 s l. boot (\<lambda>_. Inr []) (\<lambda>_. Inr example_raw) (\<lambda>_. None) 0 [] = Inr s0
     \<and> run_steps (system_step (\<lambda>_. False) (\<lambda>_. Inr example_raw)) s0
         [SyManager MgPoll, SyManager MgPoll, SyManager (MgTask 0 TPoll), SyManager (MgTask 0 (TConnected [])),
          SyManager (MgTask 0 TPoll)] = Some s
     \<and> gauge_value (w_metrics (sy_world s)) client_session_active l = Some 1"
proof -
  from example_session_run obtain s p where r: "run_steps (system_step (\<lambda>_. False) (\<lambda>_. Inr example_raw))
      (system_start 0 DEFAULT_CONFIG_PATH example_config)
      [SyManager MgPoll, SyManager MgPoll, SyManager (MgTask 0 TPoll), SyManager (MgTask 0 (TConnected [])),
       SyManager (MgTask 0 TPoll)] = Some s"
    and p: "p \<in> set (all_tasks (sy_manager s))" "in_session (tk_pc (pt_task p))" by blast
  from session_gauges [OF example_boot r] p have
    "gauge_value (w_metrics (sy_world s)) client_session_active (task_label (pt_task p)) = Some 1" by blast
  with r example_boot show ?thesis by blast
qed

text \<open>
  C13. A reload reaches everything: when the manager waits with nothing unseen and the server's
  watcher has read the channel, both run on the configuration of the last SIGHUP whose file
  loaded (or the initial one). It is valid, the session tasks are exactly its peers, and new
  inbound connections and probes get its timeouts.
\<close>

theorem reload_reaches_all:
  assumes "boot read_file from_toml os_bind time args = Inr s0" and "run_steps (system_step uni from_toml) s0 es = Some s"
    and "mg_pc (sy_manager s) = MWait" and "\<not> mg_changed (sy_manager s)" and "\<not> sy_unseen s"
    and "cfg = foldl (reloaded from_toml (ap_path (sy_process s0))) (ap_config (sy_process s0)) (process_events es)"
  shows "config_ok cfg \<and> ap_config (sy_process s) = cfg
    \<and> tk_peer ` pt_task ` set (all_tasks (sy_manager s)) = (if cfg_client cfg = None then {} else set (cfg_peers cfg))
    \<and> sv_recv_timeout (sy_server s) = sc_heartbeat_recv_timeout (cfg_server cfg)
    \<and> sv_probe_timeout (sy_server s) = sc_probe_idle_timeout (cfg_server cfg)"
proof -
  let ?p = "sy_process s" and ?m = "sy_manager s"
  from boot_start [OF assms(1)] obtain path cfg0 where s0: "s0 = system_start time path cfg0" and ok: "config_ok cfg0" by blast
  from system_machine.inv_run [OF assms(2)] system_start_inv have inv: "system_inv s" by (simp add: s0)
  then have i: "manager_inv (sy_world s, ?m)" "mg_config ?m = ap_config ?p" "ap_rx_client ?p"
    "timeouts_inv False ?p (sy_server s)" using assms(3,5) by (simp_all add: system_inv_def link_inv_def)
  from system_run_process [OF assms(2)] obtain ps where
    ps: "run_steps (process_step from_toml) (process_start path cfg0) ps = Some ?p" "filter process_input ps = process_events es"
    by (auto simp: s0 system_start_def)
  have "config_ok (ap_config ?p)"
    using process_config.inv_run [OF ps(1) process_start_inv(2) [OF ok]] by (simp add: config_inv_def)
  moreover have "run_steps (with_ghost (process_step from_toml) (reloaded from_toml path)) (cfg0, process_start path cfg0) ps
      = Some (foldl (reloaded from_toml path) cfg0 (process_events es), ?p)"
    using reloaded_input [of from_toml path cfg0 ps] by (simp add: run_with_ghost ps)
  from process_reload.inv_run [OF this] i(3) have cfg: "ap_config ?p = cfg"
    by (simp add: reload_inv_def has_receiver_def assms(6) s0 system_start_def process_start_def)
  ultimately have ok': "config_ok cfg" by simp
  show ?thesis
    using ok' cfg waiting_tasks [OF i(1) assms(3,4)] i(2,4) by (simp add: timeouts_inv_def config_ok_def peers_ok_def)
qed

theorem reload_reaches_all_witness:
  "\<exists>s0 s. boot (\<lambda>_. Inr []) (\<lambda>_. Inr example_raw) (\<lambda>_. None) 0 [] = Inr s0
     \<and> run_steps (system_step (\<lambda>_. False) (\<lambda>_. Inr example_raw)) s0
         [SyProcess (ApSighup (\<lambda>_. Inr [])), SyServerReads, SyManager MgPoll, SyManager MgPoll] = Some s
     \<and> tk_peer ` pt_task ` set (all_tasks (sy_manager s)) = {example_peer} \<and> sv_recv_timeout (sy_server s) = 90"
proof -
  from example_reload_run obtain s where r: "run_steps (system_step (\<lambda>_. False) (\<lambda>_. Inr example_raw))
      (system_start 0 DEFAULT_CONFIG_PATH example_config)
      [SyProcess (ApSighup (\<lambda>_. Inr [])), SyServerReads, SyManager MgPoll, SyManager MgPoll] = Some s"
    and s: "mg_pc (sy_manager s) = MWait" "\<not> mg_changed (sy_manager s)" "\<not> sy_unseen s" by blast
  from reload_reaches_all [OF example_boot r s refl]
  have "tk_peer ` pt_task ` set (all_tasks (sy_manager s)) = {example_peer}" "sv_recv_timeout (sy_server s) = 90"
    by (simp_all add: reloaded_def example_load) (simp_all add: example_config_def example_server_def)
  with r example_boot show ?thesis by blast
qed

text \<open>
  C12. The labels stay bounded, whatever connects: at every moment the peer names in the metrics
  are names the server registered, at most 512 of them and each safe in a label, or names from
  the configurations that were in effect. No remote peer can add more.
\<close>

theorem peer_labels_bounded:
  assumes "boot read_file from_toml os_bind time args = Inr s0" and "run_steps (system_step uni from_toml) s0 es = Some s"
    and "N = foldl (seen_names from_toml (ap_path (sy_process s0))) (peer_names (ap_config (sy_process s0))) es"
  shows "call_peers (w_calls (sy_world s)) \<subseteq> w_peers (sy_world s) \<union> N
    \<and> (\<forall>p \<in> w_peers (sy_world s). safe_name uni p)
    \<and> card (w_peers (sy_world s)) \<le> 512 \<and> card (call_peers (w_calls (sy_world s))) \<le> 512 + card N"
proof -
  from boot_start [OF assms(1)] obtain path cfg0 where s0: "s0 = system_start time path cfg0" by blast
  let ?N0 = "peer_names cfg0"
  have "labels_inv uni path (?N0, s0)"
    by (simp add: labels_inv_def s0 system_start_inv)
      (simp add: system_start_def process_start_def manager_start_def server_start_def names_known_def views_def all_tasks_def
        applied_names_def registry_inv_def names_inv_def peer_names_def)
  moreover have "run_steps (with_ghost (system_step uni from_toml) (seen_names from_toml path)) (?N0, s0) es = Some (N, s)"
    using assms(3) assms(2) unfolding s0 by (simp add: run_with_ghost)
  ultimately have "labels_inv uni path (N, s)" by (rule system_labels.inv_run [rotated])
  then have l: "call_peers (w_calls (sy_world s)) \<subseteq> w_peers (sy_world s) \<union> N" and fin: "finite N" "finite (w_peers (sy_world s))"
    and safe: "\<forall>p \<in> w_peers (sy_world s). safe_name uni p" and cap: "card (w_peers (sy_world s)) \<le> 512"
    by (simp_all add: labels_inv_def registry_inv_def names_inv_def MAX_UNIQUE_SERVER_PEERS_def)
  have "card (call_peers (w_calls (sy_world s))) \<le> card (w_peers (sy_world s) \<union> N)"
    using l fin by (intro card_mono) simp_all
  also have "\<dots> \<le> card (w_peers (sy_world s)) + card N" by (rule card_Un_le)
  finally show ?thesis using l safe cap by simp
qed

theorem peer_labels_bounded_witness:
  "\<exists>s0 s. boot (\<lambda>_. Inr []) (\<lambda>_. Inr example_raw) (\<lambda>_. None) 0 [] = Inr s0
     \<and> run_steps (system_step (\<lambda>_. False) (\<lambda>_. Inr example_raw)) s0
         [SyProcess (ApSighup (\<lambda>_. Inr [])), SyServerReads, SyManager MgPoll, SyManager MgPoll] = Some s
     \<and> card (call_peers (w_calls (sy_world s))) \<le> 513"
proof -
  from example_reload_run obtain s where r: "run_steps (system_step (\<lambda>_. False) (\<lambda>_. Inr example_raw))
      (system_start 0 DEFAULT_CONFIG_PATH example_config)
      [SyProcess (ApSighup (\<lambda>_. Inr [])), SyServerReads, SyManager MgPoll, SyManager MgPoll] = Some s" by blast
  have "card (call_peers (w_calls (sy_world s))) \<le> 513"
    using peer_labels_bounded [OF example_boot r refl]
    by (simp add: seen_names_def example_load) (simp add: example_config_def peer_names_def)
  with r example_boot show ?thesis by blast
qed

text \<open>
  A shutdown can always be completed: once the token is cancelled, the process can reach its exit by
  its own steps alone (polls of the manager and its tasks, the tokens, the return of the server,
  the awaits of \<open>main\<close>), without any help from the network, the clock or the config channel; the
  code is then SUCCESS exactly if no task that ended began the shutdown.
\<close>

theorem shutdown_terminates:
  assumes "boot read_file from_toml os_bind time args = Inr s0" and "run_steps (system_step uni from_toml) s0 es = Some s"
    and "ap_cancelled (sy_process s)"
  shows "\<exists>fs s'. list_all system_own fs \<and> run_steps (system_step uni from_toml) s fs = Some s'
    \<and> ap_phase (sy_process s') = Exited (exit_of (first_stop es))"
proof -
  from boot_start [OF assms(1)] obtain path cfg0 where s0: "s0 = system_start time path cfg0" by blast
  from system_machine.inv_run [OF assms(2)] system_start_inv have inv: "system_inv s" by (simp add: s0)
  then have link: "link_inv (sy_process s) (sy_manager s) (sy_server s)" and ex: "exit_inv (sy_process s)"
    by (simp_all add: system_inv_def)
  from system_run_early [of uni from_toml time path cfg0 es s] assms(2) have early: "early_inv (first_stop es, sy_process s)"
    by (simp add: s0)
  show ?thesis
  proof (cases "ap_phase (sy_process s)")
    case Selecting
    with ex assms(3) show ?thesis by (simp add: exit_inv_def)
  next
    case (Joining early exit rest)
    with shutdown_reaches_exit [OF inv assms(3) Joining, of uni from_toml] joining_code [OF \<open>early_inv _\<close> link Joining]
    show ?thesis by simp
  next
    case (Exited exit)
    with exited_code(1) [OF early link Exited] show ?thesis by (intro exI [of _ "[]"]) simp
  qed
qed

theorem shutdown_terminates_witness:
  "\<exists>s0 fs s'. boot (\<lambda>_. Inr []) (\<lambda>_. Inr example_raw) (\<lambda>_. None) 0 [] = Inr s0 \<and> list_all system_own fs
     \<and> run_steps (system_step (\<lambda>_. False) (\<lambda>_. Inr example_raw)) s0
         (SyProcess (ApSignal (Ready (Inr ())) Pending) # fs) = Some s'
     \<and> ap_phase (sy_process s') = Exited SUCCESS"
proof -
  have "\<exists>s. run_steps (system_step (\<lambda>_. False) (\<lambda>_. Inr example_raw)) (system_start 0 DEFAULT_CONFIG_PATH example_config)
      [SyProcess (ApSignal (Ready (Inr ())) Pending)] = Some s \<and> ap_cancelled (sy_process s)"
    by (simp add: system_run_simps cancel_token_signal_def)
  then obtain s where r: "run_steps (system_step (\<lambda>_. False) (\<lambda>_. Inr example_raw)) (system_start 0 DEFAULT_CONFIG_PATH example_config)
      [SyProcess (ApSignal (Ready (Inr ())) Pending)] = Some s" "ap_cancelled (sy_process s)" by blast
  from shutdown_terminates [OF example_boot r] obtain fs s' where fs: "list_all system_own fs"
    "run_steps (system_step (\<lambda>_. False) (\<lambda>_. Inr example_raw)) s fs = Some s'" "ap_phase (sy_process s') = Exited SUCCESS"
    by (auto simp: first_stop_def early_stop_def exit_of_def)
  with run_steps_appendI [OF r(1), of fs] example_boot show ?thesis by (metis append_Cons append_Nil)
qed

text \<open>
  C14. The process never stops by itself: \<open>main\<close> leaves its select only for a signal, for a Ctrl-C
  handler that cannot be installed, or because the metrics server ended. Until then the server and
  the client manager run, whatever the network, the reloads and the clock do. When \<open>main\<close> has
  returned, no session task is left, and the code is FAILURE exactly if it was the metrics server.
\<close>

theorem stops_only_on_request:
  assumes "boot read_file from_toml os_bind time args = Inr s0" and "run_steps (system_step uni from_toml) s0 es = Some s"
  shows "(ap_phase (sy_process s) = Selecting \<longleftrightarrow> stop_cause True (process_events es) = None)
    \<and> stop_cause True (process_events es) \<in> {None, Some SignalReceived, Some CtrlCFailed, Some (TaskEnded MetricsHandle)}
    \<and> (ap_phase (sy_process s) = Selecting \<longrightarrow>
        ap_join (sy_process s) ServerHandle = Live \<and> ap_join (sy_process s) ClientHandle = Live
        \<and> run_result (sy_server s) = Running \<and> mg_pc (sy_manager s) \<noteq> MShutdown \<and> mg_pc (sy_manager s) \<noteq> MDone)
    \<and> (\<forall>exit. ap_phase (sy_process s) = Exited exit \<longrightarrow>
         exit = (if stop_cause True (process_events es) = Some (TaskEnded MetricsHandle) then FAILURE else SUCCESS)
         \<and> all_tasks (sy_manager s) = [] \<and> run_result (sy_server s) = Cancelled)"
proof -
  from boot_start [OF assms(1)] obtain path cfg0 where s0: "s0 = system_start time path cfg0" by blast
  note run = assms(2) [unfolded s0]
  from system_machine.inv_run [OF run] system_start_inv have inv: "system_inv s" by blast
  then have link: "link_inv (sy_process s) (sy_manager s) (sy_server s)" and ex: "exit_inv (sy_process s)"
    and tasks: "tasks_inv (sy_world s, sy_server s)" and m: "pc_inv (sy_manager s)"
    by (simp_all add: system_inv_def manager_inv_def)
  note cause = system_run_cause [OF run] and early = system_run_early [OF run]
  have "ap_join (sy_process s) ServerHandle = Live \<and> ap_join (sy_process s) ClientHandle = Live
      \<and> run_result (sy_server s) = Running \<and> mg_pc (sy_manager s) \<noteq> MShutdown \<and> mg_pc (sy_manager s) \<noteq> MDone"
    if "ap_phase (sy_process s) = Selecting"
    using that ex link tasks by (auto simp: exit_inv_def link_inv_def tasks_inv_def run_result_def split: if_splits)
  moreover have "exit = exit_of (first_stop es) \<and> all_tasks (sy_manager s) = [] \<and> run_result (sy_server s) = Cancelled"
    if "ap_phase (sy_process s) = Exited exit" for exit
    using exited_code [OF early link that] link m by (simp add: pc_inv_def link_inv_def run_result_def)
  moreover have "first_stop es \<in> {None, Some MetricsHandle}"
    using first_stop_cases [OF run] system_start_inv by auto
  ultimately show ?thesis using cause
    by (auto simp: exit_of_def ended_by_def split: option.splits end_cause.splits)
qed

theorem stops_only_on_request_witness:
  "\<exists>s0 s. boot (\<lambda>_. Inr []) (\<lambda>_. Inr example_raw) (\<lambda>_. None) 0 [] = Inr s0
     \<and> run_steps (system_step (\<lambda>_. False) (\<lambda>_. Inr example_raw)) s0
         [SyManager MgPoll, SyManager MgPoll, SyProcess (ApSignal (Ready (Inr ())) Pending), SyManager MgCancelled,
          SyManager (MgStop (pc_name example_peer)), SyManager (MgTask 0 TPoll), SyManager (MgTask 0 TCancelled),
          SyManager MgPoll, SyManager MgPoll, SyServerReturns, SyProcess ApJoin, SyProcess ApJoin, SyProcess ApJoin] = Some s
     \<and> all_tasks (sy_manager s) = [] \<and> run_result (sy_server s) = Cancelled"
proof -
  from example_exit_run obtain s where r: "run_steps (system_step (\<lambda>_. False) (\<lambda>_. Inr example_raw))
      (system_start 0 DEFAULT_CONFIG_PATH example_config)
      [SyManager MgPoll, SyManager MgPoll, SyProcess (ApSignal (Ready (Inr ())) Pending), SyManager MgCancelled,
       SyManager (MgStop (pc_name example_peer)), SyManager (MgTask 0 TPoll), SyManager (MgTask 0 TCancelled),
       SyManager MgPoll, SyManager MgPoll, SyServerReturns, SyProcess ApJoin, SyProcess ApJoin, SyProcess ApJoin] = Some s"
    and e: "ap_phase (sy_process s) = Exited SUCCESS" by blast
  from stops_only_on_request [OF example_boot r] e r example_boot show ?thesis by blast
qed

end
