(* ===== verification/Work.thy ===== *)
theory Work
  imports Manager Server
begin

text \<open>
  How much work is left in a session task, the server and the client manager: a number that every
  step they take by themselves lowers and that no tick of the clock raises (the locale \<open>paying\<close>,
  interpreted for each of the three). A byte that has arrived is worth a few steps, and so is a miss
  that is still allowed, a task that can be stopped, a peer that can be spawned.
\<close>

section \<open>A session task\<close>

text \<open>In a session the reader is between two calls and the miss counter below its limit.\<close>

definition steady :: "task \<Rightarrow> bool" where
  "steady t \<longleftrightarrow> (in_session (tk_pc t) \<longrightarrow> reader_idle (tk_reader t) \<and> unat (tk_missed t) < miss_limit t)"

text \<open>
  A round of a session is paid for by a byte that it takes in or by a miss; a byte pays for as many
  misses as there can be after it.
\<close>

definition round_units :: "task \<Rightarrow> nat" where
  "round_units t = inbox_size (tk_inbox t) * Suc (miss_limit t) + (miss_limit t - unat (tk_missed t))"

fun task_stage :: "task_pc \<Rightarrow> nat" where
  "task_stage (KEcho _ _ _ got) = (if got then 6 else 3)"
| "task_stage KSleep = 5"
| "task_stage (KSend _) = 4"
| "task_stage (KBackoff _) = 2"
| "task_stage KStart = 2"
| "task_stage (KConnect _) = 1"
| "task_stage KHandshake = 6"
| "task_stage KDone = 0"

definition task_work :: "task \<Rightarrow> nat" where
  "task_work t =
     task_stage (tk_pc t)
     + (if in_session (tk_pc t) then 4 * round_units t
        else if tk_pc t = KHandshake then 4 * (inbox_size (tk_inbox t) * Suc (miss_limit t) + miss_limit t) else 0)"

lemma task_work_cancel: "task_work (t\<lparr>tk_cancel := b\<rparr>) = task_work t" "steady (t\<lparr>tk_cancel := b\<rparr>) = steady t"
  by (simp_all add: task_work_def round_units_def steady_def miss_limit_def)

lemma stage_le: "task_stage pc \<le> 6"
  by (cases pc) simp_all

lemma miss_limit_pos: "0 < miss_limit t"
  by (simp add: miss_limit_def)

text \<open>What the parts of a poll leave of the work.\<close>

lemma turn_work:
  assumes "reader_idle (tk_reader t)" and "unat (tk_missed t) < miss_limit t"
  shows "steady (snd (session_turn (w, t))) \<and> task_work (snd (session_turn (w, t))) \<le> 4 * round_units t + 5"
  using assms by (simp add: session_turn_def session_send_def steady_def task_work_def round_units_def in_session_def)

lemma outside_work:
  "steady (snd (session_end reason (w, t))) \<and> task_work (snd (session_end reason (w, t))) \<le> 2"
  "steady (snd (task_backoff (w, t))) \<and> task_work (snd (task_backoff (w, t))) \<le> 2"
  by (simp_all add: session_end_def task_backoff_def Let_def steady_def task_work_def in_session_def)

lemma timeout_work:
  assumes idle: "reader_idle (tk_reader t)" and n: "unat (tk_missed t) < miss_limit t"
  shows "steady (snd (echo_timeout got (w, t)))
    \<and> task_work (snd (echo_timeout got (w, t))) < 4 * round_units t + (if got then 6 else 3)"
proof (cases got)
  case True
  with turn_work [OF assms, of w] show ?thesis by (simp add: echo_timeout_def)
next
  case False
  let ?w = "w_emit (miss_calls (task_label t) (tk_missed t + 1)) w"
  let ?t = "t\<lparr>tk_missed := tk_missed t + 1, tk_next_send := w_mono w + heartbeat_interval t\<rparr>"
  show ?thesis
  proof (cases "Suc (unat (tk_missed t)) = miss_limit t")
    case True
    with False miss_limit_reached [OF n] outside_work(1) [of "''timeout''" ?w "t\<lparr>tk_missed := tk_missed t + 1\<rparr>"] show ?thesis
      by (simp add: echo_timeout_def Let_def)
  next
    case more: False
    have m: "unat (tk_missed ?t) = Suc (unat (tk_missed t))" using unat_missed_suc [OF n] by simp
    have "steady (snd (session_turn (?w, ?t))) \<and> task_work (snd (session_turn (?w, ?t))) \<le> 4 * round_units ?t + 5"
      by (rule turn_work) (use idle n more in \<open>simp_all only: m, simp_all\<close>)
    moreover have "Suc (round_units ?t) = round_units t" using n more unat_missed_suc [OF n] by (simp add: round_units_def del: mult_Suc_right)
    ultimately show ?thesis using False more miss_limit_reached [OF n] by (simp add: echo_timeout_def Let_def)
  qed
qed

lemma received_work:
  fixes sent_seq :: u64 and send_ts :: f64 and deadline :: instant and w :: world
  assumes r: "recv (tk_reader t) (tk_inbox t) = (Ready (Inr echo), r, i)" and idle: "reader_idle (tk_reader t)"
    and n: "unat (tk_missed t) < miss_limit t"
  defines "s \<equiv> echo_received echo sent_seq send_ts deadline (w, t\<lparr>tk_reader := r, tk_inbox := i\<rparr>)"
  shows "steady (snd s) \<and> task_work (snd s) < 4 * round_units t + 3"
proof -
  let ?t = "t\<lparr>tk_reader := r, tk_inbox := i, tk_missed := 0\<rparr>"
  from recv_conserves [OF r idle_inv [OF idle]] have idle': "reader_idle r" by simp
  from recv_packet_size [OF r idle] have "Suc (inbox_size i) \<le> inbox_size (tk_inbox t)" by simp
  then have "Suc (inbox_size i) * Suc (miss_limit t) \<le> inbox_size (tk_inbox t) * Suc (miss_limit t)" by (rule mult_le_mono1)
  with n have units: "Suc (round_units ?t) < round_units t" by (simp add: round_units_def)
  have turn: "steady (snd (session_turn (w', ?t))) \<and> task_work (snd (session_turn (w', ?t))) \<le> 4 * round_units ?t + 5" for w'
    by (rule turn_work) (use idle' miss_limit_pos in simp_all)
  show ?thesis
  proof (cases "hb_seq echo = sent_seq")
    case True
    then have "s = session_turn (w_emit (record_echo (task_label t) (tk_start_ts t) (w_now w) (Some send_ts)) w, ?t)"
      by (simp add: s_def echo_received_def Let_def)
    with turn [of "w_emit (record_echo (task_label t) (tk_start_ts t) (w_now w) (Some send_ts)) w"] units show ?thesis
      by (simp only:) auto
  next
    case False
    with idle' units miss_limit_pos [of t] show ?thesis
      by (simp add: s_def echo_received_def Let_def steady_def task_work_def in_session_def round_units_def)
  qed
qed

lemma echo_work:
  assumes "poll_echo sent_seq send_ts deadline got (w, t) = Some s'" and idle: "reader_idle (tk_reader t)"
    and n: "unat (tk_missed t) < miss_limit t"
  shows "steady (snd s') \<and> task_work (snd s') < 4 * round_units t + (if got then 6 else 3)"
proof -
  obtain res r i where r: "recv (tk_reader t) (tk_inbox t) = (res, r, i)" by (cases "recv (tk_reader t) (tk_inbox t)")
  let ?t = "t\<lparr>tk_reader := r, tk_inbox := i\<rparr>"
  from recv_conserves [OF r idle_inv [OF idle]] have idle': "reader_idle r" by simp
  from recv_size [OF r] have le: "4 * round_units ?t \<le> 4 * round_units t" by (simp add: round_units_def del: mult_Suc_right)
  consider "res = Pending" | e where "res = Ready (Inl e)" | hb where "res = Ready (Inr hb)"
    by (cases res) (auto, metis obj_sumE)
  then show ?thesis
  proof cases
    case 1
    with assms(1) r have "s' = echo_timeout got (w, ?t)" by (simp add: poll_echo_def split: if_splits)
    moreover have "steady (snd (echo_timeout got (w, ?t)))
        \<and> task_work (snd (echo_timeout got (w, ?t))) < 4 * round_units ?t + (if got then 6 else 3)"
      by (rule timeout_work) (use idle' n in simp_all)
    ultimately show ?thesis using le by (metis add_le_mono1 order_less_le_trans)
  next
    case 2
    with assms(1) r have "s' = session_end (classify_io_error e) (w, ?t)" by (simp add: poll_echo_def)
    with outside_work(1) [of "classify_io_error e" w ?t] show ?thesis by auto
  next
    case 3
    with assms(1) r have "s' = echo_received hb sent_seq send_ts deadline (w, ?t)" by (simp add: poll_echo_def)
    moreover from r 3 have "recv (tk_reader t) (tk_inbox t) = (Ready (Inr hb), r, i)" by simp
    note received_work [OF this idle n, of sent_seq send_ts deadline w]
    ultimately show ?thesis by auto
  qed
qed

lemma task_poll_work:
  assumes "task_poll (w, t) = Some s'" and "steady t"
  shows "steady (snd s') \<and> task_work (snd s') < task_work t"
proof (cases "tk_pc t")
  case (KEcho q ts d got)
  with assms have "reader_idle (tk_reader t)" "unat (tk_missed t) < miss_limit t" by (simp_all add: steady_def in_session_def)
  with echo_work [of q ts d got w t s'] KEcho assms(1) show ?thesis
    by (simp add: task_poll_def task_work_def in_session_def)
next
  case KHandshake
  then have all: "task_work t = 6 + 4 * (inbox_size (tk_inbox t) * Suc (miss_limit t) + miss_limit t)"
    by (simp add: task_work_def in_session_def)
  let ?t = "\<lambda>out ts. t\<lparr>tk_out := out, tk_start_ts := ts, tk_seq := 0, tk_missed := 0, tk_next_send := w_mono w, tk_reader := reader_new\<rparr>"
  have turn: "steady (snd (session_turn (w', ?t out ts))) \<and> task_work (snd (session_turn (w', ?t out ts))) \<le> 4 * round_units (?t out ts) + 5"
    for w' out ts by (rule turn_work) (simp_all add: miss_limit_pos)
  have units: "round_units (?t out ts) = inbox_size (tk_inbox t) * Suc (miss_limit t) + miss_limit t" for out ts
    by (simp add: round_units_def)
  have "steady (snd (session_turn (w', ?t out ts))) \<and> task_work (snd (session_turn (w', ?t out ts))) < task_work t" for w' out ts
    using turn [where w' = w' and out = out and ts = ts] unfolding all units by auto
  moreover have "task_work (snd (task_backoff (w, t'))) < task_work t" for t'
    using outside_work(2) [of w t'] unfolding all by auto
  ultimately show ?thesis
    using assms(1) KHandshake outside_work(2) [of w]
    by (auto simp: task_poll_def poll_handshake_def session_start_def Let_def split: prod.splits sum.splits)
next
  case (KSend time)
  obtain res out where r: "send_heartbeat (tk_seq t) time (tk_out t) = (res, out)"
    by (cases "send_heartbeat (tk_seq t) time (tk_out t)")
  show ?thesis
  proof (cases res)
    case (Inl e)
    with KSend r assms(1) have "s' = session_end (classify_io_error e) (w, t\<lparr>tk_out := out\<rparr>)"
      by (simp add: task_poll_def poll_send_def)
    moreover have "2 < task_work t" using KSend by (simp add: task_work_def in_session_def)
    ultimately show ?thesis using outside_work(1) order_le_less_trans by blast
  next
    case (Inr ts)
    with KSend r assms show ?thesis
      by (auto simp: task_poll_def poll_send_def task_work_def steady_def in_session_def round_units_def)
  qed
next
  case KSleep
  with assms show ?thesis
    by (auto simp: task_poll_def session_send_def task_work_def steady_def in_session_def round_units_def split: if_splits)
qed (use assms in \<open>auto simp: task_poll_def task_connect_def task_work_def steady_def in_session_def split: if_splits\<close>)

lemma task_cancelled_work:
  assumes "task_cancelled (w, t) = Some s'"
  shows "steady (snd s') \<and> task_work (snd s') < task_work t"
  using assms
  by (auto simp: task_cancelled_def session_end_def Let_def steady_def task_work_def in_session_def split: if_splits task_pc.splits)

text \<open>
  A task pays for its polls and for the token's branch; only the network brings it new work: a
  connection that is made or refused, and bytes.
\<close>

fun task_own :: "task_event \<Rightarrow> bool" where
  "task_own TPoll \<longleftrightarrow> True"
| "task_own TCancelled \<longleftrightarrow> True"
| "task_own _ \<longleftrightarrow> False"

fun task_free :: "task_event \<Rightarrow> bool" where
  "task_free (TTick _ _) \<longleftrightarrow> True"
| "task_free TCancel \<longleftrightarrow> True"
| "task_free _ \<longleftrightarrow> False"

interpretation task_pays: paying task_step "\<lambda>s. steady (snd s)" task_own task_free "\<lambda>s. task_work (snd s)"
proof
  fix s s' e
  assume step: "task_step s e = Some s'" and inv: "steady (snd s)"
  obtain w t where s: "s = (w, t)" by (cases s)
  note own = task_poll_work [of w t s'] task_cancelled_work [of w t s']
  show "steady (snd s')"
  proof (cases e)
    case (TConnectFailed k)
    with step s outside_work(2) show ?thesis by (auto simp: task_step_def connect_failed_def split: task_pc.splits)
  qed (use step inv s own in \<open>auto simp: task_step_def connected_def steady_def in_session_def split: task_pc.splits\<close>)
  show "task_work (snd s') < task_work (snd s)" if "task_own e"
    using that step inv s own by (cases e) (auto simp: task_step_def)
  show "task_work (snd s') \<le> task_work (snd s)" if "task_free e"
    using that step s by (cases e) (auto simp: task_step_def task_work_cancel)
qed

text \<open>A cancelled task can always take the branch of its token, or can after one poll.\<close>

lemma own_ready:
  assumes "tk_cancel t" and "tk_pc t \<noteq> KDone"
  shows "if tk_pc t = KStart \<or> tk_pc t = KHandshake
    then \<exists>w' t'. task_step (w, t) TPoll = Some (w', t') \<and> task_step (w', t') TCancelled \<noteq> None
    else task_step (w, t) TCancelled \<noteq> None"
proof (cases "tk_pc t = KHandshake")
  case True
  from handshake_cancellable [of w t] obtain w' t' where "poll_handshake (w, t) = (w', t')"
    "in_session (tk_pc t') \<or> (\<exists>d. tk_pc t' = KBackoff d)" "tk_cancel t' = tk_cancel t" by blast
  with True assms(1) cancelled_now [of t' w'] show ?thesis by (auto simp: task_step_def [of "(w, t)"] task_poll_def)
next
  case False
  with assms show ?thesis
    by (cases "tk_pc t") (auto simp: task_step_def task_poll_def task_cancelled_def task_connect_def)
qed

lemma cancelled_clean:
  assumes "task_step (w, t) TCancelled = Some (w', t')"
  shows "tk_pc t' = KDone \<and> (\<exists>cs. w_calls w' = w_calls w @ cs \<and> (\<forall>f l. DisconnectInc f l \<notin> set cs))"
  using assms
  by (auto simp: task_step_def task_cancelled_def session_end_def session_end_calls_def Let_def
      split: if_splits task_pc.splits)

text \<open>
  C40. A cancelled task stops. After its token is cancelled it takes at most \<open>task_work\<close> further steps
  of its own before the network brings anything new, whichever branches its selects take and
  however the clock moves. All that time the branch of the token is open to it, except before its
  first poll and while the handshake is being written, where it is after that one poll. Taking
  that branch ends the task and counts no disconnect.
\<close>

theorem cancel_stops_task:
  assumes "run_steps task_step (w0, task_spawn peer cfg node) hist = Some (w, t)" and "tk_cancel t"
    and "run_steps task_step (w, t) es = Some (w', t')" and "list_all (\<lambda>e. task_own e \<or> task_free e) es"
  shows "length (filter task_own es) + task_work t' \<le> task_work t
    \<and> (tk_pc t' = KDone \<or>
       (if tk_pc t' = KStart \<or> tk_pc t' = KHandshake
        then \<exists>w1 t1. task_step (w', t') TPoll = Some (w1, t1) \<and> task_step (w1, t1) TCancelled \<noteq> None
        else task_step (w', t') TCancelled \<noteq> None))
    \<and> (\<forall>w1 t1. task_step (w', t') TCancelled = Some (w1, t1) \<longrightarrow>
         tk_pc t1 = KDone \<and> (\<exists>cs. w_calls w1 = w_calls w' @ cs \<and> (\<forall>f l. DisconnectInc f l \<notin> set cs)))"
proof -
  have "steady (snd (w, t))"
    by (rule task_pays.inv_run [OF assms(1)]) (simp add: steady_def task_spawn_def in_session_def)
  from task_pays.bounded [OF assms(3) this assms(4)]
  have "length (filter task_own es) + task_work t' \<le> task_work t" by simp
  moreover have "tk_cancel t'" using run_same [OF assms(3)] assms(2) by (simp add: same_task_def)
  ultimately show ?thesis using own_ready [of t' w'] cancelled_clean [of w' t'] by blast
qed

theorem cancel_stops_task_witness:
  "\<exists>w t w' t'. run_steps task_step (fresh_world 0, example_task) (first_packet @ [TCancel]) = Some (w, t)
     \<and> run_steps task_step (w, t) [TTick 5 0, TCancelled] = Some (w', t') \<and> 1 \<le> task_work t \<and> tk_pc t' = KDone"
proof -
  from first_packet_sent obtain w t0 where first: "run_steps task_step (fresh_world 0, example_task) first_packet = Some (w, t0)"
    and pc: "tk_pc t0 = KEcho 0 (now_f64 0) 30000000000 False" by blast
  let ?t = "t0\<lparr>tk_cancel := True\<rparr>"
  from run_steps_appendI [OF first, of "[TCancel]"] have run: "run_steps task_step (fresh_world 0, example_task)
      (first_packet @ [TCancel]) = Some (w, ?t)" by (simp add: task_step_def)
  have tick: "run_steps task_step (w, ?t) [TTick 5 0] = Some (w_tick 5 0 w, ?t)" by (simp add: task_step_def)
  note claim = cancel_stops_task [OF run [unfolded example_task_def]]
  from claim [OF _ tick] pc obtain w' t' where c: "task_step (w_tick 5 0 w, ?t) TCancelled = Some (w', t')" by auto
  with claim [OF _ tick] have "tk_pc t' = KDone" by simp
  moreover from c tick have r: "run_steps task_step (w, ?t) [TTick 5 0, TCancelled] = Some (w', t')" by (auto split: option.splits)
  moreover from claim [OF _ r] have "1 \<le> task_work ?t" by simp
  ultimately show ?thesis using run by blast
qed

section \<open>The server\<close>

text \<open>An inbound connection takes two steps for a packet, and a packet costs at least one byte.\<close>

definition conn_work :: "conn \<Rightarrow> nat" where
  "conn_work c =
     (case cn_pc c of
        CStart \<Rightarrow> 2 * inbox_size (cn_inbox c) + 2
      | CHandshake \<Rightarrow> 2 * inbox_size (cn_inbox c) + 1
      | CRecv \<Rightarrow> 2 * inbox_size (cn_inbox c) + 1
      | CWrite _ \<Rightarrow> 2 * inbox_size (cn_inbox c) + 2
      | CDone _ \<Rightarrow> 0)"

lemma conn_poll_work:
  assumes "conn_poll uni (w, c) = Some s'"
  shows "conn_work (snd s') < conn_work c"
proof (cases "cn_pc c")
  case CHandshake
  have "conn_work (snd (conn_admit name (w, c\<lparr>cn_inbox := i\<rparr>))) < conn_work c" if "inbox_size i < inbox_size (cn_inbox c)" for name i
    using that CHandshake by (auto simp: conn_admit_def conn_await_def conn_work_def Let_def split: prod.splits bool.splits)
  with assms CHandshake recv_handshake_size show ?thesis
    by (auto simp: conn_poll_def split: prod.splits poll.splits sum.splits) (auto simp: conn_work_def)
next
  case CRecv
  have "conn_work (snd (conn_finish reason (w, c'))) < conn_work c" for reason c'
    using CRecv by (simp add: conn_finish_def conn_work_def)
  with assms CRecv recv_heartbeat_size show ?thesis
    by (auto simp: conn_poll_def split: prod.splits poll.splits sum.splits if_splits)
      (fastforce simp: conn_work_def)
next
  case (CWrite hb)
  with assms show ?thesis
    by (auto simp: conn_poll_def conn_finish_def conn_await_def conn_work_def split: prod.splits sum.splits)
qed (use assms in \<open>auto simp: conn_poll_def conn_work_def\<close>)

fun probe_work :: "probe_pc \<Rightarrow> nat" where
  "probe_work PBanner = 2"
| "probe_work PDrain = 1"
| "probe_work PDone = 0"

lemma probe_poll_work: "probe_poll now p = Some p' \<Longrightarrow> probe_work (pb_pc p') < probe_work (pb_pc p)"
  by (cases "pb_pc p") (auto simp: probe_poll_def split: prod.splits sum.splits bool.splits if_splits)

definition server_work :: "server \<Rightarrow> nat" where
  "server_work sv =
     sum_list (map conn_work (sv_conns sv)) + sum_list (map (\<lambda>p. probe_work (pb_pc p)) (sv_probes sv))
     + of_bool (sv_accepting sv) + of_bool (sv_probing sv) + of_bool (sv_watching sv)"

lemma sum_list_lowered:
  fixes f :: "'a \<Rightarrow> nat"
  assumes "k < length xs" and "f x < f (xs ! k)"
  shows "sum_list (map f (xs[k := x])) < sum_list (map f xs)"
proof -
  have "sum_list (map f xs) = sum_list (map f (xs[k := x])) + f (xs ! k) - f x"
    using sum_list_update [of k "map f (xs[k := x])" "f (xs ! k)"] assms(1)
    by (simp add: map_update [symmetric])
  then show ?thesis using assms(2) by linarith
qed

fun server_own :: "server_event \<Rightarrow> bool" where
  "server_own (SvConnPoll _) \<longleftrightarrow> True"
| "server_own (SvProbePoll _) \<longleftrightarrow> True"
| "server_own SvAcceptCancelled \<longleftrightarrow> True"
| "server_own SvProbeCancelled \<longleftrightarrow> True"
| "server_own SvWatchCancelled \<longleftrightarrow> True"
| "server_own SvConfigGone \<longleftrightarrow> True"
| "server_own _ \<longleftrightarrow> False"

fun server_free :: "server_event \<Rightarrow> bool" where
  "server_free (SvTick _ _) \<longleftrightarrow> True"
| "server_free SvCancel \<longleftrightarrow> True"
| "server_free (SvConfig _) \<longleftrightarrow> True"
| "server_free _ \<longleftrightarrow> False"

interpretation server_pays: paying "server_step uni" "\<lambda>_. True" server_own server_free "\<lambda>s. server_work (snd s)" for uni
proof
  fix s s' e
  assume step: "server_step uni s e = Some s'"
  obtain w sv where s: "s = (w, sv)" by (cases s)
  show "server_work (snd s') < server_work (snd s)" if "server_own e"
  proof (cases e)
    case (SvConnPoll k)
    with step s obtain w' c where "k < length (sv_conns sv)" "conn_poll uni (w, sv_conns sv ! k) = Some (w', c)"
      "s' = (w', sv\<lparr>sv_conns := (sv_conns sv)[k := c]\<rparr>)"
      by (auto simp: server_step_def step_conn_def conn_step_def split: if_splits option.splits)
    with s sum_list_lowered [of k "sv_conns sv" conn_work c] conn_poll_work [of uni w "sv_conns sv ! k" "(w', c)"]
    show ?thesis by (simp add: server_work_def)
  next
    case (SvProbePoll k)
    with step s obtain p where "k < length (sv_probes sv)" "probe_poll (w_mono w) (sv_probes sv ! k) = Some p"
      "s' = (w, sv\<lparr>sv_probes := (sv_probes sv)[k := p]\<rparr>)"
      by (auto simp: server_step_def split: if_splits option.splits)
    with s sum_list_lowered [of k "sv_probes sv" "\<lambda>p. probe_work (pb_pc p)" p] probe_poll_work [of "w_mono w" "sv_probes sv ! k" p]
    show ?thesis by (simp add: server_work_def)
  qed (use that step s in \<open>auto simp: server_step_def server_work_def split: if_splits\<close>)
  show "server_work (snd s') \<le> server_work (snd s)" if "server_free e"
    using that step s by (cases e) (auto simp: server_step_def server_work_def watch_config_def Let_def split: if_splits)
qed simp

section \<open>The client manager\<close>

text \<open>
  A task costs the manager two steps when it is stopped, the call and the end of the wait. A round
  handles the names to remove and spawns at most one task per peer; a configuration that is not
  seen yet will cost one more round, in which each task may be named once.
\<close>

definition peer_count :: "config \<Rightarrow> nat" where
  "peer_count cfg = length (new_peers (cfg_peers cfg))"

definition later_work :: "manager \<Rightarrow> nat \<Rightarrow> nat" where
  "later_work m tasks = 2 + (if mg_changed m then tasks + 4 * peer_count (mg_config m) + 3 else 0)"

definition control_work :: "manager \<Rightarrow> nat" where
  "control_work m =
     (case mg_pc m of
        MHead \<Rightarrow> length (mg_tasks m) + 4 * peer_count (mg_config m) + 4
      | MRemove cfg _ names \<Rightarrow>
          length names + 4 * peer_count cfg + 1 + later_work m (length (mg_tasks m) + peer_count cfg)
      | MDrain \<Rightarrow> 1 + later_work m 0
      | MWait \<Rightarrow> later_work m (length (mg_tasks m))
      | MShutdown \<Rightarrow> 1
      | MDone \<Rightarrow> 0)"

definition tasks_work :: "peer_task list \<Rightarrow> nat" where
  "tasks_work ps = sum_list (map (\<lambda>p. task_work (pt_task p)) ps)"

definition manager_work :: "manager \<Rightarrow> nat" where
  "manager_work m =
     tasks_work (all_tasks m) + 2 * length (mg_tasks m) + 2 * length (mg_leaving m)
     + (if mg_await m = None then 0 else 1) + control_work m"

lemma tasks_work_simps [simp]:
  "tasks_work [] = 0" "tasks_work (p # ps) = task_work (pt_task p) + tasks_work ps"
  "tasks_work (ps @ qs) = tasks_work ps + tasks_work qs"
  by (simp_all add: tasks_work_def)

lemma stop_task_work [simp]: "task_work (pt_task (stop_task p)) = task_work (pt_task p)"
  by (simp add: stop_task_def task_work_cancel)

lemma task_spawn_work: "task_work (task_spawn peer cc node) = 2" "steady (task_spawn peer cc node)"
  by (simp_all add: task_spawn_def task_work_def steady_def in_session_def)

text \<open>The step of one task lowers the sum by what it lowers that task.\<close>

lemma tasks_work_update:
  assumes "find (\<lambda>p. pt_handle p = h) ps = Some p" and "distinct (map pt_handle ps)"
  shows "tasks_work (map (set_task h t) ps) + task_work (pt_task p) = tasks_work ps + task_work t"
  using assms
proof (induction ps)
  case (Cons q ps)
  show ?case
  proof (cases "pt_handle q = h")
    case True
    with Cons.prems(2) have "pt_handle x \<noteq> h" if "x \<in> set ps" for x using that by (auto simp: image_iff)
    then have "map (set_task h t) ps = ps" by (intro map_idI) (simp add: set_task_def)
    moreover have "set_task h t q = q\<lparr>pt_task := t\<rparr>" using True by (simp add: set_task_def)
    ultimately show ?thesis using True Cons.prems(1) by simp
  next
    case False
    with Cons show ?thesis by (simp add: set_task_def)
  qed
qed simp

lemma delete_work:
  assumes "map_of xs n = Some p"
  shows "tasks_work (map snd (AList.delete n xs)) + task_work (pt_task p) \<le> tasks_work (map snd xs)
    \<and> length (AList.delete n xs) < length xs"
  using assms
proof (induction xs)
  case (Cons x xs)
  have "tasks_work (map snd (AList.delete n xs)) \<le> tasks_work (map snd xs)" by (induction xs) auto
  moreover have "length (AList.delete n xs) \<le> length xs" by (rule length_delete_le)
  moreover obtain k q where "x = (k, q)" by (cases x)
  ultimately show ?case using Cons by (auto split: if_splits)
qed simp

lemma spawn_new:
  "\<exists>new. mg_tasks (spawn_missing cc node ps m) = mg_tasks m @ new \<and> length new \<le> length ps
     \<and> (\<forall>x \<in> set new. \<exists>peer. pt_task (snd x) = task_spawn peer cc node)"
proof (induction cc node ps m rule: spawn_missing.induct)
  case (2 cc node name peer rest m)
  show ?case
  proof (cases "name \<in> fst ` set (mg_tasks m)")
    case True
    with 2 show ?thesis by (auto intro: le_SucI)
  next
    case False
    with 2 obtain new where "mg_tasks (spawn_missing cc node ((name, peer) # rest) m) =
        mg_tasks m @ (name, \<lparr>pt_peer = peer, pt_handle = mg_next m, pt_task = task_spawn peer cc node\<rparr>) # new"
      "length new \<le> length rest" "\<forall>x \<in> set new. \<exists>peer. pt_task (snd x) = task_spawn peer cc node" by auto
    then show ?thesis by (intro exI [of _ "(name, \<lparr>pt_peer = peer, pt_handle = mg_next m, pt_task = task_spawn peer cc node\<rparr>) # new"]) auto
  qed
qed simp

lemma spawned_work:
  assumes "\<forall>x \<in> set new. \<exists>peer. pt_task (snd x) = task_spawn peer cc node"
  shows "tasks_work (map snd new) = 2 * length new"
  using assms by (induction new) (auto simp: task_spawn_work)

lemma head_work:
  assumes "mg_pc m = MHead" and "pc_inv m" and "mg_await m = None"
  shows "manager_work (manager_head m) < manager_work m"
proof -
  have "length (to_remove peers (mg_tasks m)) \<le> length (mg_tasks m)" for peers by (simp add: to_remove_def)
  from this [of "new_peers (cfg_peers (mg_config m))"] assms show ?thesis
    by (auto simp: manager_head_def Let_def manager_work_def control_work_def later_work_def all_tasks_def pc_inv_def
        peer_count_def split: option.splits)
qed

lemma spawn_round_work:
  assumes "mg_pc m = MRemove cfg cc []"
  shows "manager_work ((spawn_missing cc node (new_peers (cfg_peers cfg)) m)\<lparr>mg_pc := MWait\<rparr>) < manager_work m"
proof -
  from spawn_new [of cc node "new_peers (cfg_peers cfg)" m] obtain new where
    new: "mg_tasks (spawn_missing cc node (new_peers (cfg_peers cfg)) m) = mg_tasks m @ new" "length new \<le> peer_count cfg"
    and "\<forall>x \<in> set new. \<exists>peer. pt_task (snd x) = task_spawn peer cc node" unfolding peer_count_def by blast
  from spawned_work [OF this(3)] new(2) assms show ?thesis
    by (simp add: manager_work_def control_work_def later_work_def all_tasks_def spawn_missing_frame new(1))
qed

lemma manager_poll_work:
  assumes step: "manager_poll m = Some m'" and pc: "pc_inv m"
  shows "manager_work m' < manager_work m"
proof (cases "mg_await m")
  case (Some p)
  with step show ?thesis
    by (auto simp: manager_poll_def manager_work_def control_work_def later_work_def all_tasks_def
        split: if_splits manager_pc.splits)
next
  case None
  show ?thesis
  proof (cases "mg_pc m")
    case (MRemove cfg cc names)
    with step None spawn_round_work [of m cfg cc] show ?thesis by (auto simp: manager_poll_def split: if_splits)
  next
    case MHead
    with step None head_work [OF MHead pc None] show ?thesis by (auto simp: manager_poll_def)
  qed (use step None pc in \<open>auto simp: manager_poll_def manager_shutdown_def manager_work_def control_work_def later_work_def
      all_tasks_def pc_inv_def split: if_splits\<close>)
qed

lemma manager_stop_work:
  assumes "manager_stop n m = Some m'"
  shows "manager_work m' < manager_work m"
proof -
  from assms have none: "mg_await m = None" by (simp add: manager_stop_def split: if_splits)
  consider (named) cfg cc names p where "mg_pc m = MRemove cfg cc names" "n \<in> set names" "map_of (mg_tasks m) n = Some p"
      "m' = m\<lparr>mg_pc := MRemove cfg cc (remove1 n names), mg_tasks := AList.delete n (mg_tasks m), mg_await := Some (stop_task p)\<rparr>"
    | (gone) cfg cc names where "mg_pc m = MRemove cfg cc names" "n \<in> set names" "m' = m\<lparr>mg_pc := MRemove cfg cc (remove1 n names)\<rparr>"
    | (leaving) p where "map_of (mg_leaving m) n = Some p" "control_work m' = control_work m"
      "m' = m\<lparr>mg_leaving := AList.delete n (mg_leaving m), mg_await := Some (stop_task p)\<rparr>"
    using assms by (auto simp: manager_stop_def Let_def control_work_def later_work_def split: manager_pc.splits if_splits option.splits)
  then show ?thesis
  proof cases
    case named
    have "length (remove1 n names) < length names" using length_pos_if_in_set [OF named(2)] named(2) by (simp add: length_remove1)
    with named none delete_work [OF named(3)] show ?thesis
      by (simp add: manager_work_def control_work_def later_work_def all_tasks_def)
  next
    case gone
    then show ?thesis using none length_pos_if_in_set [OF gone(2)]
      by (simp add: manager_work_def control_work_def later_work_def all_tasks_def length_remove1)
  next
    case leaving
    with none delete_work [OF leaving(1)] show ?thesis by (simp add: manager_work_def all_tasks_def)
  qed
qed

definition steady_entry :: "rstr \<times> peer_task \<Rightarrow> bool" where
  "steady_entry x \<longleftrightarrow> steady (pt_task (snd x))"

definition steady_tasks :: "manager \<Rightarrow> bool" where
  "steady_tasks m \<longleftrightarrow>
     list_all steady_entry (mg_tasks m) \<and> list_all steady_entry (mg_leaving m)
     \<and> (case mg_await m of None \<Rightarrow> True | Some p \<Rightarrow> steady (pt_task p))"

definition manager_steady :: "manager_state \<Rightarrow> bool" where
  "manager_steady s \<longleftrightarrow> manager_inv s \<and> steady_tasks (snd s)"

lemma steady_all: "steady_tasks m \<longleftrightarrow> (\<forall>p \<in> set (all_tasks m). steady (pt_task p))"
  by (auto simp: steady_tasks_def all_tasks_def steady_entry_def list_all_iff split: option.splits)

lemma steady_poll:
  assumes "manager_poll m = Some m'" and "steady_tasks m"
  shows "steady_tasks m'"
proof (cases "mg_await m")
  case (Some p)
  with assms show ?thesis by (auto simp: manager_poll_def steady_tasks_def split: if_splits)
next
  case None
  have "steady_tasks ((spawn_missing cc node ps m)\<lparr>mg_pc := MWait\<rparr>)" for cc node ps
  proof -
    from spawn_new [of cc node ps m] obtain new where "mg_tasks (spawn_missing cc node ps m) = mg_tasks m @ new"
      "\<forall>x \<in> set new. \<exists>peer. pt_task (snd x) = task_spawn peer cc node" by blast
    moreover from this(2) have "list_all steady_entry new"
      unfolding list_all_iff steady_entry_def using task_spawn_work(2) by metis
    ultimately show ?thesis using assms(2) by (simp add: steady_tasks_def spawn_missing_frame)
  qed
  with assms None show ?thesis
    by (cases "mg_pc m") (auto simp: manager_poll_def manager_head_def manager_shutdown_def Let_def steady_tasks_def
        spawn_missing_frame split: if_splits option.splits)
qed

lemma steady_stop:
  assumes "manager_stop n m = Some m'" and "steady_tasks m"
  shows "steady_tasks m'"
proof -
  have "steady (pt_task (stop_task p)) = steady (pt_task p)" for p by (simp add: stop_task_def task_work_cancel)
  moreover have "list_all P (AList.delete n xs)" if "list_all P xs" for P and xs :: "(rstr \<times> peer_task) list"
    using that by (auto simp: AList.delete_eq list_all_iff)
  moreover have "steady (pt_task p)" if "map_of xs n = Some p" "list_all steady_entry xs" for xs p
    using that by (auto simp: list_all_iff steady_entry_def dest!: map_of_SomeD)
  ultimately show ?thesis
    using assms by (auto simp: manager_stop_def Let_def steady_tasks_def split: manager_pc.splits if_splits option.splits)
qed

text \<open>One task of the manager takes a step.\<close>

lemma manager_taskE:
  assumes "manager_task h e (w, m) = Some s'"
  obtains p w' t where "find (\<lambda>p. pt_handle p = h) (all_tasks m) = Some p" "task_step (w, pt_task p) e = Some (w', t)"
    "s' = (w', update_task h t m)"
  using assms by (auto simp: manager_task_def split: option.splits)

lemma update_task_work:
  assumes "find (\<lambda>p. pt_handle p = h) (all_tasks m) = Some p" and "bag_inv m"
  shows "manager_work (update_task h t m) + task_work (pt_task p) = manager_work m + task_work t"
proof -
  have "control_work (update_task h t m) = control_work m"
    by (simp add: control_work_def later_work_def update_task_def split: manager_pc.splits)
  with tasks_work_update [OF assms(1), of t] assms(2) show ?thesis
    by (simp add: manager_work_def all_tasks_update bag_inv_def) (simp add: update_task_def)
qed

fun manager_free :: "manager_event \<Rightarrow> bool" where
  "manager_free (MgTick _ _) \<longleftrightarrow> True"
| "manager_free MgSenderGone \<longleftrightarrow> True"
| "manager_free MgCancel \<longleftrightarrow> True"
| "manager_free _ \<longleftrightarrow> False"

lemma manager_work_flags:
  "manager_work (m\<lparr>mg_sender := b\<rparr>) = manager_work m" "manager_work (m\<lparr>mg_cancelled := c\<rparr>) = manager_work m"
  by (simp_all add: manager_work_def control_work_def later_work_def all_tasks_def split: manager_pc.splits)

interpretation manager_pays: paying manager_step manager_steady own_event manager_free "\<lambda>s. manager_work (snd s)"
proof
  fix s s' e
  assume step: "manager_step s e = Some s'" and inv: "manager_steady s"
  obtain w m where s: "s = (w, m)" by (cases s)
  from inv s have bag: "bag_inv m" and pc: "pc_inv m" and all: "steady_tasks m"
    by (simp_all add: manager_steady_def manager_inv_def)
  have task: "steady_tasks (snd s') \<and> (task_own te \<longrightarrow> manager_work (snd s') < manager_work m)"
    if "manager_task h te (w, m) = Some s'" for h te
    using that
  proof (rule manager_taskE)
    fix p w' t
    assume p: "find (\<lambda>p. pt_handle p = h) (all_tasks m) = Some p" and t: "task_step (w, pt_task p) te = Some (w', t)"
      and s': "s' = (w', update_task h t m)"
    from p have "p \<in> set (all_tasks m)" by (auto simp: find_Some_iff)
    with all have "steady (pt_task p)" by (simp add: steady_all)
    with task_pays.inv_step [OF t] task_pays.pays [OF t] have "steady t" "task_own te \<Longrightarrow> task_work t < task_work (pt_task p)"
      by simp_all
    moreover from this(1) all have "steady_tasks (update_task h t m)" by (auto simp: steady_all all_tasks_update set_task_def)
    ultimately show ?thesis using update_task_work [OF p bag, of t] by (auto simp: s')
  qed
  have poll: "steady_tasks m' \<and> manager_work m' < manager_work m" if "manager_poll m = Some m'" for m'
    using steady_poll [OF that all] manager_poll_work [OF that pc] ..
  have stop: "steady_tasks m' \<and> manager_work m' < manager_work m" if "manager_stop n m = Some m'" for n m'
    using steady_stop [OF that all] manager_stop_work [OF that] ..
  have down: "steady_tasks (manager_shutdown m)" "mg_pc m = MWait \<Longrightarrow> manager_work (manager_shutdown m) < manager_work m"
    using all pc by (simp_all add: steady_tasks_def manager_shutdown_def manager_work_def control_work_def later_work_def
        all_tasks_def pc_inv_def)
  have "steady_tasks (snd s')"
  proof (cases e)
    case (MgTask h te)
    with step s task show ?thesis by (auto simp: manager_step_def split: task_event.splits)
  next
    case MgPoll
    with step s poll show ?thesis by (auto simp: manager_step_def)
  next
    case (MgStop n)
    with step s stop show ?thesis by (auto simp: manager_step_def)
  qed (use step s all down(1) in \<open>auto simp: manager_step_def steady_tasks_def split: if_splits\<close>)
  with manager_machine.inv_step [OF step] inv show "manager_steady s'" by (simp add: manager_steady_def)
  show "manager_work (snd s') < manager_work (snd s)" if "own_event e"
  proof (cases e)
    case (MgTask h te)
    with that have "te = TPoll \<or> te = TCancelled" by simp
    with MgTask step s task [of h te] show ?thesis by (auto simp: manager_step_def)
  qed (use that step s poll stop down(2) in \<open>auto simp: manager_step_def split: if_splits\<close>)
  show "manager_work (snd s') \<le> manager_work (snd s)" if "manager_free e"
    using that step s by (cases e) (auto simp: manager_step_def manager_work_flags)
qed

end
