(* ===== verification/Ending.thy ===== *)
theory Ending
  imports System Work
begin

text \<open>
  The work left in the whole process, from that of its parts (\<open>Work\<close>). Between two inputs from
  outside the process takes a bounded number of steps, however it is scheduled: nothing in it spins.
  Together with the fact that some such step is always possible during a shutdown (\<open>System\<close>), every
  schedule of a shutdown ends in the exit.
\<close>

section \<open>The whole process\<close>

definition process_work :: "process \<Rightarrow> nat" where
  "process_work p =
     of_bool (ap_join p ServerHandle = Live)
     + (case ap_phase p of Selecting \<Rightarrow> 4 | Joining _ _ rest \<Rightarrow> length rest + 1 | Exited _ \<Rightarrow> 0)"

definition system_work :: "system \<Rightarrow> nat" where
  "system_work s =
     process_work (sy_process s) + manager_work (sy_manager s) + server_work (sy_server s) + of_bool (sy_unseen s)"

text \<open>
  The steps the process takes by itself, in \<open>main\<close>, the manager, its tasks, the server and its
  connections. The others come from outside: signals, the network, the end of the metrics server.
\<close>

fun system_internal :: "system_event \<Rightarrow> bool" where
  "system_internal (SyProcess ApJoin) \<longleftrightarrow> True"
| "system_internal (SyProcess (ApSelect h)) \<longleftrightarrow> True"
| "system_internal (SyManager e) \<longleftrightarrow> own_event e"
| "system_internal (SyServer e) \<longleftrightarrow> server_own e"
| "system_internal SyServerReads \<longleftrightarrow> True"
| "system_internal SyServerSenderGone \<longleftrightarrow> True"
| "system_internal SyServerReturns \<longleftrightarrow> True"
| "system_internal _ \<longleftrightarrow> False"

fun system_tick :: "system_event \<Rightarrow> bool" where
  "system_tick (SyTick _ _) \<longleftrightarrow> True"
| "system_tick _ \<longleftrightarrow> False"

definition system_steady :: "system \<Rightarrow> bool" where
  "system_steady s \<longleftrightarrow> system_inv s \<and> manager_steady (sy_world s, sy_manager s)"

lemma manager_steady_world: "manager_steady (w, m) = manager_steady (w', m)"
  by (simp add: manager_steady_def manager_inv_def)

lemma system_steady_step:
  assumes "system_step uni from_toml s e = Some s'" and "system_steady s"
  shows "system_steady s'"
proof -
  from system_step_parts [OF assms(1)] obtain ps ms ss w where
    "run_steps manager_step (sy_world s, sy_manager s) ms = Some (w, sy_manager s')" by (auto simp: parts_run_def)
  from manager_pays.inv_run [OF this] assms(2) have "manager_steady (w, sy_manager s')" by (simp add: system_steady_def)
  then have "manager_steady (sy_world s', sy_manager s')" using manager_steady_world by blast
  with system_machine.inv_step [OF assms(1)] assms(2) show ?thesis by (simp add: system_steady_def)
qed

text \<open>What \<open>main\<close> tells the others costs them nothing, apart from a new configuration.\<close>

lemma news_work:
  assumes "run_steps manager_step (w, m) (manager_news None p) = Some (w', m')"
  shows "manager_work m' = manager_work m"
  using assms by (auto simp: manager_news_def manager_step_def manager_work_flags split: if_splits)

lemma process_pays:
  assumes "process_step from_toml p e = Some p'" and "e = ApJoin \<or> (\<exists>h. e = ApSelect h)"
  shows "process_work p' < process_work p"
  using assms by (auto simp: process_step_def join_next_def shut_down_def process_work_def
      split: if_splits phase.splits list.splits join.splits option.splits)

lemma system_process_pays:
  assumes "system_process uni from_toml e s = Some s'" and e: "e = ApJoin \<or> (\<exists>h. e = ApSelect h)"
  shows "system_work s' < system_work s"
  using assms(1)
proof (rule system_processE)
  fix w m sv p
  assume p: "process_step from_toml (sy_process s) e = Some p"
    and m: "run_steps manager_step (sy_world s, sy_manager s) (manager_news (broadcast from_toml (sy_process s) e) p) = Some (w, m)"
    and sv: "run_steps (server_step uni) (w, sy_server s) (server_news p) = Some (sy_world s', sv)"
    and s': "sy_process s' = p" "sy_manager s' = m" "sy_server s' = sv"
      "sy_unseen s' \<longleftrightarrow> sy_unseen s \<or> broadcast from_toml (sy_process s) e \<noteq> None"
  from e have "broadcast from_toml (sy_process s) e = None" by (auto simp: broadcast_def)
  with m s'(4) news_work have "manager_work m = manager_work (sy_manager s)" "sy_unseen s' = sy_unseen s" by auto
  moreover from server_news_run(2) [OF sv] have "server_work sv = server_work (sy_server s)" by (simp add: server_work_def)
  ultimately show ?thesis using process_pays [OF p e] by (simp add: system_work_def s')
qed

lemma system_manager_pays:
  assumes "system_manager from_toml e s = Some s'" and "own_event e" and "system_steady s"
  shows "system_work s' < system_work s"
  using assms(1)
proof (rule system_managerE)
  fix w m p
  assume m: "manager_step (sy_world s, sy_manager s) e = Some (w, m)"
    and s': "s' = s\<lparr>sy_world := w, sy_process := p, sy_manager := m\<rparr>"
    and p: "run_steps (process_step from_toml) (sy_process s) (if mg_pc m = MDone then [ApEnds ClientHandle True] else []) = Some p"
  from manager_pays.pays [OF m _ assms(2)] assms(3) have "manager_work m < manager_work (sy_manager s)"
    by (simp add: system_steady_def)
  moreover from p have "process_work p = process_work (sy_process s)"
    by (auto simp: process_step_def process_work_def split: if_splits)
  ultimately show ?thesis by (simp add: system_work_def s')
qed

lemma system_server_pays:
  assumes "system_server uni from_toml e s = Some s'"
  shows "server_own e \<Longrightarrow> system_work s' < system_work s" "server_free e \<Longrightarrow> system_work s' \<le> system_work s"
    "sy_unseen s' = sy_unseen s"
proof -
  from assms obtain w sv p where sv: "server_step uni (sy_world s, sy_server s) e = Some (w, sv)"
    and s': "s' = s\<lparr>sy_world := w, sy_process := p, sy_server := sv\<rparr>"
    and p: "run_steps (process_step from_toml) (sy_process s)
       (if sv_watching (sy_server s) \<and> \<not> sv_watching sv then [ApWatcherEnds] else []) = Some p" by (rule system_serverE)
  from p have "process_work p = process_work (sy_process s)" by (auto simp: process_step_def process_work_def split: if_splits)
  with server_pays.pays [OF sv] server_pays.free [OF sv]
  show "server_own e \<Longrightarrow> system_work s' < system_work s" "server_free e \<Longrightarrow> system_work s' \<le> system_work s"
    by (simp_all add: system_work_def s')
  show "sy_unseen s' = sy_unseen s" by (simp add: s')
qed

interpretation system_pays: paying "system_step uni from_toml" system_steady system_internal system_tick system_work
  for uni from_toml
proof
  fix s s' e
  assume step: "system_step uni from_toml s e = Some s'" and inv: "system_steady s"
  from system_steady_step [OF step inv] show "system_steady s'" .
  show "system_work s' < system_work s" if own: "system_internal e"
  proof (cases e)
    case (SyProcess pe)
    with own have "pe = ApJoin \<or> (\<exists>h. pe = ApSelect h)" by (cases pe) auto
    with step SyProcess system_process_pays show ?thesis by (auto simp: system_step_def split: if_splits)
  next
    case (SyManager me)
    with step own inv system_manager_pays show ?thesis by (auto simp: system_step_def split: if_splits)
  next
    case (SyServer se)
    with step own system_server_pays(1) show ?thesis by (auto simp: system_step_def split: if_splits)
  next
    case SyServerReads
    with step obtain t where t: "system_server uni from_toml (SvConfig (ap_config (sy_process s))) s = Some t"
      and "s' = t\<lparr>sy_unseen := False\<rparr>" "sy_unseen s" by (auto simp: system_step_def split: if_splits)
    with system_server_pays(2,3) [OF t] show ?thesis by (simp add: system_work_def)
  next
    case SyServerSenderGone
    with step system_server_pays(1) show ?thesis by (auto simp: system_step_def split: if_splits)
  next
    case SyServerReturns
    with step show ?thesis
      by (auto simp: system_step_def process_step_def system_work_def process_work_def split: if_splits)
  qed (use own in simp)
  show "system_work s' \<le> system_work s" if "system_tick e"
    using that step by (cases e) (auto simp: system_step_def system_work_def split: if_splits)
qed

lemma boot_steady:
  assumes "boot read_file from_toml os_bind time args = Inr s"
  shows "system_steady s"
  using assms
proof (rule boot_start)
  fix path cfg assume "s = system_start time path cfg"
  then show ?thesis
    using system_start_inv [of time path cfg]
    by (simp add: system_steady_def manager_steady_def system_inv_def)
      (simp add: system_start_def manager_start_def steady_tasks_def)
qed

interpretation process_token: stepper "process_step from_toml" ap_cancelled for from_toml
  by unfold_locales (rule process_input_frame(1))

lemma run_cancelled:
  assumes "run_steps (system_step uni from_toml) s fs = Some s'" and "ap_cancelled (sy_process s)"
  shows "ap_cancelled (sy_process s')"
  using system_run_process [OF assms(1)] process_token.inv_run assms(2) by blast

lemma own_internal: "system_own e \<Longrightarrow> system_internal e"
  by (cases e) auto

section \<open>Properties\<close>

text \<open>
  C19. The process never spins and a shutdown ends under every schedule. From any state it can
  reach, at most \<open>system_work\<close> steps of its own follow before the next input from outside, in
  whatever order its tasks are polled and however the clock moves. And once the token is cancelled,
  as long as \<open>main\<close> has not returned another of these steps is possible; so every schedule that
  goes on comes to the exit, with the code SUCCESS exactly if it was not the end of a task that began it.
\<close>

theorem every_schedule_ends:
  assumes "boot read_file from_toml os_bind time args = Inr s0" and "run_steps (system_step uni from_toml) s0 es = Some s"
    and "run_steps (system_step uni from_toml) s fs = Some s'" and "list_all (\<lambda>e. system_internal e \<or> system_tick e) fs"
  shows "length (filter system_internal fs) + system_work s' \<le> system_work s
    \<and> (ap_cancelled (sy_process s) \<longrightarrow>
         ap_phase (sy_process s') = Exited (exit_of (first_stop (es @ fs)))
         \<or> (\<exists>e. system_internal e \<and> system_step uni from_toml s' e \<noteq> None))"
proof (rule conjI)
  from system_pays.inv_run [OF assms(2) boot_steady [OF assms(1)]] have "system_steady s" .
  from system_pays.bounded [OF assms(3) this assms(4)]
  show "length (filter system_internal fs) + system_work s' \<le> system_work s" .
  show "ap_cancelled (sy_process s) \<longrightarrow> ap_phase (sy_process s') = Exited (exit_of (first_stop (es @ fs)))
      \<or> (\<exists>e. system_internal e \<and> system_step uni from_toml s' e \<noteq> None)"
  proof
    assume "ap_cancelled (sy_process s)"
    from run_cancelled [OF assms(3) this] have c: "ap_cancelled (sy_process s')" .
    from assms(2,3) have "run_steps (system_step uni from_toml) s0 (es @ fs) = Some s'" by (simp add: run_steps_append)
    from shutdown_terminates [OF assms(1) this c] obtain gs t where gs: "list_all system_own gs"
      "run_steps (system_step uni from_toml) s' gs = Some t" "ap_phase (sy_process t) = Exited (exit_of (first_stop (es @ fs)))"
      by blast
    then show "ap_phase (sy_process s') = Exited (exit_of (first_stop (es @ fs)))
        \<or> (\<exists>e. system_internal e \<and> system_step uni from_toml s' e \<noteq> None)"
      by (cases gs) (auto dest: own_internal split: option.splits)
  qed
qed

theorem every_schedule_ends_witness:
  "\<exists>s0 s s'. boot (\<lambda>_. Inr []) (\<lambda>_. Inr example_raw) (\<lambda>_. None) 0 [] = Inr s0
     \<and> run_steps (system_step (\<lambda>_. False) (\<lambda>_. Inr example_raw)) s0
         [SyManager MgPoll, SyManager MgPoll, SyProcess (ApSignal (Ready (Inr ())) Pending)] = Some s
     \<and> run_steps (system_step (\<lambda>_. False) (\<lambda>_. Inr example_raw)) s
         [SyManager MgCancelled, SyManager (MgStop (pc_name example_peer)), SyManager (MgTask 0 TPoll),
          SyManager (MgTask 0 TCancelled), SyManager MgPoll, SyManager MgPoll, SyServerReturns, SyProcess ApJoin,
          SyProcess ApJoin, SyProcess ApJoin] = Some s'
     \<and> 10 \<le> system_work s \<and> ap_phase (sy_process s') = Exited SUCCESS"
proof -
  let ?step = "system_step (\<lambda>_. False) (\<lambda>_. Inr example_raw)"
  let ?es = "[SyManager MgPoll, SyManager MgPoll, SyProcess (ApSignal (Ready (Inr ())) Pending)]"
  let ?fs = "[SyManager MgCancelled, SyManager (MgStop (pc_name example_peer)), SyManager (MgTask 0 TPoll),
          SyManager (MgTask 0 TCancelled), SyManager MgPoll, SyManager MgPoll, SyServerReturns, SyProcess ApJoin,
          SyProcess ApJoin, SyProcess ApJoin]"
  from example_exit_run obtain s' where "run_steps ?step (system_start 0 DEFAULT_CONFIG_PATH example_config) (?es @ ?fs) = Some s'"
    and e: "ap_phase (sy_process s') = Exited SUCCESS" by auto
  then obtain s where r: "run_steps ?step (system_start 0 DEFAULT_CONFIG_PATH example_config) ?es = Some s"
    "run_steps ?step s ?fs = Some s'" by (auto simp only: run_steps_append split: option.splits)
  from every_schedule_ends [OF example_boot r] have "10 + system_work s' \<le> system_work s" by simp
  then have "10 \<le> system_work s" by simp
  with example_boot r e show ?thesis by blast
qed

end
