(* ===== verification/Timers.thy ===== *)
theory Timers
  imports System
begin

text \<open>
  How far ahead of the clock a timer of the process is ever set: the deadlines of the inbound
  connections and the probes, the pauses of the accept loops, and the schedule, the echo wait and the
  reconnect delay of every session task. With the timing values that \<open>validate\<close> lets pass, none is
  further ahead than a day.
\<close>

section \<open>A session task\<close>

definition day :: duration where
  "day = 86400 * nanos_per_sec"

definition task_ahead :: "instant \<Rightarrow> task \<Rightarrow> bool" where
  "task_ahead now t \<longleftrightarrow>
     client_ok (tk_cfg t) \<and> tk_next_send t \<le> now + day
     \<and> (case tk_pc t of KBackoff until \<Rightarrow> until \<le> now + day | KEcho _ _ deadline _ \<Rightarrow> deadline \<le> now + day | _ \<Rightarrow> True)"

lemma task_aheadD:
  assumes "task_ahead now t"
  shows "tk_next_send t \<le> now + day" "tk_pc t = KBackoff until \<Longrightarrow> until \<le> now + day"
    "tk_pc t = KEcho q ts d got \<Longrightarrow> d \<le> now + day"
  using assms by (auto simp: task_ahead_def)

lemma timing_le_day: "timing_ok mn v \<Longrightarrow> from_secs v \<le> day"
  by (drule timing_ok_unat) (simp add: from_secs_def day_def)

lemma client_le_day:
  assumes "client_ok (tk_cfg t)"
  shows "heartbeat_interval t \<le> day" "from_secs (cc_reconnect_delay (tk_cfg t)) \<le> day"
  using assms timing_le_day by (auto simp: client_ok_def heartbeat_interval_def)

lemma task_ahead_later: "task_ahead now t \<Longrightarrow> now \<le> now' \<Longrightarrow> task_ahead now' t"
  by (auto simp: task_ahead_def split: task_pc.splits)

text \<open>Every part of a poll leaves the clock alone and the timers where they may be.\<close>

definition poll_ahead :: "instant \<Rightarrow> task_state \<Rightarrow> bool" where
  "poll_ahead now s \<longleftrightarrow> w_mono (fst s) = now \<and> task_ahead now (snd s)"

lemma part_ahead:
  assumes "client_ok (tk_cfg t)" and "tk_next_send t \<le> w_mono w + day"
  shows "poll_ahead (w_mono w) (session_turn (w, t))" "poll_ahead (w_mono w) (task_backoff (w, t))"
    "poll_ahead (w_mono w) (session_end reason (w, t))" "poll_ahead (w_mono w) (connect_failed (w, t))"
    "tk_next_send t \<le> w_mono w \<Longrightarrow> poll_ahead (w_mono w) (session_send (w, t))"
  using assms client_le_day [OF assms(1)]
  by (simp_all add: poll_ahead_def task_ahead_def session_turn_def session_send_def session_end_def connect_failed_def
      task_backoff_def Let_def)

lemma echo_ahead:
  assumes "poll_echo q ts d got (w, t) = Some s'" and "client_ok (tk_cfg t)" and "tk_next_send t \<le> w_mono w + day"
    and "d \<le> w_mono w + day"
  shows "poll_ahead (w_mono w) s'"
proof -
  obtain res r i where r: "recv (tk_reader t) (tk_inbox t) = (res, r, i)" by (cases "recv (tk_reader t) (tk_inbox t)")
  have turn: "poll_ahead (w_mono w) (session_turn (w', t'))" "poll_ahead (w_mono w) (session_end reason (w', t'))"
    if "w_mono w' = w_mono w" "tk_cfg t' = tk_cfg t" "tk_next_send t' \<le> w_mono w + day" for w' t' reason
    using part_ahead(1,3) [of t' w'] assms(2) that by simp_all
  have i: "heartbeat_interval t \<le> day" using client_le_day(1) [OF assms(2)] .
  have "poll_ahead (w_mono w) (echo_timeout got (w, t\<lparr>tk_reader := r, tk_inbox := i\<rparr>))"
    using turn i assms(3) by (simp add: echo_timeout_def Let_def)
  moreover have "poll_ahead (w_mono w) (echo_received e q ts d (w, t\<lparr>tk_reader := r, tk_inbox := i\<rparr>))" for e
    using turn assms(2-4) by (simp add: echo_received_def Let_def) (simp add: poll_ahead_def task_ahead_def)
  ultimately show ?thesis
    using assms(1) r turn(2) assms(3) by (auto simp: poll_echo_def split: poll.splits sum.splits if_splits)
qed

lemma task_poll_ahead:
  assumes "task_poll (w, t) = Some s'" and "task_ahead (w_mono w) t"
  shows "poll_ahead (w_mono w) s'"
proof -
  from assms(2) have t: "client_ok (tk_cfg t)" "tk_next_send t \<le> w_mono w + day" by (simp_all add: task_ahead_def)
  have part: "poll_ahead (w_mono w) (session_turn (w', t'))" "poll_ahead (w_mono w) (session_end reason (w', t'))"
    "poll_ahead (w_mono w) (task_backoff (w', t'))"
    if "w_mono w' = w_mono w" "tk_cfg t' = tk_cfg t" "tk_next_send t' \<le> w_mono w + day" for w' t' reason
    using part_ahead(1-3) [of t' w'] t(1) that by simp_all
  have i: "heartbeat_interval t \<le> day" using client_le_day(1) [OF t(1)] .
  show ?thesis
  proof (cases "tk_pc t")
    case (KEcho q ts d got)
    with assms echo_ahead [of q ts d got w t s'] t show ?thesis by (simp add: task_poll_def task_ahead_def)
  next
    case KHandshake
    with assms(1) part t show ?thesis
      by (auto simp: task_poll_def poll_handshake_def session_start_def Let_def split: prod.splits sum.splits)
  next
    case (KSend time)
    with assms(1) part t i show ?thesis
      by (auto simp: task_poll_def poll_send_def split: prod.splits sum.splits) (simp add: poll_ahead_def task_ahead_def)
  next
    case KSleep
    with assms(1) part_ahead(5) [OF t] show ?thesis by (simp add: task_poll_def split: if_splits)
  qed (use assms(1) t in \<open>auto simp: task_poll_def task_connect_def poll_ahead_def task_ahead_def split: if_splits\<close>)
qed

lemma task_step_ahead:
  assumes "task_step (w, t) e = Some (w', t')" and "task_ahead (w_mono w) t"
  shows "w_mono w \<le> w_mono w'" "task_ahead (w_mono w') t'"
proof -
  from assms(2) have t: "client_ok (tk_cfg t)" "tk_next_send t \<le> w_mono w + day" by (simp_all add: task_ahead_def)
  have "w_mono w \<le> w_mono w' \<and> task_ahead (w_mono w') t'"
  proof (cases e)
    case (TTick d time)
    with assms task_ahead_later [OF assms(2)] show ?thesis by (auto simp: task_step_def w_tick_def)
  next
    case TPoll
    with assms task_poll_ahead [of w t "(w', t')"] show ?thesis by (simp add: task_step_def poll_ahead_def)
  next
    case TCancelled
    with assms(1) have "(w', t') = session_end ''cancelled'' (w, t) \<or> w' = w \<and> t' = t\<lparr>tk_pc := KDone\<rparr>"
      by (simp add: task_step_def task_cancelled_def split: if_splits task_pc.splits)
    moreover have "task_ahead (w_mono w) (t\<lparr>tk_pc := KDone\<rparr>)" using t by (simp add: task_ahead_def)
    ultimately show ?thesis using part_ahead(3) [OF t, of "''cancelled''"] unfolding poll_ahead_def
      by (metis fst_conv order_refl snd_conv)
  next
    case (TConnectFailed k)
    with assms(1) part_ahead(4) [OF t] show ?thesis by (auto simp: task_step_def poll_ahead_def split: task_pc.splits)
  next
    case (TConnected faults)
    with assms(1) t show ?thesis by (auto simp: task_step_def connected_def task_ahead_def split: task_pc.splits)
  qed (use assms in \<open>auto simp: task_step_def task_ahead_def\<close>)
  then show "w_mono w \<le> w_mono w'" "task_ahead (w_mono w') t'" by simp_all
qed


section \<open>The client manager\<close>

definition manager_ahead :: "manager_state \<Rightarrow> bool" where
  "manager_ahead s =
     (case s of (w, m) \<Rightarrow>
        (\<forall>p \<in> set (all_tasks m). task_ahead (w_mono w) (pt_task p))
        \<and> (\<forall>cl. cfg_client (mg_config m) = Some cl \<longrightarrow> client_ok cl)
        \<and> (\<forall>cfg cl names. mg_pc m = MRemove cfg cl names \<longrightarrow> client_ok cl))"

lemma manager_ahead_later: "manager_ahead (w, m) \<Longrightarrow> w_mono w \<le> w_mono w' \<Longrightarrow> manager_ahead (w', m)"
  using task_ahead_later by (auto simp: manager_ahead_def)

lemma spawn_ahead: "client_ok cc \<Longrightarrow> task_ahead now (task_spawn peer cc node)"
  by (simp add: task_ahead_def task_spawn_def)

lemma spawn_missing_ahead:
  assumes "client_ok cc" and "\<forall>p \<in> set (all_tasks m). task_ahead now (pt_task p)"
  shows "\<forall>p \<in> set (all_tasks (spawn_missing cc node ps m)). task_ahead now (pt_task p)"
  using assms
proof (induction cc node ps m rule: spawn_missing.induct)
  case (2 cc node name peer rest m)
  let ?m = "m\<lparr>mg_tasks := mg_tasks m @ [(name, \<lparr>pt_peer = peer, pt_handle = mg_next m, pt_task = task_spawn peer cc node\<rparr>)],
      mg_next := mg_next m + 1\<rparr>"
  have "set (all_tasks ?m) = insert \<lparr>pt_peer = peer, pt_handle = mg_next m, pt_task = task_spawn peer cc node\<rparr> (set (all_tasks m))"
    by (auto simp: all_tasks_def)
  with 2(3) spawn_ahead [OF 2(2)] have "\<forall>p \<in> set (all_tasks ?m). task_ahead now (pt_task p)" by simp
  with 2 show ?case by simp
qed simp

lemma stop_ahead: "task_ahead now (pt_task (stop_task p)) = task_ahead now (pt_task p)"
  by (simp add: task_ahead_def stop_task_def)

text \<open>A step that spawns nothing keeps some of the tasks, and may stop one.\<close>

lemma fewer_ahead:
  assumes "manager_ahead (w, m)" and "set (all_tasks m') \<subseteq> set (all_tasks m) \<union> stop_task ` set (all_tasks m)"
    and "mg_config m' = mg_config m"
    and "\<And>cfg cl names. mg_pc m' = MRemove cfg cl names \<Longrightarrow> (\<exists>names. mg_pc m = MRemove cfg cl names) \<or> cfg_client (mg_config m) = Some cl"
  shows "manager_ahead (w, m')"
proof -
  from assms(1) have "\<forall>p \<in> set (all_tasks m) \<union> stop_task ` set (all_tasks m). task_ahead (w_mono w) (pt_task p)"
    by (auto simp: manager_ahead_def stop_ahead)
  with assms(2) have "\<forall>p \<in> set (all_tasks m'). task_ahead (w_mono w) (pt_task p)" by blast
  with assms(1,3,4) show ?thesis by (auto simp: manager_ahead_def)
qed

lemma manager_poll_ahead:
  assumes "manager_poll m = Some m'" and "manager_ahead (w, m)"
  shows "manager_ahead (w, m')"
proof (cases "\<exists>cfg cl names. mg_await m = None \<and> mg_pc m = MRemove cfg cl names")
  case True
  then obtain cfg cl names where pc: "mg_await m = None" "mg_pc m = MRemove cfg cl names" by blast
  with assms(1) have m': "m' = (spawn_missing cl (nc_name (cfg_node cfg)) (new_peers (cfg_peers cfg)) m)\<lparr>mg_pc := MWait\<rparr>"
    by (simp add: manager_poll_def split: if_splits)
  from assms(2) pc have "client_ok cl" "\<forall>p \<in> set (all_tasks m). task_ahead (w_mono w) (pt_task p)"
    by (simp_all add: manager_ahead_def)
  note spawn_missing_ahead [OF this, of "nc_name (cfg_node cfg)" "new_peers (cfg_peers cfg)"]
  moreover have "all_tasks (x\<lparr>mg_pc := MWait\<rparr>) = all_tasks x" for x by (simp add: all_tasks_def)
  ultimately show ?thesis using assms(2) by (simp add: manager_ahead_def m' spawn_missing_frame)
next
  case False
  then have "set (all_tasks m') \<subseteq> set (all_tasks m)" "mg_config m' = mg_config m"
    "mg_pc m' = MRemove cfg cl names \<Longrightarrow> (\<exists>names. mg_pc m = MRemove cfg cl names) \<or> cfg_client (mg_config m) = Some cl" for cfg cl names
    using assms(1)
    by (auto simp: manager_poll_def manager_head_def manager_shutdown_def all_tasks_def Let_def
        split: option.splits manager_pc.splits if_splits)
  with fewer_ahead [OF assms(2), of m'] show ?thesis by blast
qed

lemma delete_subset: "snd ` set (AList.delete n xs) \<subseteq> snd ` set xs"
  by (induction xs) auto

text \<open>The call of \<open>stop\<close> takes at most one task out of a list, cancels it and waits for it.\<close>

lemma stopped_tasks:
  assumes "mg_await m = None" and "map_of xs n = Some p" and "set ys \<subseteq> set (all_tasks m)" and "snd ` set xs \<subseteq> set (all_tasks m)"
  shows "snd ` set (AList.delete n xs) \<union> set ys \<union> {stop_task p} \<subseteq> set (all_tasks m) \<union> stop_task ` set (all_tasks m)"
proof -
  from assms(2) have "p \<in> snd ` set xs" by (force dest: map_of_SomeD)
  with assms(3,4) delete_subset [of n xs] show ?thesis by blast
qed

lemma manager_stop_ahead:
  assumes "manager_stop name m = Some m'" and "manager_ahead (w, m)"
  shows "manager_ahead (w, m')"
proof -
  from assms(1) have none: "mg_await m = None" by (simp add: manager_stop_def split: if_splits)
  have tasks: "snd ` set (mg_tasks m) \<subseteq> set (all_tasks m)" "snd ` set (mg_leaving m) \<subseteq> set (all_tasks m)"
    by (auto simp: all_tasks_def)
  have all: "set (all_tasks m') = snd ` set (mg_tasks m') \<union> snd ` set (mg_leaving m')
      \<union> (case mg_await m' of None \<Rightarrow> {} | Some p \<Rightarrow> {p})"
    by (simp add: all_tasks_def Un_assoc split: option.splits)
  have leave: ?thesis if "mg_pc m = MDrain \<or> mg_pc m = MShutdown"
  proof -
    from that assms(1) none obtain p where p: "map_of (mg_leaving m) name = Some p"
      and m': "m' = m\<lparr>mg_leaving := AList.delete name (mg_leaving m), mg_await := Some (stop_task p)\<rparr>"
      by (auto simp: manager_stop_def split: option.splits)
    from stopped_tasks [OF none p, of "map snd (mg_tasks m)"] tasks
    have "set (all_tasks m') \<subseteq> set (all_tasks m) \<union> stop_task ` set (all_tasks m)" unfolding all by (simp add: m')
    with fewer_ahead [OF assms(2), of m'] that show ?thesis by (auto simp: m')
  qed
  show ?thesis
  proof (cases "mg_pc m")
    case (MRemove cfg cl names)
    with assms(1) none have pc: "mg_pc m' = MRemove cfg cl (remove1 name names)" "mg_config m' = mg_config m" "mg_leaving m' = mg_leaving m"
      and alt: "map_of (mg_tasks m) name = None \<and> mg_tasks m' = mg_tasks m \<and> mg_await m' = None
        \<or> (\<exists>p. map_of (mg_tasks m) name = Some p \<and> mg_tasks m' = AList.delete name (mg_tasks m) \<and> mg_await m' = Some (stop_task p))"
      by (auto simp: manager_stop_def Let_def split: if_splits option.splits)
    from alt have "set (all_tasks m') \<subseteq> set (all_tasks m) \<union> stop_task ` set (all_tasks m)"
    proof (elim disjE exE conjE)
      fix p
      assume "map_of (mg_tasks m) name = Some p" "mg_tasks m' = AList.delete name (mg_tasks m)" "mg_await m' = Some (stop_task p)"
      with stopped_tasks [OF none this(1), of "map snd (mg_leaving m)"] tasks pc(3) show ?thesis unfolding all by simp
    next
      assume "mg_tasks m' = mg_tasks m" "mg_await m' = None"
      with tasks pc(3) show ?thesis unfolding all by auto
    qed
    with fewer_ahead [OF assms(2), of m'] pc MRemove show ?thesis by auto
  next
    case MHead
    with assms(1) show ?thesis by (simp add: manager_stop_def split: if_splits)
  next
    case MWait
    with assms(1) show ?thesis by (simp add: manager_stop_def split: if_splits)
  next
    case MDone
    with assms(1) show ?thesis by (simp add: manager_stop_def split: if_splits)
  qed (simp_all add: leave)
qed

lemma manager_task_ahead:
  assumes "manager_task h e (w, m) = Some (w', m')" and "manager_ahead (w, m)"
  shows "w_mono w \<le> w_mono w'" "manager_ahead (w', m')"
proof -
  from assms(1) obtain p t where p: "find (\<lambda>p. pt_handle p = h) (all_tasks m) = Some p"
    and t: "task_step (w, pt_task p) e = Some (w', t)" and m': "m' = update_task h t m"
    by (auto simp: manager_task_def split: option.splits)
  from p have "p \<in> set (all_tasks m)" by (auto simp: find_Some_iff)
  with assms(2) have "task_ahead (w_mono w) (pt_task p)" by (simp add: manager_ahead_def)
  note s = task_step_ahead [OF t this]
  then show "w_mono w \<le> w_mono w'" by simp
  have "task_ahead (w_mono w') (pt_task (set_task h t q))" if "q \<in> set (all_tasks m)" for q
    using that assms(2) s task_ahead_later by (auto simp: manager_ahead_def set_task_def)
  with assms(2) show "manager_ahead (w', m')"
    by (auto simp: manager_ahead_def m' all_tasks_update) (auto simp: update_task_def)
qed

lemma manager_step_ahead:
  assumes "manager_step (w, m) e = Some (w', m')" and "manager_ahead (w, m)"
    and "\<And>cfg. e = MgConfig cfg \<Longrightarrow> config_ok cfg"
  shows "w_mono w \<le> w_mono w' \<and> manager_ahead (w', m')"
proof (cases e)
  case (MgTick d time)
  with assms(1,2) manager_ahead_later [of w m w'] show ?thesis by (auto simp: manager_step_def w_tick_def)
next
  case (MgTask h te)
  with assms(1) have "manager_task h te (w, m) = Some (w', m')" by (simp add: manager_step_def split: task_event.splits)
  from manager_task_ahead [OF this assms(2)] show ?thesis by simp
next
  case MgPoll
  with assms(1,2) manager_poll_ahead show ?thesis by (auto simp: manager_step_def)
next
  case (MgStop n)
  with assms(1,2) manager_stop_ahead show ?thesis by (auto simp: manager_step_def)
next
  case (MgConfig cfg)
  with assms(1) have m': "w' = w" "m' = m\<lparr>mg_config := cfg, mg_changed := True\<rparr>" by (auto simp: manager_step_def split: if_splits)
  have "all_tasks m' = all_tasks m" by (simp add: m' all_tasks_def)
  with assms(2) assms(3) [OF MgConfig] show ?thesis by (auto simp: m' manager_ahead_def config_ok_def)
next
  case MgSenderGone
  with assms(1) have "w' = w" "m' = m\<lparr>mg_sender := False\<rparr>" by (simp_all add: manager_step_def)
  with assms(2) show ?thesis by (simp add: manager_ahead_def all_tasks_def)
next
  case MgCancel
  with assms(1) have "w' = w" "m' = m\<lparr>mg_cancelled := True\<rparr>" by (simp_all add: manager_step_def)
  with assms(2) show ?thesis by (simp add: manager_ahead_def all_tasks_def)
next
  case MgCancelled
  with assms(1) have m': "w' = w" "m' = m\<lparr>mg_leaving := mg_tasks m, mg_tasks := [], mg_pc := MShutdown\<rparr>"
    by (auto simp: manager_step_def manager_shutdown_def split: if_splits)
  then have "set (all_tasks m') \<subseteq> set (all_tasks m)" by (auto simp: all_tasks_def)
  with fewer_ahead [OF assms(2), of m'] show ?thesis by (auto simp: m')
qed

lemma manager_run_ahead:
  assumes "run_steps manager_step (w, m) es = Some (w', m')" and "manager_ahead (w, m)"
    and "\<And>cfg. MgConfig cfg \<in> set es \<Longrightarrow> config_ok cfg"
  shows "w_mono w \<le> w_mono w' \<and> manager_ahead (w', m')"
  using assms
proof (induction es arbitrary: w m)
  case (Cons e es)
  then obtain w1 m1 where s: "manager_step (w, m) e = Some (w1, m1)" "run_steps manager_step (w1, m1) es = Some (w', m')"
    by (auto split: option.splits)
  from manager_step_ahead [OF s(1) Cons.prems(2)] Cons.prems(3) have one: "w_mono w \<le> w_mono w1 \<and> manager_ahead (w1, m1)" by auto
  with Cons.IH [OF s(2)] Cons.prems(3) show ?case by auto
qed simp

section \<open>The server\<close>

definition conn_ahead :: "instant \<Rightarrow> conn \<Rightarrow> bool" where
  "conn_ahead now c \<longleftrightarrow> from_secs (cn_timeout c) \<le> day \<and> cn_deadline c \<le> now + day"

definition probe_ahead :: "instant \<Rightarrow> probe \<Rightarrow> bool" where
  "probe_ahead now p \<longleftrightarrow> from_secs (pb_idle p) \<le> day \<and> pb_deadline p \<le> now + day"

definition server_ahead :: "server_state \<Rightarrow> bool" where
  "server_ahead s =
     (case s of (w, sv) \<Rightarrow>
        from_secs (sv_recv_timeout sv) \<le> day \<and> from_secs (sv_probe_timeout sv) \<le> day
        \<and> sv_accept_at sv \<le> w_mono w + day \<and> sv_probe_at sv \<le> w_mono w + day
        \<and> (\<forall>c \<in> set (sv_conns sv). conn_ahead (w_mono w) c) \<and> (\<forall>p \<in> set (sv_probes sv). probe_ahead (w_mono w) p))"

lemma server_ahead_later: "server_ahead (w, sv) \<Longrightarrow> w_mono w \<le> w_mono w' \<Longrightarrow> server_ahead (w', sv)"
  by (fastforce simp: server_ahead_def conn_ahead_def probe_ahead_def)

lemma conn_step_ahead:
  assumes "conn_step uni (w, c) e = Some (w', c')" and "conn_ahead (w_mono w) c"
  shows "w_mono w \<le> w_mono w'" "conn_ahead (w_mono w') c'"
proof -
  have "from_secs HANDSHAKE_TIMEOUT_SECS \<le> day" by (simp add: from_secs_def HANDSHAKE_TIMEOUT_SECS_def day_def)
  with assms have "w_mono w \<le> w_mono w' \<and> conn_ahead (w_mono w') c'"
    by (cases e; cases "cn_pc c")
      (auto simp: conn_step_def conn_poll_def conn_admit_def conn_await_def conn_finish_def conn_ahead_def w_tick_def w_emit_def
        Let_def split: prod.splits poll.splits sum.splits bool.splits if_splits)
  then show "w_mono w \<le> w_mono w'" "conn_ahead (w_mono w') c'" by simp_all
qed

lemma probe_poll_ahead: "probe_poll now p = Some p' \<Longrightarrow> probe_ahead now p \<Longrightarrow> probe_ahead now p'"
  by (auto simp: probe_poll_def probe_ahead_def split: probe_pc.splits prod.splits sum.splits bool.splits if_splits)

lemma server_step_ahead:
  assumes "server_step uni (w, sv) e = Some (w', sv')" and inv: "server_ahead (w, sv)"
    and "\<And>cfg. e = SvConfig cfg \<Longrightarrow> config_ok cfg"
  shows "w_mono w \<le> w_mono w' \<and> server_ahead (w', sv')"
proof -
  have conn: ?thesis if s: "step_conn uni k ce (w, sv) = Some (w', sv')" for k ce
  proof -
    from s obtain c' where k: "k < length (sv_conns sv)" and c': "conn_step uni (w, sv_conns sv ! k) ce = Some (w', c')"
      and sv': "sv' = sv\<lparr>sv_conns := (sv_conns sv)[k := c']\<rparr>"
      by (auto simp: step_conn_def split: if_splits option.splits)
    from inv k have "conn_ahead (w_mono w) (sv_conns sv ! k)" by (simp add: server_ahead_def)
    note step = conn_step_ahead [OF c' this]
    from server_ahead_later [OF inv step(1)] step show ?thesis
      using set_update_subset_insert [of "sv_conns sv" k c'] by (auto simp: server_ahead_def sv')
  qed
  have probe: "server_ahead (w, sv\<lparr>sv_probes := (sv_probes sv)[k := p]\<rparr>)" if "probe_ahead (w_mono w) p" for k p
    using inv that set_update_subset_insert [of "sv_probes sv" k p] by (auto simp: server_ahead_def)
  have sec: "from_secs 1 \<le> day" by (simp add: from_secs_def day_def)
  show ?thesis
  proof (cases e)
    case (SvTick d time)
    with assms(1) server_ahead_later [OF inv, of w'] show ?thesis by (auto simp: server_step_def w_tick_def)
  next
    case (SvConnArrives k i)
    with assms(1) conn show ?thesis by (simp add: server_step_def)
  next
    case (SvConnPoll k)
    with assms(1) conn show ?thesis by (simp add: server_step_def)
  next
    case (SvProbeArrives k i)
    let ?p = "sv_probes sv ! k"
    from SvProbeArrives assms(1) have k: "k < length (sv_probes sv)"
      and s: "w' = w" "sv' = sv\<lparr>sv_probes := (sv_probes sv)[k := ?p\<lparr>pb_inbox := pb_inbox ?p @ i\<rparr>]\<rparr>"
      by (auto simp: server_step_def Let_def split: if_splits)
    from inv k have "probe_ahead (w_mono w) (?p\<lparr>pb_inbox := pb_inbox ?p @ i\<rparr>)" by (simp add: server_ahead_def probe_ahead_def)
    with probe s show ?thesis by simp
  next
    case (SvProbePoll k)
    with assms(1) obtain p where k: "k < length (sv_probes sv)" and p: "probe_poll (w_mono w) (sv_probes sv ! k) = Some p"
      and s: "w' = w" "sv' = sv\<lparr>sv_probes := (sv_probes sv)[k := p]\<rparr>"
      by (auto simp: server_step_def split: if_splits option.splits)
    from inv k have "probe_ahead (w_mono w) (sv_probes sv ! k)" by (simp add: server_ahead_def)
    with probe s probe_poll_ahead [OF p] show ?thesis by simp
  next
    case (SvConfig cfg)
    with assms(3) have "timing_ok 1 (sc_heartbeat_recv_timeout (cfg_server cfg))" "timing_ok 0 (sc_probe_idle_timeout (cfg_server cfg))"
      by (auto simp: config_ok_def server_ok_def)
    then have "from_secs (sc_heartbeat_recv_timeout (cfg_server cfg)) \<le> day" "from_secs (sc_probe_idle_timeout (cfg_server cfg)) \<le> day"
      by (blast intro: timing_le_day)+
    with SvConfig assms(1) inv show ?thesis
      by (auto simp: server_step_def watch_config_def server_ahead_def Let_def split: if_splits)
  next
    case (SvAccept faults)
    with assms(1) inv show ?thesis
      by (auto simp: server_step_def accept_conn_def server_ahead_def conn_ahead_def conn_spawn_def split: if_splits)
  next
    case (SvProbeAccept faults)
    with assms(1) inv show ?thesis
      by (auto simp: server_step_def accept_probe_def server_ahead_def probe_ahead_def probe_spawn_def split: if_splits)
  qed (use assms(1) inv sec in \<open>auto simp: server_step_def accept_error_def accept_probe_error_def server_ahead_def
      split: if_splits\<close>)
qed

lemma server_run_ahead:
  assumes "run_steps (server_step uni) (w, sv) es = Some (w', sv')" and "server_ahead (w, sv)"
    and "\<And>cfg. SvConfig cfg \<in> set es \<Longrightarrow> config_ok cfg"
  shows "w_mono w \<le> w_mono w' \<and> server_ahead (w', sv')"
  using assms
proof (induction es arbitrary: w sv)
  case (Cons e es)
  then obtain w1 sv1 where s: "server_step uni (w, sv) e = Some (w1, sv1)" "run_steps (server_step uni) (w1, sv1) es = Some (w', sv')"
    by (auto split: option.splits)
  from server_step_ahead [OF s(1) Cons.prems(2)] Cons.prems(3) have one: "w_mono w \<le> w_mono w1 \<and> server_ahead (w1, sv1)" by auto
  with Cons.IH [OF s(2)] Cons.prems(3) show ?case by auto
qed simp

section \<open>The whole process\<close>

definition system_ahead :: "system \<Rightarrow> bool" where
  "system_ahead s \<longleftrightarrow>
     config_inv (sy_process s) \<and> manager_ahead (sy_world s, sy_manager s) \<and> server_ahead (sy_world s, sy_server s)"

lemma broadcast_ok: "broadcast from_toml p e = Some cfg \<Longrightarrow> config_ok cfg"
  by (auto simp: broadcast_def load_ok split: process_event.splits sum.splits if_splits)

interpretation system_timers: stepper "system_step uni from_toml" system_ahead for uni from_toml
proof
  fix s e s'
  assume step: "system_step uni from_toml s e = Some s'" and inv: "system_ahead s"
  from system_step_parts [OF step] obtain ps ms ss where parts: "parts_run uni from_toml s ps ms ss s'"
    and news: "\<forall>cfg. MgConfig cfg \<in> set ms \<longrightarrow> (\<exists>pe. e = SyProcess pe \<and> broadcast from_toml (sy_process s) pe = Some cfg)"
      "\<forall>cfg. SvConfig cfg \<in> set ss \<longrightarrow> cfg = ap_config (sy_process s)" by (elim exE conjE)
  from parts obtain w where p: "run_steps (process_step from_toml) (sy_process s) ps = Some (sy_process s')"
    and m: "run_steps manager_step (sy_world s, sy_manager s) ms = Some (w, sy_manager s')"
    and sv: "run_steps (server_step uni) (w, sy_server s) ss = Some (sy_world s', sy_server s')" by (auto simp: parts_run_def)
  from inv have i: "config_inv (sy_process s)" "manager_ahead (sy_world s, sy_manager s)" "server_ahead (sy_world s, sy_server s)"
    by (simp_all add: system_ahead_def)
  have ok: "config_ok cfg" if "MgConfig cfg \<in> set ms" for cfg using that news(1) broadcast_ok by metis
  from manager_run_ahead [OF m i(2) ok]
  have m': "w_mono (sy_world s) \<le> w_mono w" "manager_ahead (w, sy_manager s')" by simp_all
  have ok': "config_ok cfg" if "SvConfig cfg \<in> set ss" for cfg using that news(2) i(1) by (simp add: config_inv_def)
  from server_run_ahead [OF sv server_ahead_later [OF i(3) m'(1)] ok']
  have sv': "w_mono w \<le> w_mono (sy_world s')" "server_ahead (sy_world s', sy_server s')" by simp_all
  from process_config.inv_run [OF p i(1)] manager_ahead_later [OF m'(2) sv'(1)] sv'(2)
  show "system_ahead s'" by (simp add: system_ahead_def)
qed

lemma boot_ahead:
  assumes "boot read_file from_toml os_bind time args = Inr s"
  shows "system_ahead s"
  using assms
proof (rule boot_start)
  fix path cfg
  assume s: "s = system_start time path cfg" and ok: "config_ok cfg"
  then have "timing_ok 1 (sc_heartbeat_recv_timeout (cfg_server cfg))" "timing_ok 0 (sc_probe_idle_timeout (cfg_server cfg))"
    by (auto simp: config_ok_def server_ok_def)
  then have "server_ahead (w, server_start (cfg_server cfg) node)" for w node
    by (simp add: server_ahead_def server_start_def timing_le_day)
  moreover have "manager_ahead (w, manager_start cfg)" for w
    using ok by (auto simp: manager_ahead_def manager_start_def all_tasks_def config_ok_def)
  ultimately show ?thesis using ok
    by (simp add: system_ahead_def s system_start_def) (simp add: config_inv_def process_start_def)
qed

section \<open>Properties\<close>

text \<open>
  C34. No timer is set further than one day ahead, on either side: at every moment, in any run of the
  process, the next send, the end of an echo wait and of a reconnect delay of every session task,
  the handshake and receive deadlines of every inbound connection, the idle deadline of every
  probe and the pauses of both accept loops are at most 86,400 seconds after the current time.
  \<open>validate\<close> sees to that for the first configuration and for every reload, so the arithmetic on
  instants stays far from overflow.
\<close>

theorem timers_bounded:
  assumes "boot read_file from_toml os_bind time args = Inr s0" and "run_steps (system_step uni from_toml) s0 es = Some s"
    and "limit = w_mono (sy_world s) + 86400 * nanos_per_sec"
  shows "(\<forall>p \<in> set (all_tasks (sy_manager s)). tk_next_send (pt_task p) \<le> limit
      \<and> (\<forall>until. tk_pc (pt_task p) = KBackoff until \<longrightarrow> until \<le> limit)
      \<and> (\<forall>q ts d got. tk_pc (pt_task p) = KEcho q ts d got \<longrightarrow> d \<le> limit))
    \<and> (\<forall>c \<in> set (sv_conns (sy_server s)). cn_deadline c \<le> limit)
    \<and> (\<forall>p \<in> set (sv_probes (sy_server s)). pb_deadline p \<le> limit)
    \<and> sv_accept_at (sy_server s) \<le> limit \<and> sv_probe_at (sy_server s) \<le> limit"
proof -
  from system_timers.inv_run [OF assms(2) boot_ahead [OF assms(1)]] have inv: "system_ahead s" .
  then have "\<forall>p \<in> set (all_tasks (sy_manager s)). task_ahead (w_mono (sy_world s)) (pt_task p)"
    by (simp add: system_ahead_def manager_ahead_def)
  moreover from inv have "server_ahead (sy_world s, sy_server s)" by (simp add: system_ahead_def)
  moreover have "limit = w_mono (sy_world s) + day" by (simp add: assms(3) day_def)
  ultimately show ?thesis using task_aheadD
    by (auto simp: server_ahead_def conn_ahead_def probe_ahead_def)
qed

theorem timers_bounded_witness:
  "\<exists>s0 s. boot (\<lambda>_. Inr []) (\<lambda>_. Inr example_raw) (\<lambda>_. None) 0 [] = Inr s0
     \<and> run_steps (system_step (\<lambda>_. False) (\<lambda>_. Inr example_raw)) s0
         [SyServer (SvAccept []), SyServer (SvConnPoll 0)] = Some s
     \<and> (\<forall>c \<in> set (sv_conns (sy_server s)). 0 < cn_deadline c \<and> cn_deadline c \<le> 86400 * nanos_per_sec)"
proof -
  have "\<exists>s. run_steps (system_step (\<lambda>_. False) (\<lambda>_. Inr example_raw)) (system_start 0 DEFAULT_CONFIG_PATH example_config)
      [SyServer (SvAccept []), SyServer (SvConnPoll 0)] = Some s
    \<and> w_mono (sy_world s) = 0 \<and> (\<forall>c \<in> set (sv_conns (sy_server s)). 0 < cn_deadline c)"
    by (simp add: system_run_simps server_run_simps conn_run_simps from_secs_def HANDSHAKE_TIMEOUT_SECS_def nanos_per_sec_def)
  then obtain s where r: "run_steps (system_step (\<lambda>_. False) (\<lambda>_. Inr example_raw)) (system_start 0 DEFAULT_CONFIG_PATH example_config)
      [SyServer (SvAccept []), SyServer (SvConnPoll 0)] = Some s"
    "w_mono (sy_world s) = 0" "\<forall>c \<in> set (sv_conns (sy_server s)). 0 < cn_deadline c" by blast
  from timers_bounded [OF example_boot r(1) refl] r example_boot show ?thesis by auto
qed

end
