(* ===== verification/Conformance.thy ===== *)
theory Conformance
  imports System
begin

text \<open>
  The program's own unit tests, run on the model: each test function of the \<open>tests\<close> modules of
  \<open>protocol.rs\<close>, \<open>config.rs\<close>, \<open>metrics.rs\<close>, \<open>client.rs\<close> and \<open>main.rs\<close> is a definition of the same name
  that says what the test asserts, and a lemma shows that it holds. They check the definitions, which
  were written from the code and not from its tests.

  A \<open>duplex\<close> stream is the bytes written to a fresh stream, delivered to the reader in one or more
  segments, and \<open>drop\<close> of the writing end is \<open>Eof\<close>. A TOML text is the table that it denotes, since the
  TOML reader is a parameter. An assertion on a part of an error message is an equation on the error
  value that carries it. The classification of characters above ASCII is the parameter \<open>uni\<close>. Left
  out are the two tests of the TOML reader's own errors and the test of the rendered metric names.
\<close>

section \<open>Streams as in the tests\<close>

definition delivered :: "wstream \<Rightarrow> inbox" where
  "delivered w = [Arrive (sent w)]"

fun ready_ok :: "'a io_result poll \<Rightarrow> 'a option" where
  "ready_ok (Ready (Inr v)) = Some v"
| "ready_ok _ = None"

fun ready_err :: "'a io_result poll \<Rightarrow> io_kind option" where
  "ready_err (Ready (Inl e)) = Some e"
| "ready_err _ = None"

section \<open>\<open>src/protocol.rs\<close>\<close>

text \<open>The timestamps of the tests: 1.0, 2.0 and 2.5.\<close>

definition f1_0 :: f64 where "f1_0 = from_bits 0x3FF0000000000000"
definition f2_0 :: f64 where "f2_0 = from_bits 0x4000000000000000"
definition f2_5 :: f64 where "f2_5 = from_bits 0x4004000000000000"

definition writes_seq_then_timestamp_big_endian :: bool where
  "writes_seq_then_timestamp_big_endian \<longleftrightarrow>
     encode_packet 0x0102030405060708 (from_bits 0x3FF8000000000000)
       = [1, 2, 3, 4, 5, 6, 7, 8, 0x3f, 0xf8, 0, 0, 0, 0, 0, 0]"

definition round_trips_through_a_stream :: "sys_time \<Rightarrow> bool" where
  "round_trips_through_a_stream now \<longleftrightarrow>
     (case send_heartbeat 42 now fresh_wstream of
        (Inl _, _) \<Rightarrow> False
      | (Inr sent_ts, tx) \<Rightarrow>
          ready_ok (fst (recv_heartbeat (delivered tx))) = Some \<lparr>hb_seq = 42, hb_timestamp = sent_ts\<rparr>)"

definition recv_returns_unexpected_eof_on_truncated_packet :: bool where
  "recv_returns_unexpected_eof_on_truncated_packet \<longleftrightarrow>
     ready_err (fst (recv_heartbeat [Arrive (take 10 (encode_packet 1 f2_0)), Eof])) = Some UnexpectedEof"

definition resumes_a_packet_split_across_a_cancelled_read :: bool where
  "resumes_a_packet_split_across_a_cancelled_read \<longleftrightarrow>
     (let packet = encode_packet 9 f2_5
      in case recv reader_new [Arrive (take 10 packet)] of
           (Pending, reader, rx) \<Rightarrow>
             (case recv reader (rx @ [Arrive (drop 10 packet)]) of
                (resumed, _, _) \<Rightarrow> ready_ok resumed = Some \<lparr>hb_seq = 9, hb_timestamp = f2_5\<rparr>)
         | _ \<Rightarrow> False)"

definition reads_back_to_back_packets_in_order :: bool where
  "reads_back_to_back_packets_in_order \<longleftrightarrow>
     (case recv reader_new [Arrive (encode_packet 1 f1_0 @ encode_packet 2 f2_0)] of
        (first, reader, rx) \<Rightarrow>
          (case recv reader rx of
             (second, _, _) \<Rightarrow>
               (map_option hb_seq (ready_ok first), map_option hb_seq (ready_ok second)) = (Some 1, Some 2)))"

definition returns_unexpected_eof_when_stream_closes_between_packets :: bool where
  "returns_unexpected_eof_when_stream_closes_between_packets \<longleftrightarrow>
     ready_err (fst (recv reader_new [Eof])) = Some UnexpectedEof"

definition round_trip :: "(rchar \<Rightarrow> bool) \<Rightarrow> rstr \<Rightarrow> rstr option" where
  "round_trip uni name =
     (case send_handshake name fresh_wstream of
        (Inl _, _) \<Rightarrow> None
      | (Inr _, tx) \<Rightarrow> ready_ok (fst (recv_handshake uni False (delivered tx))))"

definition recv_raw :: "(rchar \<Rightarrow> bool) \<Rightarrow> u8 list \<Rightarrow> rstr io_result poll" where
  "recv_raw uni bytes = fst (recv_handshake uni False [Arrive bytes, Eof])"

definition round_trips_a_plain_name :: "(rchar \<Rightarrow> bool) \<Rightarrow> bool" where
  "round_trips_a_plain_name uni \<longleftrightarrow> round_trip uni (lit ''node-1.dc_a'') = Some (lit ''node-1.dc_a'')"

definition send_truncates_names_longer_than_256_bytes :: bool where
  "send_truncates_names_longer_than_256_bytes \<longleftrightarrow>
     (case send_handshake (replicate 300 97) fresh_wstream of
        (Inl _, _) \<Rightarrow> False
      | (Inr _, tx) \<Rightarrow> ready_ok (fst (read_u32 (delivered tx))) = Some 256)"

definition recv_strips_characters_unsafe_for_labels :: "(rchar \<Rightarrow> bool) \<Rightarrow> bool" where
  "recv_strips_characters_unsafe_for_labels uni \<longleftrightarrow>
     round_trip uni (lit ''bad'' @ [34] @ lit ''name{x}'' @ [10]) = Some (lit ''badnamex'')"

definition recv_truncates_sanitised_name_to_64_chars :: "(rchar \<Rightarrow> bool) \<Rightarrow> bool" where
  "recv_truncates_sanitised_name_to_64_chars uni \<longleftrightarrow>
     map_option length (round_trip uni (replicate 200 98)) = Some 64"

definition recv_maps_invalid_utf8_to_unknown :: "(rchar \<Rightarrow> bool) \<Rightarrow> bool" where
  "recv_maps_invalid_utf8_to_unknown uni \<longleftrightarrow>
     ready_ok (recv_raw uni (to_be_bytes 4 (2 :: u32) @ [0xff, 0xfe])) = Some (lit ''unknown'')"

definition recv_rejects_zero_length :: "(rchar \<Rightarrow> bool) \<Rightarrow> bool" where
  "recv_rejects_zero_length uni \<longleftrightarrow> ready_err (recv_raw uni (to_be_bytes 4 (0 :: u32))) = Some InvalidData"

definition recv_rejects_length_above_256 :: "(rchar \<Rightarrow> bool) \<Rightarrow> bool" where
  "recv_rejects_length_above_256 uni \<longleftrightarrow> ready_err (recv_raw uni (to_be_bytes 4 (257 :: u32))) = Some InvalidData"

definition recv_times_out_when_client_sends_nothing :: "(rchar \<Rightarrow> bool) \<Rightarrow> bool" where
  "recv_times_out_when_client_sends_nothing uni \<longleftrightarrow> ready_err (fst (recv_handshake uni True [])) = Some TimedOut"

definition returns_unknown_when_nothing_survives :: "(rchar \<Rightarrow> bool) \<Rightarrow> bool" where
  "returns_unknown_when_nothing_survives uni \<longleftrightarrow> sanitize_peer_name uni (lit ''!!! ###'') = lit ''unknown''"

definition keeps_unicode_alphanumerics :: "(rchar \<Rightarrow> bool) \<Rightarrow> bool" where
  "keeps_unicode_alphanumerics uni \<longleftrightarrow>
     sanitize_peer_name uni (lit ''node-'' @ [0xE6, 0xF8, 0xE5]) = lit ''node-'' @ [0xE6, 0xF8, 0xE5]"

text \<open>What a plain ASCII name becomes on the way through both ends.\<close>

lemma round_trip_ascii:
  assumes "list_all (\<lambda>c. c < 128) name" and "name \<noteq> []"
  shows "round_trip uni name = Some (sanitize_peer_name uni (take MAX_HANDSHAKE_NAME_LEN name))"
proof -
  from send_handshake_fresh have w: "send_handshake name fresh_wstream = (Inr (), \<lparr>sent = wire_handshake name, wfaults = []\<rparr>)" .
  from handshake_read_back [OF ascii_valid [OF assms(1)] assms(2) disjI2 [OF assms(1)] w,
      of "delivered \<lparr>sent = wire_handshake name, wfaults = []\<rparr>" "[]" uni False]
  obtain i where "recv_handshake uni False (delivered \<lparr>sent = wire_handshake name, wfaults = []\<rparr>)
      = (Ready (Inr (sanitize_peer_name uni (take MAX_HANDSHAKE_NAME_LEN name))), i)"
    by (auto simp: delivered_def)
  with w show ?thesis by (simp add: round_trip_def)
qed

lemma codec_tests:
  "writes_seq_then_timestamp_big_endian" "recv_returns_unexpected_eof_on_truncated_packet"
  "resumes_a_packet_split_across_a_cancelled_read" "reads_back_to_back_packets_in_order"
  "returns_unexpected_eof_when_stream_closes_between_packets"
  by code_simp+

lemma handshake_error_tests:
  "recv_maps_invalid_utf8_to_unknown uni" "recv_rejects_zero_length uni" "recv_rejects_length_above_256 uni"
  "recv_times_out_when_client_sends_nothing uni" "returns_unknown_when_nothing_survives uni"
  by code_simp+

lemma stream_test: "round_trips_through_a_stream now"
proof -
  let ?sent = "encode_packet 42 (now_f64 now)"
  have "send_heartbeat 42 now fresh_wstream = (Inr (now_f64 now), \<lparr>sent = ?sent, wfaults = []\<rparr>)"
    by (simp add: send_heartbeat_def write_all_def fresh_wstream_def Let_def)
  then show ?thesis by (simp add: round_trips_through_a_stream_def delivered_def recv_heartbeat_packet)
qed

lemma handshake_name_tests:
  "round_trips_a_plain_name uni" "recv_strips_characters_unsafe_for_labels uni"
  "recv_truncates_sanitised_name_to_64_chars uni"
proof -
  have "sanitize_peer_name uni (take MAX_HANDSHAKE_NAME_LEN (lit ''node-1.dc_a'')) = lit ''node-1.dc_a''" by code_simp
  moreover have "list_all (\<lambda>c. c < 128) (lit ''node-1.dc_a'')" "lit ''node-1.dc_a'' \<noteq> []" by code_simp+
  ultimately show "round_trips_a_plain_name uni" by (simp add: round_trips_a_plain_name_def round_trip_ascii)
  have "sanitize_peer_name uni (take MAX_HANDSHAKE_NAME_LEN (lit ''bad'' @ [34] @ lit ''name{x}'' @ [10])) = lit ''badnamex''" by code_simp
  moreover have "list_all (\<lambda>c. c < 128) (lit ''bad'' @ [34] @ lit ''name{x}'' @ [10])" by code_simp
  ultimately show "recv_strips_characters_unsafe_for_labels uni"
    by (simp add: recv_strips_characters_unsafe_for_labels_def round_trip_ascii)
  have "name_char_ok uni 98" by code_simp
  then have "sanitize_peer_name uni (replicate 200 98) = replicate 64 98"
    by (simp add: sanitize_peer_name_def MAX_PEER_NAME_CHARS_def Let_def)
  then show "recv_truncates_sanitised_name_to_64_chars uni"
    by (simp add: recv_truncates_sanitised_name_to_64_chars_def round_trip_ascii MAX_HANDSHAKE_NAME_LEN_def list_all_iff)
qed

lemma truncation_test: "send_truncates_names_longer_than_256_bytes"
proof -
  let ?w = "\<lparr>sent = wire_handshake (replicate 300 97), wfaults = []\<rparr>"
  have "length (wire_name (replicate 300 97)) = 256"
    by (simp add: wire_name_def as_bytes_ascii list_all_iff MAX_HANDSHAKE_NAME_LEN_def)
  then have "take 4 (wire_handshake (replicate 300 97)) = to_be_bytes 4 (256 :: u32)" "4 \<le> length (wire_handshake (replicate 300 97))"
    by (simp_all add: wire_handshake_def)
  with read_u32_arrivals [of "delivered ?w"] have "ready_ok (fst (read_u32 (delivered ?w))) = Some 256"
    by (auto simp: delivered_def)
  then show ?thesis by (simp add: send_truncates_names_longer_than_256_bytes_def send_handshake_fresh)
qed

lemma unicode_test:
  assumes "uni 0xE6" and "uni 0xF8" and "uni 0xE5"
  shows "keeps_unicode_alphanumerics uni"
proof -
  have "filter (name_char_ok uni) [0xE6, 0xF8, 0xE5] = [0xE6, 0xF8, 0xE5]"
    using assms by (simp add: name_char_ok_def is_alphanumeric_def)
  moreover have "filter (name_char_ok uni) (lit ''node-'') = lit ''node-''" by code_simp
  moreover have "length (lit ''node-'') = 5" by code_simp
  ultimately show ?thesis
    by (simp add: keeps_unicode_alphanumerics_def sanitize_peer_name_def MAX_PEER_NAME_CHARS_def Let_def)
qed

section \<open>\<open>src/config.rs\<close>\<close>

text \<open>The table of the constant \<open>SERVER_ONLY\<close>, and what \<open>parse\<close> makes of a table.\<close>

definition SERVER_ONLY :: raw_config where
  "SERVER_ONLY =
     \<lparr>raw_node = \<lparr>nc_name = lit ''n1''\<rparr>,
      raw_server = \<lparr>sc_bind = lit ''0.0.0.0'', sc_heartbeat_port = 9700, sc_metrics_port = 9702, sc_probe_port = 9701,
        sc_heartbeat_recv_timeout = 90, sc_probe_idle_timeout = 30\<rparr>,
      raw_clientsec = None, raw_peers = None\<rparr>"

definition parse_table :: "raw_config \<Rightarrow> config_error + config" where
  "parse_table raw = parse (\<lambda>_. Inr raw) []"

definition empty_client :: raw_client where
  "empty_client = \<lparr>rc_heartbeat_interval = None, rc_max_misses = None, rc_reconnect_delay = None\<rparr>"

definition server_with :: "(server_config \<Rightarrow> server_config) \<Rightarrow> raw_config" where
  "server_with f = SERVER_ONLY\<lparr>raw_server := f (raw_server SERVER_ONLY)\<rparr>"

definition client_with :: "(raw_client \<Rightarrow> raw_client) \<Rightarrow> raw_config" where
  "client_with f = SERVER_ONLY\<lparr>raw_clientsec := Some (f empty_client)\<rparr>"

definition table_peer :: "string \<Rightarrow> string \<Rightarrow> raw_peer" where
  "table_peer name host = \<lparr>rp_name = lit name, rp_host = lit host, rp_heartbeat_port = None\<rparr>"

definition peers_with :: "raw_peer list \<Rightarrow> raw_config" where
  "peers_with ps = SERVER_ONLY\<lparr>raw_peers := Some ps\<rparr>"

definition shipped_example :: raw_config where
  "shipped_example = SERVER_ONLY
     \<lparr>raw_node := \<lparr>nc_name = lit ''server1''\<rparr>,
      raw_clientsec := Some \<lparr>rc_heartbeat_interval = Some 30, rc_max_misses = Some 3, rc_reconnect_delay = Some 10\<rparr>,
      raw_peers := Some
        [(table_peer ''server2'' ''192.168.1.2'')\<lparr>rp_heartbeat_port := Some 9700\<rparr>,
         (table_peer ''server3'' ''192.168.1.3'')\<lparr>rp_heartbeat_port := Some 9700\<rparr>]\<rparr>"

definition accepts_the_shipped_example_config :: bool where
  "accepts_the_shipped_example_config \<longleftrightarrow>
     (case parse_table shipped_example of Inl _ \<Rightarrow> False | Inr cfg \<Rightarrow> length (cfg_peers cfg) = 2)"

definition accepts_server_only_config_without_client_or_peers :: bool where
  "accepts_server_only_config_without_client_or_peers \<longleftrightarrow>
     (case parse_table SERVER_ONLY of Inl _ \<Rightarrow> False | Inr cfg \<Rightarrow> cfg_client cfg = None \<and> cfg_peers cfg = [])"

definition fills_client_defaults_for_empty_client_section :: bool where
  "fills_client_defaults_for_empty_client_section \<longleftrightarrow>
     (case parse_table (client_with (\<lambda>c. c)) of
        Inl _ \<Rightarrow> False
      | Inr cfg \<Rightarrow>
          cfg_client cfg = Some \<lparr>cc_heartbeat_interval = 30, cc_max_misses = 3, cc_reconnect_delay = 10\<rparr>)"

definition defaults_peer_heartbeat_port_to_9700 :: bool where
  "defaults_peer_heartbeat_port_to_9700 \<longleftrightarrow>
     (case parse_table (peers_with [table_peer ''p'' ''h'']) of
        Inl _ \<Rightarrow> False
      | Inr cfg \<Rightarrow> map pc_heartbeat_port (cfg_peers cfg) = [9700])"

definition rejects_empty_node_name :: bool where
  "rejects_empty_node_name \<longleftrightarrow>
     parse_table (SERVER_ONLY\<lparr>raw_node := \<lparr>nc_name = []\<rparr>\<rparr>) = Inl EmptyNodeName"

definition rejects_two_server_ports_that_collide :: bool where
  "rejects_two_server_ports_that_collide \<longleftrightarrow>
     parse_table (server_with (\<lambda>s. s\<lparr>sc_metrics_port := 9700\<rparr>))
       = Inl (SharedPort ''heartbeat_port'' ''metrics_port'' 9700)"

definition rejects_zero_heartbeat_recv_timeout :: bool where
  "rejects_zero_heartbeat_recv_timeout \<longleftrightarrow>
     parse_table (server_with (\<lambda>s. s\<lparr>sc_heartbeat_recv_timeout := 0\<rparr>))
       = Inl (BelowMin ''server.heartbeat_recv_timeout'' 1)"

definition rejects_heartbeat_interval_above_one_day :: bool where
  "rejects_heartbeat_interval_above_one_day \<longleftrightarrow>
     parse_table (client_with (\<lambda>c. c\<lparr>rc_heartbeat_interval := Some 86401\<rparr>))
       = Inl (AboveMax ''client.heartbeat_interval'') \<and> MAX_SECONDS = 86400"

definition rejects_timeout_large_enough_to_overflow_timers :: bool where
  "rejects_timeout_large_enough_to_overflow_timers \<longleftrightarrow>
     parse_table (server_with (\<lambda>s. s\<lparr>sc_probe_idle_timeout := 9223372036854775807\<rparr>))
       = Inl (AboveMax ''server.probe_idle_timeout'')"

definition accepts_timings_of_exactly_one_day :: bool where
  "accepts_timings_of_exactly_one_day \<longleftrightarrow>
     (case parse_table (client_with (\<lambda>c. c\<lparr>rc_heartbeat_interval := Some 86400, rc_reconnect_delay := Some 86400\<rparr>)) of
        Inl _ \<Rightarrow> False
      | Inr cfg \<Rightarrow> map_option cc_heartbeat_interval (cfg_client cfg) = Some 86400)"

definition rejects_zero_client_heartbeat_interval :: bool where
  "rejects_zero_client_heartbeat_interval \<longleftrightarrow>
     parse_table (client_with (\<lambda>c. c\<lparr>rc_heartbeat_interval := Some 0\<rparr>)) = Inl (BelowMin ''client.heartbeat_interval'' 1)"

definition rejects_zero_client_reconnect_delay :: bool where
  "rejects_zero_client_reconnect_delay \<longleftrightarrow>
     parse_table (client_with (\<lambda>c. c\<lparr>rc_reconnect_delay := Some 0\<rparr>)) = Inl (BelowMin ''client.reconnect_delay'' 1)"

definition rejects_peer_with_empty_name :: bool where
  "rejects_peer_with_empty_name \<longleftrightarrow> parse_table (peers_with [table_peer [] ''h'']) = Inl EmptyPeerName"

definition rejects_peer_with_empty_host :: bool where
  "rejects_peer_with_empty_host \<longleftrightarrow> parse_table (peers_with [table_peer ''p'' []]) = Inl (EmptyPeerHost (lit ''p''))"

definition rejects_duplicate_peer_names :: bool where
  "rejects_duplicate_peer_names \<longleftrightarrow>
     parse_table (peers_with [table_peer ''p'' ''a'', table_peer ''p'' ''b'']) = Inl (DuplicatePeer (lit ''p''))"

definition accepts_bracketed_ipv6_bind :: bool where
  "accepts_bracketed_ipv6_bind \<longleftrightarrow>
     (case parse_table (server_with (\<lambda>s. s\<lparr>sc_bind := lit ''[::]''\<rparr>)) of
        Inl _ \<Rightarrow> False
      | Inr cfg \<Rightarrow> sc_bind (cfg_server cfg) = lit ''[::]'')"

definition rejects_hostname_as_bind :: bool where
  "rejects_hostname_as_bind \<longleftrightarrow>
     parse_table (server_with (\<lambda>s. s\<lparr>sc_bind := lit ''localhost''\<rparr>)) = Inl (BindNotIp (lit ''localhost''))"

definition rejects_unbracketed_ipv6_bind :: bool where
  "rejects_unbracketed_ipv6_bind \<longleftrightarrow>
     parse_table (server_with (\<lambda>s. s\<lparr>sc_bind := lit ''::''\<rparr>)) = Inl (BindNotIp (lit ''::''))"


lemma base_steps:
  "raw_node SERVER_ONLY = \<lparr>nc_name = lit ''n1''\<rparr>" "raw_clientsec SERVER_ONLY = None" "raw_peers SERVER_ONLY = None"
  "raw_server SERVER_ONLY =
     \<lparr>sc_bind = lit ''0.0.0.0'', sc_heartbeat_port = 9700, sc_metrics_port = 9702, sc_probe_port = 9701,
      sc_heartbeat_recv_timeout = 90, sc_probe_idle_timeout = 30\<rparr>"
  by (simp_all add: SERVER_ONLY_def)

lemmas table_defs =
  parse_table_def parse_def fill_config_def fill_client_def fill_peer_def or_default_def validate_def Let_def
  server_with_def client_with_def peers_with_def empty_client_def table_peer_def base_steps bind_any_ipv4
  config_timings_def MAX_SECONDS_def default_heartbeat_interval_def default_max_misses_def
  default_reconnect_delay_def default_peer_heartbeat_port_def

lemma lit_empty: "lit s = [] \<longleftrightarrow> s = []" by (simp add: lit_def)

lemma accepting_tests:
  "accepts_server_only_config_without_client_or_peers" "fills_client_defaults_for_empty_client_section"
  "defaults_peer_heartbeat_port_to_9700" "accepts_timings_of_exactly_one_day"
  by (simp_all add: table_defs lit_empty accepts_server_only_config_without_client_or_peers_def
      fills_client_defaults_for_empty_client_section_def defaults_peer_heartbeat_port_to_9700_def
      accepts_timings_of_exactly_one_day_def)

lemma shipped_test: "accepts_the_shipped_example_config"
proof -
  have "lit ''server2'' \<noteq> lit ''server3''" by code_simp
  then show ?thesis
    by (simp add: table_defs lit_empty accepts_the_shipped_example_config_def shipped_example_def)
qed

lemma rejecting_tests:
  "rejects_empty_node_name" "rejects_two_server_ports_that_collide" "rejects_zero_heartbeat_recv_timeout"
  "rejects_heartbeat_interval_above_one_day" "rejects_timeout_large_enough_to_overflow_timers"
  "rejects_zero_client_heartbeat_interval" "rejects_zero_client_reconnect_delay"
  "rejects_peer_with_empty_name" "rejects_peer_with_empty_host" "rejects_duplicate_peer_names"
  by (simp_all add: table_defs lit_empty rejects_empty_node_name_def rejects_two_server_ports_that_collide_def
      rejects_zero_heartbeat_recv_timeout_def rejects_heartbeat_interval_above_one_day_def
      rejects_timeout_large_enough_to_overflow_timers_def rejects_zero_client_heartbeat_interval_def
      rejects_zero_client_reconnect_delay_def rejects_peer_with_empty_name_def rejects_peer_with_empty_host_def
      rejects_duplicate_peer_names_def)

text \<open>No group starts with a character that is not a hexadecimal digit.\<close>

lemma read_no_group:
  assumes "\<not> is_digit_of 10 c" and "\<not> is_digit_of 16 c"
  shows "read_groups k 0 (c # s) = Some (([], False), c # s)"
proof (cases k)
  case (Suc j)
  with assms show ?thesis
    by (simp add: p_bind_def p_try_def p_return_def read_separator_def read_ipv4_addr_def read_octet_def read_number_def)
qed (simp add: p_return_def)

lemma no_digits: "\<not> is_digit_of 10 0x3A" "\<not> is_digit_of 16 0x3A" "\<not> is_digit_of 10 0x5D" "\<not> is_digit_of 16 0x5D"
  "\<not> is_digit_of 10 0x6C" "\<not> is_digit_of 10 0x5B"
  by (simp_all add: is_digit_of_def to_digit_def Let_def)

lemmas text_defs = show_nat_0 lit_def of_char_def horner_sum_simps

lemma eight_zeros: "replicate 8 x = [x, x, x, x, x, x, x, x]"
  by (simp add: numeral_eq_Suc)

lemma unspecified_ipv6: "read_ipv6_addr (0x3A # 0x3A # 0x5D # s) = Some ([0, 0, 0, 0, 0, 0, 0, 0], 0x5D # s)"
  by (simp add: read_ipv6_addr_def p_bind_def p_return_def read_no_group no_digits read_given_char_def char_defs
      eight_zeros del: read_groups.simps)

lemma bracketed_text: "bind_addr (lit ''[::]'') 0 = Inr \<lparr>sa_ip = V6 [0, 0, 0, 0, 0, 0, 0, 0] 0, sa_port = 0\<rparr>"
proof -
  have "read_sock True [0x5B, 0x3A, 0x3A, 0x5D, 0x3A, 0x30]
      = Some (\<lparr>sa_ip = V6 [0, 0, 0, 0, 0, 0, 0, 0] 0, sa_port = 0\<rparr>, [])"
    by (simp add: read_sock_def read_host_def read_bracketed_def p_bind_def p_return_def p_try_def read_given_char_def
        char_defs unspecified_ipv6 read_scope_id_def read_port_def read_number_def is_digit_of_def to_digit_def
        digits_value_def Let_def)
  moreover have "lit ''[::]'' @ colon # show_nat 0 = [0x5B, 0x3A, 0x3A, 0x5D, 0x3A, 0x30]"
    by (simp add: text_defs char_defs)
  ultimately show ?thesis
    using not_ipv4_bracket [of "[0x3A, 0x3A, 0x5D, 0x3A, 0x30]"]
    by (simp add: bind_addr_def parse_socket_addr_def read_socket_addr_def char_defs)
qed

lemma unreadable:
  assumes "\<not> is_digit_of 10 c" and "c \<noteq> lbracket" and "host = c # s"
  shows "bind_addr host p = Inl (BindNotIp host)"
  using assms
  by (simp add: bind_addr_def parse_socket_addr_def read_socket_addr_def read_sock_def read_host_def p_bind_def
      read_ipv4_addr_def read_octet_def read_separator_def read_number_def read_bracketed_def read_given_char_def)

lemma bind_tests:
  "accepts_bracketed_ipv6_bind" "rejects_hostname_as_bind" "rejects_unbracketed_ipv6_bind"
proof -
  show "accepts_bracketed_ipv6_bind"
    by (simp add: table_defs lit_empty accepts_bracketed_ipv6_bind_def bracketed_text)
  have "bind_addr (lit ''localhost'') 0 = Inl (BindNotIp (lit ''localhost''))"
    by (rule unreadable [OF no_digits(5)]) (simp_all add: char_defs text_defs)
  then show "rejects_hostname_as_bind"
    by (simp add: table_defs lit_empty rejects_hostname_as_bind_def)
  have "bind_addr (lit ''::'') 0 = Inl (BindNotIp (lit ''::''))"
    by (rule unreadable [OF no_digits(1)]) (simp_all add: char_defs text_defs)
  then show "rejects_unbracketed_ipv6_bind"
    by (simp add: table_defs lit_empty rejects_unbracketed_ipv6_bind_def)
qed

section \<open>\<open>src/metrics.rs\<close>\<close>

text \<open>The registry after the names \<open>p0\<close>, \<open>p1\<close>, ... up to the cap, and the answers given on the way.\<close>

definition numbered_peer :: "nat \<Rightarrow> rstr" where
  "numbered_peer i = lit ''p'' @ show_nat i"

definition registering :: "rstr list \<Rightarrow> bool list \<times> rstr set" where
  "registering names =
     foldl (\<lambda>(answers, seen) n. case try_register n seen of (b, seen') \<Rightarrow> (answers @ [b], seen')) ([], {}) names"

definition numbered_peers :: "rstr list" where
  "numbered_peers = map numbered_peer [0..<MAX_UNIQUE_SERVER_PEERS]"

definition accepts_new_peers_up_to_the_cap :: bool where
  "accepts_new_peers_up_to_the_cap \<longleftrightarrow> list_all (\<lambda>b. b) (fst (registering numbered_peers))"

definition rejects_a_new_peer_once_the_cap_is_reached :: bool where
  "rejects_a_new_peer_once_the_cap_is_reached \<longleftrightarrow>
     \<not> fst (try_register (lit ''one-too-many'') (snd (registering numbered_peers)))"

definition still_accepts_a_known_peer_once_the_cap_is_reached :: bool where
  "still_accepts_a_known_peer_once_the_cap_is_reached \<longleftrightarrow>
     fst (try_register (lit ''p0'') (snd (registering numbered_peers)))"

definition expected_reasons :: "(disconnect_family \<times> string) list" where
  "expected_reasons =
     [(server_disconnects, ''remote_close''), (server_disconnects, ''connection_reset''),
      (server_disconnects, ''timeout''), (server_disconnects, ''local_error''),
      (client_disconnects, ''remote_close''), (client_disconnects, ''connection_reset''),
      (client_disconnects, ''timeout''), (client_disconnects, ''local_error''),
      (client_disconnects, ''connect_failed'')]"

definition exposes_every_reason_at_zero_before_any_disconnect :: bool where
  "exposes_every_reason_at_zero_before_any_disconnect \<longleftrightarrow>
     (let metrics = init_disconnect_labels (lit ''me'') (lit ''them'') metrics_new
      in list_all (\<lambda>(side, reason).
           disconnect_count metrics side (reason_label (lit ''me'') (lit ''them'') reason) = Some 0) expected_reasons)"

lemma numbered_inj: "numbered_peer i = numbered_peer j \<longleftrightarrow> i = j"
  using digits_value_show_nat by (metis numbered_peer_def same_append_eq)

text \<open>Distinct new names are all accepted as long as the cap allows.\<close>

lemma registering_distinct:
  assumes "distinct ns" and "length ns \<le> MAX_UNIQUE_SERVER_PEERS"
  shows "registering ns = (replicate (length ns) True, set ns)"
  using assms
proof (induction ns rule: rev_induct)
  case Nil
  show ?case by (simp add: registering_def)
next
  case (snoc n ns)
  then have "registering ns = (replicate (length ns) True, set ns)" by simp
  moreover have "try_register n (set ns) = (True, insert n (set ns))"
    using snoc.prems by (simp add: try_register_def distinct_card)
  ultimately show ?case by (simp add: registering_def replicate_append_same)
qed

lemma numbered_registered: "registering numbered_peers = (replicate 512 True, set numbered_peers)"
  using registering_distinct [of numbered_peers]
  by (simp add: numbered_peers_def MAX_UNIQUE_SERVER_PEERS_def distinct_map inj_on_def numbered_inj)

lemma registry_tests:
  "accepts_new_peers_up_to_the_cap" "rejects_a_new_peer_once_the_cap_is_reached"
  "still_accepts_a_known_peer_once_the_cap_is_reached"
proof -
  show "accepts_new_peers_up_to_the_cap"
    by (simp add: accepts_new_peers_up_to_the_cap_def numbered_registered list_all_iff)
  have "card (set numbered_peers) = 512"
    by (simp add: numbered_peers_def MAX_UNIQUE_SERVER_PEERS_def distinct_card [symmetric] distinct_map inj_on_def
        numbered_inj card_image)
  moreover have "lit ''one-too-many'' \<notin> set numbered_peers"
    by (auto simp: numbered_peers_def numbered_peer_def lit_def)
  ultimately show "rejects_a_new_peer_once_the_cap_is_reached"
    by (simp add: rejects_a_new_peer_once_the_cap_is_reached_def numbered_registered try_register_def
        MAX_UNIQUE_SERVER_PEERS_def)
  have "lit ''p0'' = numbered_peer 0" by (simp add: numbered_peer_def show_nat_0 lit_def)
  then have "lit ''p0'' \<in> set numbered_peers"
    by (auto simp: numbered_peers_def MAX_UNIQUE_SERVER_PEERS_def)
  then show "still_accepts_a_known_peer_once_the_cap_is_reached"
    by (simp add: still_accepts_a_known_peer_once_the_cap_is_reached_def numbered_registered try_register_def)
qed

lemma reasons_test: "exposes_every_reason_at_zero_before_any_disconnect"
  by (simp add: exposes_every_reason_at_zero_before_any_disconnect_def Let_def expected_reasons_def
      disconnect_count_eq init_disconnect_labels_def init_calls_def SERVER_DISCONNECT_REASONS_def
      CLIENT_DISCONNECT_REASONS_def disconnect_touches_def reason_label_def)

section \<open>\<open>src/client.rs\<close>\<close>

definition maps_reset_to_connection_reset :: bool where
  "maps_reset_to_connection_reset \<longleftrightarrow> classify_io_error ConnectionReset = ''connection_reset''"

definition maps_eof_and_broken_pipe_to_remote_close :: bool where
  "maps_eof_and_broken_pipe_to_remote_close \<longleftrightarrow>
     list_all (\<lambda>kind. classify_io_error kind = ''remote_close'') [UnexpectedEof, BrokenPipe]"

text \<open>A kind without a name of its own in the model, such as \<open>NetworkUnreachable\<close>.\<close>

definition maps_anything_else_to_local_error :: "nat \<Rightarrow> bool" where
  "maps_anything_else_to_local_error network_unreachable \<longleftrightarrow>
     classify_io_error (OtherKind network_unreachable) = ''local_error''"

lemma classify_tests:
  "maps_reset_to_connection_reset" "maps_eof_and_broken_pipe_to_remote_close" "maps_anything_else_to_local_error k"
  by (simp_all add: maps_reset_to_connection_reset_def maps_eof_and_broken_pipe_to_remote_close_def
      maps_anything_else_to_local_error_def)

section \<open>\<open>src/main.rs\<close>\<close>

definition uses_the_default_config_path_without_arguments :: bool where
  "uses_the_default_config_path_without_arguments \<longleftrightarrow>
     parse_args [] = Inr (Run (lit ''/etc/tcp-monitor/config.toml''))"

definition takes_the_path_after_config :: bool where
  "takes_the_path_after_config \<longleftrightarrow>
     parse_args [lit ''--config'', lit ''/tmp/x.toml''] = Inr (Run (lit ''/tmp/x.toml''))"

definition rejects_config_without_a_path :: bool where
  "rejects_config_without_a_path \<longleftrightarrow> parse_args [lit ''--config''] = Inl PathRequired"

definition recognises_both_help_flags :: bool where
  "recognises_both_help_flags \<longleftrightarrow>
     (parse_args [lit ''-h''], parse_args [lit ''--help'']) = (Inr Help, Inr Help)"

definition rejects_an_unknown_argument :: bool where
  "rejects_an_unknown_argument \<longleftrightarrow> parse_args [lit ''--verbose''] = Inl (UnknownArgument (lit ''--verbose''))"

definition rejects_a_trailing_argument :: bool where
  "rejects_a_trailing_argument \<longleftrightarrow>
     parse_args [lit ''--config'', lit ''a.toml'', lit ''b.toml''] = Inl (UnexpectedArgument (lit ''b.toml''))"

lemma argument_tests:
  "uses_the_default_config_path_without_arguments" "takes_the_path_after_config" "rejects_config_without_a_path"
  "recognises_both_help_flags" "rejects_an_unknown_argument" "rejects_a_trailing_argument"
  by code_simp+

end
