(* ===== verification/Spec2Isabelle.thy ===== *)
theory Spec2Isabelle
  imports Ending Timers Conformance "HOL-Library.Sublist"
begin

text \<open>
  A verification of \<^emph>\<open>tcp-monitor\<close>, the daemon that keeps TCP sessions open between nodes and
  measures how long they live. Every node runs the same program: a server that accepts peers
  and echoes their heartbeats, a client manager that keeps one session open to each configured
  peer, a probe port that answers with a banner, and an endpoint that exposes metrics.

  \<^bold>\<open>How the program is modelled.\<close> Pure code is a HOL function with the name it has in the source.
  A task of the asynchronous program is a step function \<open>state \<Rightarrow> event \<Rightarrow> state option\<close> that runs
  from one \<open>await\<close> to the next; an event is a poll of the task or something its environment does
  (bytes arrive, time passes, a connect succeeds, a signal comes in), and \<open>None\<close> says that the
  task is not waiting for that event or that the awaited future is still pending. A property of
  a task is stated for all runs, that is for \<open>run_steps\<close> over an arbitrary list of events, so for
  every interleaving, every segmentation of the byte streams and every failure. Errors are
  values, the left side of a sum. Integers have the width they have in the source, and an
  \<open>f64\<close> is its 64 bits. What the tasks share is the record \<open>world\<close>: the monotonic clock, the wall
  clock and the metrics, the latter as the list of calls made on them.

  \<^bold>\<open>The theories, and the code each one models.\<close>
  \<^item> \<open>Prelude\<close>: integer types, big-endian bytes, \<open>run_steps\<close>, ghost histories, and the locale
    \<open>stepper\<close>, the contract of a step function with an invariant. Every machine below
    interprets it, and its properties over runs come from there.
  \<^item> \<open>Float64\<close> (\<open>src/lib.rs\<close>, \<open>now_f64\<close>): the part of IEEE 754 binary64 the program computes
    with. The clock never goes back when the system time does not, and durations are finite.
  \<^item> \<open>Utf8\<close>, \<open>Streams\<close>: strings with their encoding, and the read and write ends of a connection.
    A read returns some of the bytes that are there, a write may fail after any part.
  \<^item> \<open>Protocol\<close>, \<open>Reader\<close> (\<open>src/protocol.rs\<close>): the packet format as an instance of the locale
    \<open>packet_codec\<close>, the handshake, \<open>sanitize_peer_name\<close>, and \<open>HeartbeatReader\<close>, whose abstraction
    \<open>held\<close> gives the law that no call loses or invents a byte.
  \<^item> \<open>Addr\<close>, \<open>Config\<close> (\<open>src/config.rs\<close>): the grammar of socket addresses, the records with
    their defaults, and \<open>validate\<close>, which decides the abstract rules \<open>config_ok\<close>.
  \<^item> \<open>Metrics\<close> (\<open>src/metrics.rs\<close>): families, labels, what a list of calls adds up to (the locale
    \<open>call_reading\<close>, interpreted for each kind of metric) and the cap on peer names (the locale
    \<open>capped_registry\<close>, interpreted on \<open>try_register\<close>).
  \<^item> \<open>World\<close>: the shared state.
  \<^item> \<open>Connection\<close> (\<open>handle_connection\<close> and \<open>drive_session\<close> of \<open>src/server.rs\<close>): one inbound
    connection. Its invariant ties the metric calls and the echoed bytes to what arrived, and
    every packet that has arrived is echoed if the peer can be written to (C24).
  \<^item> \<open>Server\<close> (the rest of \<open>src/server.rs\<close>): listeners, accept loops with their semaphores,
    probes, the config watcher and \<open>run\<close>. The inductive relation \<open>conn_effect\<close> says what one step
    of a connection can do to the shared state; the caps, the gauges and the supervision follow
    from it by one invariant each.
  \<^item> \<open>Client\<close> (\<open>run_peer_loop\<close> and \<open>run_session\<close> of \<open>src/client.rs\<close>): one outbound task. An abstract
    history of beats and episodes specifies what a task may do, and the invariant \<open>task_inv\<close> shows
    that the code refines it; \<open>sched_inv\<close> does the same for its timers. Late echoes are drained
    before the one awaited is measured (C35).
  \<^item> \<open>Manager\<close> (\<open>run_manager\<close> of \<open>src/client.rs\<close>): the tasks as a map from peer names, through
    reloads that may arrive at any time, and the shutdown, which always can be completed.
  \<^item> \<open>App\<close> (\<open>src/main.rs\<close>): command line, start-up, SIGHUP, supervision, the reported errors, exit
    code, and the metrics handler.
  \<^item> \<open>Gauges\<close>, \<open>Labels\<close>: what a step of either side does to the gauges and to the set of peer names
    in the labels. The inductive relation \<open>task_effect\<close> is the counterpart of \<open>conn_effect\<close> for a
    session task. Each side keeps its own facts in any run and leaves those of the other alone.
  \<^item> \<open>System\<close> (what \<open>main\<close> spawns, until it returns): the machines of \<open>App\<close>, \<open>Manager\<close> and \<open>Server\<close>
    over one world, one config channel and one token. \<open>boot\<close> is \<open>main\<close> up to its select. A system
    step is a step of one machine together with what the others learn from it: a SIGHUP puts
    its configuration into the channel, the start of the shutdown cancels the token and drops
    the sender, a task that returns ends its handle. \<open>system_step_parts\<close> projects every step on
    the three machines, so their invariants hold of the system; \<open>link_inv\<close> says how their states
    hang together. From these follow the gauges of the whole process (C5), the bound on all
    labels (C12), that a reload reaches the tasks and the server (C13), what alone can make the process
    stop (C14), and that a shutdown can always be completed.
  \<^item> \<open>Work\<close>, \<open>Ending\<close>: a number for the work left in each part and in the whole process. Every step the
    process takes by itself lowers it and no tick raises it (the locale \<open>paying\<close> of \<open>Prelude\<close>), so
    nothing spins, and with the progress shown in \<open>System\<close> every schedule of a shutdown ends (C19).
    For a single task \<open>Work\<close> says how it stops once it is cancelled (C40).
  \<^item> \<open>Timers\<close>: how far ahead of the clock the timers of both sides are ever set (C34), an invariant of
    each machine that holds as long as its configurations are valid, and so of the whole process.
  \<^item> \<open>Conformance\<close>: the unit tests of the repository as definitions over the model, shown to hold.
  \<^item> This theory joins a client task and a server connection by the bytes of one TCP connection.

  \<^bold>\<open>Parameters.\<close> Code outside the repository is an argument of the definitions that use it:
  \<open>uni\<close>, the classification of the characters above ASCII as alphanumeric; \<open>from_toml\<close>, the TOML
  reader with the schema of the records; \<open>read_file\<close>; \<open>os_bind\<close>, the operating system's answer to
  \<open>bind\<close>; \<open>text_encode\<close>, the text encoder of the metrics crate. No property assumes anything
  about them. The one assumption on the network is \<open>tcp_between\<close>, in C1.

  \<^bold>\<open>Bounds.\<close> No definition uses fuel. The loops that read (\<open>recv\<close>, \<open>read_exact\<close>, \<open>probe_drain\<close>) stop at
  an empty inbox, which is the measure of their termination proofs; the endless loops of the
  tasks are the step functions. Instants are natural numbers of nanoseconds: C34 bounds how far
  ahead of the clock a timer is ever set. Sequence numbers and miss counters wrap at their width;
  the invariant keeps the miss counter below \<open>max_misses\<close>, which is 32 bits wide. How long
  a shutdown can take, in steps, is \<open>system_work\<close> of the state it begins in.

  \<^bold>\<open>Not modelled.\<close> Log output, the HTTP server around the metrics handler, the asynchronous runtime
  and signal delivery themselves, and the rendering of the metrics text: all of these are library
  code, which the model meets as events and parameters. A write that has
  to wait is a poll that comes later; the part of a packet that a write cut off by the token may
  have sent is not represented, since the session ends there. Panics occur in \<open>App\<close>, as the way
  a supervised task ended; in \<open>System\<close>, where the server and the manager are their machines, these
  two never panic. The one addition that could overflow in a debug build, of the sequence
  number, wraps here as it does in a release build, and the manager's report of a panicked
  session task is left out. The integration tests, which run over real sockets, and the packaging
  are not translated.
\<close>

section \<open>A client and a server\<close>

text \<open>
  The two machines meet only in the bytes of one TCP connection. TCP promises each side a
  prefix of what the other side wrote; everything else, when bytes arrive and how they are cut
  into segments, how the clocks run and in what order the tasks are polled, is arbitrary.
\<close>

definition tcp_between :: "task_event list \<Rightarrow> task \<Rightarrow> conn_event list \<Rightarrow> conn \<Rightarrow> bool" where
  "tcp_between client_events t server_events c \<longleftrightarrow>
     prefix (concat (map conn_bytes server_events)) (sent (tk_out t))
     \<and> prefix (foldl task_arrived [] client_events) (sent (cn_out c))"

text \<open>The label a server gives to a client with this node name.\<close>

definition peer_name_of :: "(rchar \<Rightarrow> bool) \<Rightarrow> rstr \<Rightarrow> rstr" where
  "peer_name_of uni node =
     sanitize_peer_name uni (case from_utf8 (wire_name node) of None \<Rightarrow> [] | Some s \<Rightarrow> s)"

lemma echoed_packets:
  assumes "concat (map encode_heartbeat got) @ r = out" and "hs @ out @ rest = bytes"
    and "prefix bytes (wire_handshake node @ concat (map encode_heartbeat hbs))" and "accepted_handshake uni hs name"
  shows "got = take (length got) hbs \<and> name = peer_name_of uni node"
proof -
  from assms(3) obtain more where "hs @ (out @ rest @ more) = wire_handshake node @ concat (map encode_heartbeat hbs)"
    using assms(2) by (auto simp: prefix_def)
  from accepted_wire [OF assms(4) this]
  have "out @ rest @ more = concat (map encode_heartbeat hbs)" and name: "name = peer_name_of uni node"
    by (simp_all add: peer_name_of_def)
  then have "concat (map encode_heartbeat got) @ (r @ rest @ more) = concat (map encode_heartbeat hbs)"
    using assms(1) by (metis append.assoc)
  from pkt.stream_prefix [OF this] name show ?thesis by blast
qed

lemma numbered_prefix:
  assumes "map f xs = map of_nat [0..<length xs]" and "ys = take (length ys) xs"
  shows "map f ys = map of_nat [0..<length ys]"
proof -
  from assms(2) have "length ys \<le> length xs" by (metis length_take min.cobounded1)
  moreover have "map f ys = take (length ys) (map f xs)" using assms(2) by (metis take_map)
  ultimately show ?thesis by (simp add: assms(1) take_map)
qed

text \<open>What the server has done when a client reads echoes off the bytes that came back.\<close>

lemma server_side:
  assumes run: "run_steps (conn_step uni) (wb, conn_spawn server_node timeout faults) server_events = Some (wb', c)"
    and up: "prefix (concat (map conn_bytes server_events)) (wire_handshake node @ concat (map encode_heartbeat hbs))"
    and down: "concat (map encode_heartbeat got) @ r = sent (cn_out c)"
  shows "got = take (length got) hbs \<and> (got \<noteq> [] \<longrightarrow> cn_peer c = peer_name_of uni node
    \<and> (\<exists>nows more. length got \<le> length nows \<and> w_calls wb' = w_calls wb @ session_calls c nows @ more))"
proof -
  have count: "PACKET_SIZE * length got \<le> length (sent (cn_out c))"
    using arg_cong [OF down, of length] by (simp add: pkt.length_stream [symmetric])
  show ?thesis
  proof (cases "sent (cn_out c) = []")
    case True
    with count show ?thesis by (simp add: PACKET_SIZE_def)
  next
    case False
    with conn_invE [OF conn_run_inv [OF run]] obtain nows rest more where
      "conn_log uni (w_calls wb) (concat (map conn_bytes server_events)) (wb', c) nows rest more"
      and "echoed (cn_pc c) (length nows) (length (sent (cn_out c)))" by metis
    then obtain hs where
      hs: "accepted_handshake uni hs (cn_peer c)" "concat (map conn_bytes server_events) = hs @ sent (cn_out c) @ rest"
      and len: "length (sent (cn_out c)) \<le> PACKET_SIZE * length nows"
      and calls: "w_calls wb' = w_calls wb @ session_calls c nows @ more"
      using echoed_le by (auto simp: conn_log_def)
    from count len have "length got \<le> length nows" by (simp add: PACKET_SIZE_def)
    with calls echoed_packets [OF down hs(2) [symmetric] up hs(1)] show ?thesis by auto
  qed
qed

text \<open>
  C1. End to end: a client task in a session and the server connection at the other end, after any
  runs of the two whose bytes TCP carried. The echoes the client recorded are the first packets
  it sent, unchanged and in order, so their sequence numbers count up from 0 without a gap; and
  as soon as there is one, the server has accepted the client under the sanitised form of its
  node name and has recorded at least that many heartbeats of it.
\<close>

theorem end_to_end_echo:
  assumes "run_steps task_step (wa, task_spawn peer cfg node) client_events = Some (wa', t)" and "in_session (tk_pc t)"
    and "run_steps (conn_step uni) (wb, conn_spawn server_node timeout faults) server_events = Some (wb', c)"
    and "tcp_between client_events t server_events c"
  shows "\<exists>eps bs. w_calls wa' = w_calls wa @ history_calls t eps @ beats_calls (task_label t) (tk_start_ts t) bs
    \<and> rev (echoes bs) = take (length (echoes bs)) (rev (sents bs))
    \<and> map hb_seq (rev (echoes bs)) = map of_nat [0..<length (echoes bs)]
    \<and> (echoes bs \<noteq> [] \<longrightarrow> cn_peer c = peer_name_of uni node
         \<and> (\<exists>nows more. length (echoes bs) \<le> length nows \<and> w_calls wb' = w_calls wb @ session_calls c nows @ more))"
proof -
  from session_taskE [OF task_run_inv [OF assms(1)] assms(2)] obtain eps bs where
    log: "session_log (w_calls wa) (wa', t) eps bs" and ses: "session_inv (foldl task_arrived [] client_events) t bs" .
  from ses run_spawn_same(3) [OF assms(1)] have ok: "beats_ok bs"
    and out: "sent (tk_out t) = wire_handshake node @ concat (map encode_heartbeat (rev (sents bs)))"
    and arrived: "foldl task_arrived [] client_events =
      concat (map encode_heartbeat (rev (echoes bs))) @ held (tk_reader t) @ inbox_bytes (tk_inbox t)"
    by (simp_all add: session_inv_def)
  from assms(4) out have up: "prefix (concat (map conn_bytes server_events))
      (wire_handshake node @ concat (map encode_heartbeat (rev (sents bs))))"
    by (simp add: tcp_between_def)
  from assms(4) arrived obtain r where down: "concat (map encode_heartbeat (rev (echoes bs))) @ r = sent (cn_out c)"
    by (auto simp: tcp_between_def prefix_def)
  from server_side [OF assms(3) up down]
  have "rev (echoes bs) = take (length (echoes bs)) (rev (sents bs)) \<and>
      (echoes bs \<noteq> [] \<longrightarrow> cn_peer c = peer_name_of uni node
         \<and> (\<exists>nows more. length (echoes bs) \<le> length nows \<and> w_calls wb' = w_calls wb @ session_calls c nows @ more))"
    by simp
  moreover from this have "map hb_seq (rev (echoes bs)) = map of_nat [0..<length (echoes bs)]"
    using numbered_prefix [of hb_seq "rev (sents bs)" "rev (echoes bs)", unfolded length_rev, OF sents_numbered [OF ok]]
    by blast
  moreover from log have "w_calls wa' = w_calls wa @ history_calls t eps @ beats_calls (task_label t) (tk_start_ts t) bs"
    by (simp add: session_log_def)
  ultimately show ?thesis by blast
qed

theorem end_to_end_echo_witness:
  "\<exists>wa t wb c eps bs. run_steps task_step (fresh_world 0, example_task)
         (first_packet @ [TArrives [Arrive (encode_packet 0 (now_f64 0))], TPoll]) = Some (wa, t)
     \<and> run_steps (conn_step (\<lambda>_. False)) (fresh_world 0, conn_spawn [110, 50] 30 [])
         [CPoll, CArrives [Arrive [0, 0, 0, 2, 110, 49]], CPoll, CArrives [Arrive (encode_packet 0 (now_f64 0))], CPoll, CPoll]
         = Some (wb, c)
     \<and> cn_peer c = [110, 49] \<and> w_calls wa = history_calls t eps @ beats_calls (task_label t) (tk_start_ts t) bs
     \<and> rev (echoes bs) = take (length (echoes bs)) (rev (sents bs))"
proof -
  let ?p = "encode_packet 0 (now_f64 0)"
  let ?ce = "first_packet @ [TArrives [Arrive ?p], TPoll]"
  let ?se = "[CPoll, CArrives [Arrive [0, 0, 0, 2, 110, 49]], CPoll, CArrives [Arrive ?p], CPoll, CPoll]"
  obtain r where r: "recv reader_new [Arrive ?p] = (Ready (Inr \<lparr>hb_seq = 0, hb_timestamp = now_f64 0\<rparr>), r, [])"
    using recv_packet by blast
  have "\<exists>wa t. run_steps task_step (fresh_world 0, example_task) ?ce = Some (wa, t) \<and> tk_pc t = KSleep
      \<and> sent (tk_out t) = wire_handshake [110, 49] @ ?p"
    by (simp add: first_packet_def example_task_def task_spawn_def task_run_simps heartbeat_interval_def r
        example_client_def from_secs_def nanos_per_sec_def poll_echo_def echo_received_def)
  then obtain wa t where a: "run_steps task_step (fresh_world 0, example_task) ?ce = Some (wa, t)" "tk_pc t = KSleep"
    "sent (tk_out t) = [0, 0, 0, 2, 110, 49] @ ?p" by (auto simp: wire_handshake_n1)
  have "\<exists>wb c. run_steps (conn_step (\<lambda>_. False)) (fresh_world 0, conn_spawn [110, 50] 30 []) ?se
      = Some (wb, c) \<and> sent (cn_out c) = ?p \<and> cn_peer c = [110, 49]"
    by (simp add: conn_run_simps)
  then obtain wb c where b: "run_steps (conn_step (\<lambda>_. False)) (fresh_world 0, conn_spawn [110, 50] 30 []) ?se
      = Some (wb, c)" "sent (cn_out c) = ?p" "cn_peer c = [110, 49]" by blast
  have "tcp_between ?ce t ?se c"
    using a b by (simp add: tcp_between_def first_packet_def task_arrived_def conn_bytes_def)
  moreover have "in_session (tk_pc t)" by (simp add: a)
  ultimately obtain eps bs where "w_calls wa = history_calls t eps @ beats_calls (task_label t) (tk_start_ts t) bs"
    "rev (echoes bs) = take (length (echoes bs)) (rev (sents bs))"
    using end_to_end_echo [OF a(1) [unfolded example_task_def] _ b(1)] by auto
  with a(1) b show ?thesis by blast
qed

end
